(* ===== verification/Prelude.thy ===== *)
theory Prelude
  imports Main "HOL-Library.Word" "HOL-Library.State_Monad"
begin

text \<open>
  The generic layer of the development: the collections of rewrite rules, buffers as
  lists of bytes with in-place overwriting, C strings (a byte list read up to its first
  NUL), and facts on lists that the component theories share. A byte is an Isabelle
  \<^typ>\<open>char\<close>, a buffer of \<open>n\<close> bytes is a list of length \<open>n\<close>.
\<close>

named_theorems buffer_simps \<open>rewriting of buffers, C strings and reads from them\<close>
named_theorems io_simps \<open>running the primitive operations of the sequential programs\<close>
named_theorems step_defs \<open>definitions unfolded in a case analysis of a step function\<close>

section \<open>Bytes and buffers\<close>

type_synonym bytes = "char list"

abbreviation NUL :: char where
  "NUL \<equiv> CHR 0x00"

abbreviation nl :: char where
  "nl \<equiv> CHR 0x0A"

definition overwrite :: "'a list \<Rightarrow> nat \<Rightarrow> 'a list \<Rightarrow> 'a list" where
  "overwrite buf at xs = take at buf @ xs @ drop (at + length xs) buf"

lemma length_overwrite [simp]:
  "at + length xs \<le> length buf \<Longrightarrow> length (overwrite buf at xs) = length buf"
  by (simp add: overwrite_def)

lemma overwrite_start [buffer_simps]: "overwrite buf 0 xs = xs @ drop (length xs) buf"
  by (simp add: overwrite_def)

lemma overwrite_Nil [simp]: "overwrite buf at [] = buf"
  by (simp add: overwrite_def)

lemma overwrite_all: "length xs = length buf \<Longrightarrow> overwrite buf 0 xs = xs"
  by (simp add: overwrite_def)

lemma take_overwrite_before [buffer_simps]:
  "n \<le> at \<Longrightarrow> at \<le> length buf \<Longrightarrow> take n (overwrite buf at xs) = take n buf"
  by (simp add: overwrite_def min_absorb1)

lemma drop_overwrite_after [buffer_simps]:
  "at + length xs \<le> n \<Longrightarrow> at + length xs \<le> length buf \<Longrightarrow>
   drop n (overwrite buf at xs) = drop n buf"
  by (simp add: overwrite_def)

lemma overwrite_read_back [buffer_simps]:
  "at \<le> length buf \<Longrightarrow> take (length xs) (drop at (overwrite buf at xs)) = xs"
  by (simp add: overwrite_def)

lemma overwrite_twice:
  assumes "length xs = length ys" and "at + length xs \<le> length buf"
  shows "overwrite (overwrite buf at xs) at ys = overwrite buf at ys"
  using assms by (simp add: overwrite_def)

lemma overwrite_middle:
  "length a = at \<Longrightarrow> length xs \<le> length b \<Longrightarrow>
   overwrite (a @ b @ c) at xs = a @ (xs @ drop (length xs) b) @ c"
  by (simp add: overwrite_def)

section \<open>C strings\<close>

definition cstr :: "bytes \<Rightarrow> string" where
  "cstr buf = takeWhile (\<lambda>c. c \<noteq> NUL) buf"

definition strlen :: "bytes \<Rightarrow> nat" where
  "strlen buf = length (cstr buf)"

definition c_string :: "string \<Rightarrow> bool" where
  "c_string s \<longleftrightarrow> NUL \<notin> set s"

lemma cstr_terminated [simp]: "c_string s \<Longrightarrow> cstr (s @ NUL # rest) = s"
  unfolding cstr_def c_string_def by (subst takeWhile_append2) auto

lemma cstr_plain: "c_string s \<Longrightarrow> cstr s = s"
  unfolding cstr_def c_string_def by (rule takeWhile_eq_all_conv [THEN iffD2]) blast

lemma cstr_c_string [simp]: "c_string (cstr buf)"
  unfolding c_string_def cstr_def by (auto dest: set_takeWhileD)

lemma cstr_idem [simp]: "cstr (cstr buf) = cstr buf"
  by (rule cstr_plain) simp

lemma cstr_split: "NUL \<in> set buf \<Longrightarrow> \<exists>rest. buf = cstr buf @ NUL # rest"
proof -
  assume "NUL \<in> set buf"
  then obtain ys zs where "buf = ys @ NUL # zs" and "NUL \<notin> set ys"
    by (meson split_list_first)
  then show ?thesis by (auto simp: c_string_def)
qed

lemma cstr_length_le: "length (cstr buf) \<le> length buf"
  by (simp add: cstr_def length_takeWhile_le)

lemma strlen_terminated [simp]: "c_string s \<Longrightarrow> strlen (s @ NUL # rest) = length s"
  by (simp add: strlen_def)

lemma c_string_Nil [simp]: "c_string []"
  by (simp add: c_string_def)

lemma c_string_Cons [simp]: "c_string (c # s) \<longleftrightarrow> c \<noteq> NUL \<and> c_string s"
  by (auto simp: c_string_def)

lemma c_string_append [simp]: "c_string (s @ t) \<longleftrightarrow> c_string s \<and> c_string t"
  by (auto simp: c_string_def)

lemma c_string_take: "c_string s \<Longrightarrow> c_string (take n s)"
  unfolding c_string_def by (meson in_set_takeD)

lemma c_string_drop: "c_string s \<Longrightarrow> c_string (drop n s)"
  unfolding c_string_def by (meson in_set_dropD)

lemma cstr_overwrite [buffer_simps]:
  "c_string s \<Longrightarrow> cstr (overwrite buf 0 (s @ [NUL])) = s"
  by (simp add: overwrite_start)

section \<open>Lists\<close>

lemma map_idem_on: "(\<And>x. x \<in> set xs \<Longrightarrow> f (f x) = f x) \<Longrightarrow> map f (map f xs) = map f xs"
  by simp

lemma nth_map_upto: "map f (take n xs) @ map g (drop n xs) =
    map (\<lambda>i. if i < n then f (xs ! i) else g (xs ! i)) [0..<length xs]"
  by (rule nth_equalityI) (auto simp: nth_append min_def)

lemma take_Suc_nth_snoc: "n < length xs \<Longrightarrow> take (Suc n) xs = take n xs @ [xs ! n]"
  by (rule take_Suc_conv_app_nth)

text \<open>The orders of two things.\<close>

lemma distinct_two:
  assumes "distinct xs" and "set xs = {a, b}" and "a \<noteq> b" shows "xs = [a, b] \<or> xs = [b, a]"
proof -
  have "length xs = 2" using distinct_card [OF assms(1)] assms(2,3) by simp
  then obtain x y where "xs = [x, y]" by (auto simp: numeral_2_eq_2 length_Suc_conv)
  with assms show ?thesis by auto
qed

end
