(* ===== verification/C_Library.thy ===== *)
theory C_Library
  imports Prelude
begin

text \<open>
  What the programs use of the C library besides input and output: decimal printing
  (the \<open>%d\<close> of printf), atoi, toupper and tolower, and the line reader behind fgets.
  The numeric range of \<open>int\<close> is that of a 32-bit two's complement machine.
\<close>

section \<open>Decimal output\<close>

definition digit_char :: "nat \<Rightarrow> char" where
  "digit_char d = char_of (48 + d)"

fun dec_nat :: "nat \<Rightarrow> string" where
  "dec_nat n = (if n < 10 then [digit_char n] else dec_nat (n div 10) @ [digit_char (n mod 10)])"

declare dec_nat.simps [simp del]

definition dec :: "int \<Rightarrow> string" where
  "dec i = (if i < 0 then CHR ''-'' # dec_nat (nat (- i)) else dec_nat (nat i))"

section \<open>atoi\<close>

definition is_digit :: "char \<Rightarrow> bool" where
  "is_digit c \<longleftrightarrow> 48 \<le> (of_char c :: nat) \<and> (of_char c :: nat) \<le> 57"

definition digit_val :: "char \<Rightarrow> nat" where
  "digit_val c = of_char c - 48"

definition is_space :: "char \<Rightarrow> bool" where
  "is_space c \<longleftrightarrow> c = CHR '' '' \<or> (9 \<le> (of_char c :: nat) \<and> (of_char c :: nat) \<le> 13)"

definition digits_val :: "string \<Rightarrow> nat" where
  "digits_val ds = foldl (\<lambda>n c. 10 * n + digit_val c) 0 ds"

text \<open>
  The value strtol reads: white space, an optional sign, then the longest run of digits
  (zero where there is none).
\<close>

definition scan_long :: "string \<Rightarrow> int" where
  "scan_long s =
     (case dropWhile is_space s of
        [] \<Rightarrow> 0
      | c # cs \<Rightarrow>
          (if c = CHR ''-'' then - int (digits_val (takeWhile is_digit cs))
           else if c = CHR ''+'' then int (digits_val (takeWhile is_digit cs))
           else int (digits_val (takeWhile is_digit (c # cs)))))"

text \<open>
  \<open>atoi\<close> is \<open>(int) strtol(s, NULL, 10)\<close>: the value is clamped to the range of a 64-bit
  \<open>long\<close> and then truncated to 32 bits.
\<close>

definition clamp64 :: "int \<Rightarrow> int" where
  "clamp64 v = max (- (2 ^ 63)) (min (2 ^ 63 - 1) v)"

definition to_int32 :: "int \<Rightarrow> int" where
  "to_int32 v = signed_take_bit 31 v"

definition atoi :: "string \<Rightarrow> int" where
  "atoi s = to_int32 (clamp64 (scan_long s))"

definition int32 :: "int \<Rightarrow> bool" where
  "int32 i \<longleftrightarrow> - (2 ^ 31) \<le> i \<and> i < 2 ^ 31"

lemma to_int32_range: "int32 (to_int32 v)"
  unfolding int32_def to_int32_def
  using signed_take_bit_int_greater_eq_minus_exp [of 31 v] signed_take_bit_int_less_exp [of 31 v]
  by simp

lemma to_int32_id: "int32 i \<Longrightarrow> to_int32 i = i"
  unfolding int32_def to_int32_def by (simp add: signed_take_bit_int_eq_self)

lemma atoi_range: "int32 (atoi s)"
  by (simp add: atoi_def to_int32_range)

section \<open>atoi inverts decimal printing\<close>

lemma of_char_digit_char: "d < 10 \<Longrightarrow> (of_char (digit_char d) :: nat) = 48 + d"
  by (simp add: digit_char_def)

lemma is_digit_digit_char [simp]: "d < 10 \<Longrightarrow> is_digit (digit_char d)"
  by (simp add: is_digit_def of_char_digit_char)

lemma digit_val_digit_char [simp]: "d < 10 \<Longrightarrow> digit_val (digit_char d) = d"
  by (simp add: digit_val_def of_char_digit_char)

lemma digits_val_snoc: "digits_val (ds @ [c]) = 10 * digits_val ds + digit_val c"
  by (simp add: digits_val_def)

lemma digits_val_Nil [simp]: "digits_val [] = 0"
  by (simp add: digits_val_def)

lemma dec_nat_nonempty [simp]: "dec_nat n \<noteq> []"
  by (subst dec_nat.simps) simp

lemma dec_nat_digits: "list_all is_digit (dec_nat n)"
proof (induction n rule: dec_nat.induct)
  case (1 n)
  then show ?case by (subst dec_nat.simps) simp
qed

lemma digits_val_dec_nat: "digits_val (dec_nat n) = n"
proof (induction n rule: dec_nat.induct)
  case (1 n)
  show ?case
  proof (cases "n < 10")
    case True
    then show ?thesis by (subst dec_nat.simps) (simp add: digits_val_def)
  next
    case False
    with 1 show ?thesis by (subst dec_nat.simps) (simp add: digits_val_snoc)
  qed
qed

lemma takeWhile_digits_dec_nat [simp]: "takeWhile is_digit (dec_nat n) = dec_nat n"
  using dec_nat_digits [of n] by (auto simp: list_all_iff)

lemma is_digit_not_space: "is_digit c \<Longrightarrow> \<not> is_space c"
  by (auto simp: is_digit_def is_space_def)

lemma is_digit_not_sign: "is_digit c \<Longrightarrow> c \<noteq> CHR ''-'' \<and> c \<noteq> CHR ''+''"
  by (auto simp: is_digit_def)

lemma dec_nat_Cons: "\<exists>c cs. dec_nat n = c # cs \<and> is_digit c"
  using dec_nat_digits [of n] dec_nat_nonempty [of n] by (cases "dec_nat n") auto

lemma scan_long_dec: "scan_long (dec i) = i"
proof (cases "i < 0")
  case True
  then show ?thesis
    by (simp add: dec_def scan_long_def is_space_def digits_val_dec_nat)
next
  case False
  obtain c cs where dn: "dec_nat (nat i) = c # cs" and c: "is_digit c"
    using dec_nat_Cons by blast
  have tw: "takeWhile is_digit cs = cs"
    using takeWhile_digits_dec_nat [of "nat i"] c by (simp add: dn del: takeWhile_digits_dec_nat)
  have "digits_val (c # cs) = nat i"
    using digits_val_dec_nat [of "nat i"] by (simp only: dn)
  then show ?thesis
    using False c is_digit_not_space [OF c] is_digit_not_sign [OF c]
    by (simp add: dec_def dn scan_long_def tw)
qed

lemma atoi_dec: "int32 i \<Longrightarrow> atoi (dec i) = i"
proof -
  assume i: "int32 i"
  then have "clamp64 i = i" by (auto simp: clamp64_def int32_def)
  with i show ?thesis by (simp add: atoi_def scan_long_dec to_int32_id)
qed

lemma c_string_dec_nat: "c_string (dec_nat n)"
  unfolding c_string_def using dec_nat_digits [of n] by (auto simp: list_all_iff is_digit_def)

lemma c_string_dec [simp]: "c_string (dec i)"
  by (simp add: dec_def c_string_dec_nat)

section \<open>Characters\<close>

definition toupper :: "char \<Rightarrow> char" where
  "toupper c = (let n = (of_char c :: nat) in if 97 \<le> n \<and> n \<le> 122 then char_of (n - 32) else c)"

definition tolower :: "char \<Rightarrow> char" where
  "tolower c = (let n = (of_char c :: nat) in if 65 \<le> n \<and> n \<le> 90 then char_of (n + 32) else c)"

section \<open>Reading a line\<close>

text \<open>
  \<open>fgets(buf, n, stream)\<close> consumes at most \<open>n - 1\<close> bytes and stops after a newline;
  \<open>take_line k s\<close> is what it consumes of the input \<open>s\<close> for \<open>k = n - 1\<close>. With nothing
  left it returns NULL and does not touch the buffer; otherwise the bytes are stored with
  a NUL after them.
\<close>

fun take_line :: "nat \<Rightarrow> bytes \<Rightarrow> bytes" where
  "take_line 0 s = []"
| "take_line (Suc k) [] = []"
| "take_line (Suc k) (c # s) = (if c = nl then [c] else c # take_line k s)"

definition fgets :: "nat \<Rightarrow> bytes \<Rightarrow> (bytes \<times> bytes) option" where
  "fgets n s = (if s = [] then None
     else (let line = take_line (n - 1) s in Some (line, drop (length line) s)))"

definition store_line :: "bytes \<Rightarrow> bytes \<Rightarrow> bytes" where
  "store_line buf line = overwrite buf 0 (line @ [NUL])"

lemma take_line_prefix: "take (length (take_line k s)) s = take_line k s"
  by (induction k s rule: take_line.induct) auto

lemma take_line_drop: "take_line k s @ drop (length (take_line k s)) s = s"
  by (metis append_take_drop_id take_line_prefix)

lemma take_line_length: "length (take_line k s) \<le> k"
  by (induction k s rule: take_line.induct) auto

lemma take_line_nonempty: "0 < k \<Longrightarrow> s \<noteq> [] \<Longrightarrow> take_line k s \<noteq> []"
  by (cases k; cases s) auto

lemma take_line_no_newline: "nl \<notin> set s \<Longrightarrow> take_line k s = take k s"
  by (induction k s rule: take_line.induct) auto

lemma take_line_whole_line:
  "nl \<notin> set l \<Longrightarrow> length l < k \<Longrightarrow> take_line k (l @ nl # rest) = l @ [nl]"
proof (induction l arbitrary: k)
  case Nil
  then show ?case by (cases k) auto
next
  case (Cons c l)
  then show ?case by (cases k) auto
qed

lemma take_line_c_string: "c_string s \<Longrightarrow> c_string (take_line k s)"
  by (metis c_string_take take_line_prefix)

lemma fgets_None [simp]: "fgets n s = None \<longleftrightarrow> s = []"
  by (simp add: fgets_def Let_def)

lemma fgets_Some:
  "fgets n s = Some (line, rest) \<Longrightarrow>
   s = line @ rest \<and> line = take_line (n - 1) s \<and> length line \<le> n - 1 \<and> (1 < n \<longrightarrow> line \<noteq> [])"
  using take_line_nonempty [of "n - 1" s]
  by (auto simp: fgets_def Let_def take_line_drop take_line_length split: if_splits)

text \<open>The pieces fgets makes of a text, with 1023 bytes at most in each.\<close>

lemma fgets_pieces:
  assumes "fgets 1024 d = Some (l, rest)" shows "d = l @ rest \<and> l \<noteq> []"
proof -
  have "(1::nat) < 1024" by simp
  with fgets_Some [OF assms] show ?thesis by blast
qed

lemma fgets_shorter: "fgets 1024 d = Some (l, rest) \<Longrightarrow> length rest < length d"
  using fgets_pieces [of d l rest] by (cases l) simp_all

function file_lines :: "bytes \<Rightarrow> string list" where
  "file_lines d = (case fgets 1024 d of None \<Rightarrow> [] | Some (l, rest) \<Rightarrow> l # file_lines rest)"
  by pat_completeness auto

termination
proof (relation "measure length", goal_cases)
  case (2 d p l rest)
  then have "fgets 1024 d = Some (l, rest)" by (simp only: option.inject)
  from fgets_shorter [OF this] show ?case by (simp only: in_measure)
qed simp

declare file_lines.simps [simp del]

lemma file_lines_Nil [simp]: "file_lines [] = []"
  by (subst file_lines.simps) (simp add: fgets_def)

lemma file_lines_step: "fgets 1024 d = Some (l, rest) \<Longrightarrow> file_lines d = l # file_lines rest"
  by (subst file_lines.simps) simp

lemma concat_file_lines: "concat (file_lines d) = d"
proof (induction d rule: file_lines.induct)
  case (1 d)
  show ?case
  proof (cases "fgets 1024 d")
    case (Some p)
    then obtain l rest where f: "fgets 1024 d = Some (l, rest)" by (cases p) auto
    have "concat (file_lines rest) = rest" by (rule "1.IH" [OF f]) simp
    then show ?thesis using fgets_pieces [OF f] file_lines_step [OF f] by simp
  qed simp
qed

lemma cstr_store_line [buffer_simps]: "c_string line \<Longrightarrow> cstr (store_line buf line) = line"
  by (simp add: store_line_def cstr_overwrite)

lemma length_store_line [simp]:
  "length line < length buf \<Longrightarrow> length (store_line buf line) = length buf"
  by (simp add: store_line_def)

section \<open>Integers in memory\<close>

text \<open>The four bytes of an \<open>int\<close> or \<open>unsigned int\<close>, least significant first.\<close>

definition int_bytes :: "int \<Rightarrow> bytes" where
  "int_bytes i = (let n = nat (i mod 2 ^ 32) in
     [char_of n, char_of (n div 256), char_of (n div 65536), char_of (n div 16777216)])"

definition bytes_nat :: "bytes \<Rightarrow> nat" where
  "bytes_nat bs = of_char (bs ! 0) + 256 * of_char (bs ! 1) + 65536 * of_char (bs ! 2) +
     16777216 * of_char (bs ! 3)"

definition bytes_int :: "bytes \<Rightarrow> int" where
  "bytes_int bs = to_int32 (int (bytes_nat bs))"

lemma length_int_bytes [simp]: "length (int_bytes i) = 4"
  by (simp add: int_bytes_def Let_def)

lemma bytes_nat_int_bytes: "bytes_nat (int_bytes i @ rest) = nat (i mod 2 ^ 32)"
proof -
  define n where "n = nat (i mod 4294967296)"
  have lt: "n < 4294967296" by (simp add: n_def nat_less_iff)
  define a b c where "a = n div 256" and "b = a div 256" and "c = b div 256"
  have "n div 65536 = b" "n div 16777216 = c"
    using div_mult2_eq [of n 256 256] div_mult2_eq [of n 65536 256]
    by (simp_all add: a_def b_def c_def div_mult2_eq [symmetric])
  moreover have "n = 256 * a + n mod 256" "a = 256 * b + a mod 256" "b = 256 * c + b mod 256"
    by (simp_all add: a_def b_def c_def)
  moreover have "c < 256" using lt by (simp add: a_def b_def c_def div_mult2_eq [symmetric] less_mult_imp_div_less)
  ultimately have "n mod 256 + 256 * (a mod 256) + 65536 * (b mod 256) + 16777216 * (c mod 256) = n"
    by simp
  then show ?thesis
    using \<open>n div 65536 = b\<close> \<open>n div 16777216 = c\<close>
    by (simp add: bytes_nat_def int_bytes_def Let_def n_def [symmetric] a_def [symmetric]
        \<open>c < 256\<close>)
qed

lemma bytes_int_int_bytes: "int32 i \<Longrightarrow> bytes_int (int_bytes i @ rest) = i"
proof -
  assume i: "int32 i"
  have "int (nat (i mod 2 ^ 32)) = i mod 2 ^ 32" by simp
  moreover have "to_int32 (i mod 2 ^ 32) = to_int32 i"
    unfolding to_int32_def
    by (simp only: take_bit_eq_mod [symmetric] signed_take_bit_take_bit) simp
  ultimately show ?thesis using to_int32_id [OF i] by (simp add: bytes_int_def bytes_nat_int_bytes)
qed

section \<open>Error messages\<close>

text \<open>What \<open>perror(msg)\<close> writes to stderr when the error's description is \<open>e\<close>.\<close>

definition perror_text :: "string \<Rightarrow> string \<Rightarrow> string" where
  "perror_text msg e = msg @ '': '' @ e @ [nl]"

end
