(* ===== verification/Interleaving.thy ===== *)
theory Interleaving
  imports Prelude
begin

text \<open>
  Interleaving semantics for the programs with several threads or processes. A system is
  a partial step function \<open>step a s\<close>: the thread (or environment event) \<open>a\<close> makes its
  next atomic move in state \<open>s\<close>, or cannot move (\<open>None\<close>: blocked or finished). The
  scheduler is arbitrary: \<open>reach\<close> closes the initial state under all moves, and
  \<open>run_schedule\<close> executes a given list of picks, where a pick that cannot move does
  nothing. Three interfaces are stated as locales: an inductive invariant, mutual
  exclusion through one lock, and termination under fair scheduling.
\<close>

section \<open>Reachability and schedules\<close>

inductive reach :: "('a \<Rightarrow> 's \<Rightarrow> 's option) \<Rightarrow> 's \<Rightarrow> 's \<Rightarrow> bool"
  for step :: "'a \<Rightarrow> 's \<Rightarrow> 's option" and init :: 's where
  reach_init: "reach step init init"
| reach_step: "reach step init s \<Longrightarrow> step a s = Some t \<Longrightarrow> reach step init t"

fun run_schedule :: "('a \<Rightarrow> 's \<Rightarrow> 's option) \<Rightarrow> 'a list \<Rightarrow> 's \<Rightarrow> 's" where
  "run_schedule step [] s = s"
| "run_schedule step (a # as) s =
     run_schedule step as (case step a s of None \<Rightarrow> s | Some t \<Rightarrow> t)"

lemma run_schedule_append:
  "run_schedule step (as @ bs) s = run_schedule step bs (run_schedule step as s)"
  by (induction as arbitrary: s) auto

lemma reach_run_schedule: "reach step init s \<Longrightarrow> reach step init (run_schedule step as s)"
  by (induction as arbitrary: s) (auto intro: reach_step split: option.splits)

lemma run_schedule_keeps:
  assumes "\<And>a s t. a \<in> set as \<Longrightarrow> P s \<Longrightarrow> step a s = Some t \<Longrightarrow> P t" and "P s"
  shows "P (run_schedule step as s)"
  using assms
proof (induction as arbitrary: s)
  case (Cons a as)
  have "P (case step a s of None \<Rightarrow> s | Some t \<Rightarrow> t)"
    using Cons.prems by (auto split: option.split)
  then have "P (run_schedule step as (case step a s of None \<Rightarrow> s | Some t \<Rightarrow> t))"
    using Cons.prems(1) by (intro Cons.IH) auto
  then show ?case by simp
qed simp

lemma reach_trans: "reach step s t \<Longrightarrow> reach step r s \<Longrightarrow> reach step r t"
  by (induction rule: reach.induct) (auto intro: reach_step)

lemma reach_by_schedule: "reach step init s \<Longrightarrow> \<exists>as. s = run_schedule step as init"
proof (induction rule: reach.induct)
  case reach_init
  have "init = run_schedule step [] init" by simp
  then show ?case by blast
next
  case (reach_step s a t)
  then obtain as where "s = run_schedule step as init" by blast
  with reach_step.hyps have "t = run_schedule step (as @ [a]) init"
    by (simp add: run_schedule_append)
  then show ?case by blast
qed

section \<open>Inductive invariants\<close>

locale inductive_invariant =
  fixes step :: "'a \<Rightarrow> 's \<Rightarrow> 's option" and init :: 's and inv :: "'s \<Rightarrow> bool"
  assumes inv_init: "inv init"
    and inv_step: "inv s \<Longrightarrow> step a s = Some t \<Longrightarrow> inv t"
begin

lemma inv_reach: "reach step init s \<Longrightarrow> inv s"
  by (induction rule: reach.induct) (auto intro: inv_init inv_step)

lemma inv_schedule: "inv (run_schedule step as init)"
  using inv_reach reach_run_schedule reach_init by metis

end

section \<open>Mutual exclusion\<close>

text \<open>
  \<open>holds i s\<close>: thread \<open>i\<close> is between acquiring and releasing the lock; \<open>free s\<close>: the
  lock object can be acquired; \<open>mover a\<close>: the thread whose move \<open>a\<close> is (\<open>None\<close> for a move
  of no lock user). A move changes at most its own thread's holding, takes the lock only
  where it is free, and frees it only by giving it up.
\<close>

locale lock_protocol =
  fixes step :: "'a \<Rightarrow> 's \<Rightarrow> 's option" and init :: 's
    and mover :: "'a \<Rightarrow> 'i option" and holds :: "'i \<Rightarrow> 's \<Rightarrow> bool" and free :: "'s \<Rightarrow> bool"
  assumes init_free: "free init" and init_none: "\<not> holds i init"
    and others_keep: "reach step init s \<Longrightarrow> step a s = Some t \<Longrightarrow> mover a \<noteq> Some i \<Longrightarrow>
      holds i t = holds i s"
    and acquires: "reach step init s \<Longrightarrow> step a s = Some t \<Longrightarrow> mover a = Some i \<Longrightarrow>
      \<not> holds i s \<Longrightarrow> holds i t \<Longrightarrow> free s \<and> \<not> free t"
    and releases: "reach step init s \<Longrightarrow> step a s = Some t \<Longrightarrow> mover a = Some i \<Longrightarrow>
      holds i s \<Longrightarrow> \<not> holds i t \<Longrightarrow> free t"
    and lock_kept: "reach step init s \<Longrightarrow> step a s = Some t \<Longrightarrow>
      (\<And>i. mover a = Some i \<Longrightarrow> holds i t = holds i s) \<Longrightarrow> free t = free s"
begin

definition lock_inv :: "'s \<Rightarrow> bool" where
  "lock_inv s \<longleftrightarrow> (free s \<longleftrightarrow> (\<forall>i. \<not> holds i s)) \<and> (\<forall>i j. holds i s \<longrightarrow> holds j s \<longrightarrow> i = j)"

lemma lock_inv_step:
  assumes inv: "lock_inv s" and r: "reach step init s" and st: "step a s = Some t"
  shows "lock_inv t"
proof -
  have keep: "holds i t = holds i s" if "mover a \<noteq> Some i" for i
    using others_keep [OF r st] that by blast
  consider (same) "\<And>i. mover a = Some i \<Longrightarrow> holds i t = holds i s"
    | (acq) i where "mover a = Some i" "\<not> holds i s" "holds i t"
    | (rel) i where "mover a = Some i" "holds i s" "\<not> holds i t"
    by blast
  then show ?thesis
  proof cases
    case same
    with keep have eq: "holds i t = holds i s" for i by blast
    from same have "free t = free s" by (rule lock_kept [OF r st])
    with inv eq show ?thesis by (simp add: lock_inv_def)
  next
    case acq
    from acquires [OF r st acq] have "free s" "\<not> free t" by auto
    with inv have "\<not> holds j s" for j by (simp add: lock_inv_def)
    with keep acq \<open>\<not> free t\<close> show ?thesis unfolding lock_inv_def by (metis option.inject)
  next
    case rel
    from releases [OF r st rel] have "free t" .
    moreover have "\<not> holds j t" for j
      using inv rel keep unfolding lock_inv_def by (metis option.inject)
    ultimately show ?thesis by (simp add: lock_inv_def)
  qed
qed

lemma lock_inv_reach: "reach step init s \<Longrightarrow> lock_inv s"
proof (induction rule: reach.induct)
  case reach_init
  show ?case by (simp add: lock_inv_def init_free init_none)
next
  case (reach_step s a t)
  then show ?case by (blast intro: lock_inv_step)
qed

lemma exclusive: "reach step init s \<Longrightarrow> holds i s \<Longrightarrow> holds j s \<Longrightarrow> i = j"
  using lock_inv_reach unfolding lock_inv_def by blast

lemma free_iff: "reach step init s \<Longrightarrow> free s \<longleftrightarrow> (\<forall>i. \<not> holds i s)"
  using lock_inv_reach unfolding lock_inv_def by blast

end

section \<open>Termination under fair scheduling\<close>

text \<open>
  A round is a list of picks in which every thread of \<open>fair\<close> occurs. The law: in every
  reachable unfinished state some thread has a move that lowers the measure, no move
  raises it, and a helpful thread stays helpful until the measure drops. Then \<open>\<mu> s\<close>
  rounds finish every run from \<open>s\<close>, whatever else the rounds contain.
\<close>

locale fair_termination =
  fixes step :: "'a \<Rightarrow> 's \<Rightarrow> 's option" and init :: 's and fair :: "'a set"
    and \<mu> :: "'s \<Rightarrow> nat" and finished :: "'s \<Rightarrow> bool"
  assumes finished_stable: "reach step init s \<Longrightarrow> finished s \<Longrightarrow> step a s = Some t \<Longrightarrow> finished t"
    and never_up: "reach step init s \<Longrightarrow> \<not> finished s \<Longrightarrow> step a s = Some t \<Longrightarrow>
      finished t \<or> \<mu> t \<le> \<mu> s"
    and helpful: "reach step init s \<Longrightarrow> \<not> finished s \<Longrightarrow>
      \<exists>a\<in>fair. \<exists>t. step a s = Some t \<and> (finished t \<or> \<mu> t < \<mu> s)"
    and persists: "reach step init s \<Longrightarrow> \<not> finished s \<Longrightarrow> a \<in> fair \<Longrightarrow> step a s = Some t \<Longrightarrow>
      finished t \<or> \<mu> t < \<mu> s \<Longrightarrow> step b s = Some u \<Longrightarrow> b \<noteq> a \<Longrightarrow> \<not> finished u \<Longrightarrow> \<mu> u = \<mu> s \<Longrightarrow>
      \<exists>t'. step a u = Some t' \<and> (finished t' \<or> \<mu> t' < \<mu> u)"
begin

lemma stays_finished: "reach step init s \<Longrightarrow> finished s \<Longrightarrow> finished (run_schedule step as s)"
proof (induction as arbitrary: s)
  case (Cons a as)
  show ?case
  proof (cases "step a s")
    case None
    with Cons show ?thesis by simp
  next
    case (Some t)
    have "reach step init t" using Cons.prems(1) Some by (rule reach_step)
    moreover have "finished t" using Cons.prems Some by (metis finished_stable)
    ultimately show ?thesis using Cons.IH Some by simp
  qed
qed simp

lemma never_up_schedule:
  "reach step init s \<Longrightarrow> finished (run_schedule step as s) \<or> \<mu> (run_schedule step as s) \<le> \<mu> s"
proof (induction as arbitrary: s)
  case (Cons a as)
  show ?case
  proof (cases "step a s")
    case None
    with Cons show ?thesis by simp
  next
    case (Some t)
    have rt: "reach step init t" using Cons.prems Some by (rule reach_step)
    show ?thesis
    proof (cases "finished s \<or> finished t")
      case True
      with Cons.prems Some have "finished t" by (metis finished_stable)
      with rt Some show ?thesis by (simp add: stays_finished)
    next
      case False
      with never_up [OF Cons.prems _ Some] have "\<mu> t \<le> \<mu> s" by blast
      with Cons.IH [OF rt] Some show ?thesis by auto
    qed
  qed
qed simp

lemma helper_runs:
  assumes "reach step init s" and "\<not> finished s" and "a \<in> fair" and "a \<in> set as"
    and "step a s = Some t" and "finished t \<or> \<mu> t < \<mu> s"
  shows "finished (run_schedule step as s) \<or> \<mu> (run_schedule step as s) < \<mu> s"
  using assms
proof (induction as arbitrary: s t)
  case (Cons b as)
  note rs = Cons.prems(1) and nf = Cons.prems(2) and st = Cons.prems(5) and low = Cons.prems(6)
  have drop: "finished (run_schedule step as u) \<or> \<mu> (run_schedule step as u) < \<mu> s"
    if "step c s = Some u" and "finished u \<or> \<mu> u < \<mu> s" for c u
  proof -
    have ru: "reach step init u" using rs that(1) by (rule reach_step)
    show ?thesis using stays_finished [OF ru] never_up_schedule [OF ru, of as] that(2) by force
  qed
  show ?case
  proof (cases "b = a")
    case True
    with drop [OF st low] st show ?thesis by simp
  next
    case False
    then have mem: "a \<in> set as" using Cons.prems(4) by simp
    show ?thesis
    proof (cases "step b s")
      case None
      with Cons.IH [OF rs nf Cons.prems(3) mem st low] show ?thesis by simp
    next
      case (Some u)
      have ru: "reach step init u" using rs Some by (rule reach_step)
      show ?thesis
      proof (cases "finished u \<or> \<mu> u < \<mu> s")
        case True
        with drop [OF Some] Some show ?thesis by simp
      next
        case low': False
        with never_up [OF rs nf Some] have eq: "\<mu> u = \<mu> s" and nfu: "\<not> finished u" by auto
        obtain t' where "step a u = Some t'" "finished t' \<or> \<mu> t' < \<mu> u"
          using persists [OF rs nf Cons.prems(3) st low Some False nfu eq] by blast
        with Cons.IH [OF ru nfu Cons.prems(3) mem] eq Some show ?thesis by simp
      qed
    qed
  qed
qed simp

lemma round_progress:
  assumes "reach step init s" and "\<not> finished s" and "fair \<subseteq> set r"
  shows "finished (run_schedule step r s) \<or> \<mu> (run_schedule step r s) < \<mu> s"
proof -
  obtain a t where a: "a \<in> fair" "step a s = Some t" "finished t \<or> \<mu> t < \<mu> s"
    using helpful [OF assms(1,2)] by blast
  with assms(3) have "a \<in> set r" by blast
  then show ?thesis using helper_runs [OF assms(1,2) a(1) _ a(2,3)] by blast
qed

lemma fair_rounds_finish:
  assumes "reach step init s" and "\<forall>r\<in>set rounds. fair \<subseteq> set r" and "\<mu> s < length rounds"
  shows "finished (run_schedule step (concat rounds) s)"
  using assms
proof (induction rounds arbitrary: s)
  case (Cons r rounds)
  have rs: "reach step init (run_schedule step r s)"
    using Cons.prems(1) by (rule reach_run_schedule)
  show ?case
  proof (cases "finished s \<or> finished (run_schedule step r s)")
    case True
    with Cons.prems(1) have "finished (run_schedule step r s)" by (auto intro: stays_finished)
    with rs show ?thesis by (simp add: run_schedule_append stays_finished)
  next
    case False
    with round_progress [OF Cons.prems(1), of r] Cons.prems(2)
    have "\<mu> (run_schedule step r s) < \<mu> s" by auto
    with Cons.prems(3) have "\<mu> (run_schedule step r s) < length rounds" by simp
    with Cons.IH [OF rs] Cons.prems(2) show ?thesis by (simp add: run_schedule_append)
  qed
qed simp

lemma can_finish:
  assumes "reach step init s" and "finite fair"
  shows "\<exists>as. finished (run_schedule step as s)"
proof -
  obtain r where "set r = fair" using finite_list [OF assms(2)] by blast
  then have "\<forall>r'\<in>set (replicate (Suc (\<mu> s)) r). fair \<subseteq> set r'"
    by (metis in_set_replicate order_refl)
  moreover have "\<mu> s < length (replicate (Suc (\<mu> s)) r)" by simp
  ultimately show ?thesis using fair_rounds_finish [OF assms(1)] by blast
qed

end

text \<open>
  The common special case: every move lowers the measure. Then a run is never longer than
  the measure of its first state, and being fair is only needed to make a move at all.
\<close>

locale strict_termination =
  fixes step :: "'a \<Rightarrow> 's \<Rightarrow> 's option" and init :: 's and fair :: "'a set"
    and \<mu> :: "'s \<Rightarrow> nat" and finished :: "'s \<Rightarrow> bool"
  assumes strictly_down: "reach step init s \<Longrightarrow> step a s = Some t \<Longrightarrow> \<mu> t < \<mu> s"
    and stuck_finished: "reach step init s \<Longrightarrow> finished s \<Longrightarrow> step a s = None"
    and some_move: "reach step init s \<Longrightarrow> \<not> finished s \<Longrightarrow> \<exists>a\<in>fair. step a s \<noteq> None"

sublocale strict_termination \<subseteq> fair_termination step init fair \<mu> finished
proof unfold_locales
  fix s a t
  assume "reach step init s" and "finished s" and "step a s = Some t"
  then show "finished t" using stuck_finished by fastforce
next
  fix s a t
  assume "reach step init s" and "step a s = Some t"
  then show "finished t \<or> \<mu> t \<le> \<mu> s" using strictly_down by force
next
  fix s
  assume r: "reach step init s" and "\<not> finished s"
  then obtain a t where "a \<in> fair" "step a s = Some t" using some_move by blast
  with strictly_down [OF r] show "\<exists>a\<in>fair. \<exists>t. step a s = Some t \<and> (finished t \<or> \<mu> t < \<mu> s)"
    by blast
next
  fix s a t b u
  assume "reach step init s" and "step b s = Some u" and "\<mu> u = \<mu> s"
  then show "\<exists>t'. step a u = Some t' \<and> (finished t' \<or> \<mu> t' < \<mu> u)"
    using strictly_down by fastforce
qed

context strict_termination begin

lemma rounds_finish:
  "\<forall>r\<in>set rounds. fair \<subseteq> set r \<Longrightarrow> \<mu> init < length rounds \<Longrightarrow>
   finished (run_schedule step (concat rounds) init)"
  by (rule fair_rounds_finish [OF reach_init])

end

section \<open>Refinement\<close>

text \<open>
  The states a schedule goes through. Through an abstraction \<open>view\<close> and without its repetitions a run
  of the system is a run of the specification \<open>spec\<close>, a relation between abstract states: each move
  leaves the abstract state alone or is one step of the specification.
\<close>

fun run_states :: "('a \<Rightarrow> 's \<Rightarrow> 's option) \<Rightarrow> 'a list \<Rightarrow> 's \<Rightarrow> 's list" where
  "run_states step [] s = [s]"
| "run_states step (a # as) s =
     s # run_states step as (case step a s of None \<Rightarrow> s | Some t \<Rightarrow> t)"

definition abstract_run :: "('s \<Rightarrow> 't) \<Rightarrow> 's list \<Rightarrow> 't list" where
  "abstract_run view ss = remdups_adj (map view ss)"

definition spec_run :: "('t \<Rightarrow> 't \<Rightarrow> bool) \<Rightarrow> 't \<Rightarrow> 't list \<Rightarrow> bool" where
  "spec_run spec t ts \<longleftrightarrow> ts \<noteq> [] \<and> hd ts = t \<and> successively spec ts"

lemma run_states_Cons: "\<exists>ss. run_states step as s = s # ss"
  by (cases as) simp_all

lemma last_run_states [simp]: "last (run_states step as s) = run_schedule step as s"
proof (induction as arbitrary: s)
  case (Cons a as)
  then show ?case using run_states_Cons [of step as] by (metis last_ConsR list.distinct(1) run_schedule.simps(2) run_states.simps(2))
qed simp

lemma run_states_reach: "t \<in> set (run_states step as s) \<Longrightarrow> reach step init s \<Longrightarrow> reach step init t"
  by (induction as arbitrary: s) (auto intro: reach_step split: option.splits)

lemma last_abstract_run: "ss \<noteq> [] \<Longrightarrow> last (abstract_run view ss) = view (last ss)"
  by (simp add: abstract_run_def last_map)

lemma spec_run_rtranclp: "spec_run spec t ts \<Longrightarrow> u \<in> set ts \<Longrightarrow> spec\<^sup>*\<^sup>* t u"
proof (induction ts arbitrary: t)
  case (Cons x xs)
  show ?case
  proof (cases xs)
    case Nil
    with Cons.prems show ?thesis by (simp add: spec_run_def)
  next
    case (Cons y ys)
    with Cons.prems have x: "x = t" "spec t y" "spec_run spec y xs" by (auto simp: spec_run_def)
    with Cons.IH [OF x(3)] Cons.prems(2) show ?thesis by (auto intro: converse_rtranclp_into_rtranclp)
  qed
qed simp

locale simulation = inductive_invariant step init inv
  for step :: "'a \<Rightarrow> 's \<Rightarrow> 's option" and init :: 's and inv :: "'s \<Rightarrow> bool" +
  fixes spec :: "'t \<Rightarrow> 't \<Rightarrow> bool" and view :: "'s \<Rightarrow> 't"
  assumes simulated: "inv s \<Longrightarrow> step a s = Some t \<Longrightarrow> view t = view s \<or> spec (view s) (view t)"
begin

lemma run_refines_from: "inv s \<Longrightarrow> spec_run spec (view s) (abstract_run view (run_states step as s))"
proof (induction as arbitrary: s)
  case Nil
  show ?case by (simp add: spec_run_def abstract_run_def)
next
  case (Cons a as)
  define t where "t = (case step a s of None \<Rightarrow> s | Some t \<Rightarrow> t)"
  have t: "inv t" "view t = view s \<or> spec (view s) (view t)"
    using Cons.prems inv_step simulated by (auto simp: t_def split: option.splits)
  obtain ss where ss: "run_states step as t = t # ss" by (metis run_states_Cons)
  obtain ts where ts: "remdups_adj (view t # map view ss) = view t # ts" by (metis remdups_adj_Cons_alt)
  have r: "spec_run spec (view t) (view t # ts)"
    using Cons.IH [OF t(1)] by (simp add: ss ts abstract_run_def)
  have "abstract_run view (run_states step (a # as) s) = (if view s = view t then view t # ts else view s # view t # ts)"
    using ts by (simp add: abstract_run_def t_def [symmetric] ss)
  with r t(2) show ?case by (auto simp: spec_run_def)
qed

lemma run_refines: "spec_run spec (view init) (abstract_run view (run_states step as init))"
  by (rule run_refines_from [OF inv_init])

lemma reach_refines: "reach step init s \<Longrightarrow> spec\<^sup>*\<^sup>* (view init) (view s)"
proof (induction rule: reach.induct)
  case (reach_step s a t)
  then show ?case using simulated [OF inv_reach [OF reach_step.hyps(1)] reach_step.hyps(2)] by auto
qed simp

text \<open>What the specification keeps, the system keeps.\<close>

lemma spec_invariant:
  assumes "\<And>t u. P t \<Longrightarrow> spec t u \<Longrightarrow> P u" and "P (view init)" and "reach step init s"
  shows "P (view s)"
  using reach_refines [OF assms(3)] by (induction rule: rtranclp_induct) (use assms(1,2) in auto)

end

text \<open>
  More generally the abstract state need not be a function of the concrete one: a relation \<open>sim\<close>
  ties them, and each move of the system leaves the abstract state alone or is matched by one step
  of the specification. The states of a run are then related, one by one, to those of a run of the
  specification that may pause.
\<close>

locale forward_simulation =
  fixes step :: "'a \<Rightarrow> 's \<Rightarrow> 's option" and init :: 's
    and spec :: "'t \<Rightarrow> 't \<Rightarrow> bool" and start :: 't and sim :: "'s \<Rightarrow> 't \<Rightarrow> bool"
  assumes sim_init: "sim init start"
    and sim_step: "reach step init s \<Longrightarrow> sim s v \<Longrightarrow> step a s = Some t \<Longrightarrow> sim t v \<or> (\<exists>w. spec v w \<and> sim t w)"
begin

lemma run_followed_from:
  "reach step init s \<Longrightarrow> sim s v \<Longrightarrow> \<exists>vs. list_all2 sim (run_states step as s) vs \<and> spec_run spec\<^sup>=\<^sup>= v vs"
proof (induction as arbitrary: s v)
  case Nil
  then have "list_all2 sim (run_states step [] s) [v] \<and> spec_run spec\<^sup>=\<^sup>= v [v]" by (simp add: spec_run_def)
  then show ?case by blast
next
  case (Cons a as)
  define t where "t = (case step a s of None \<Rightarrow> s | Some t \<Rightarrow> t)"
  have rt: "reach step init t" using Cons.prems(1) by (auto simp: t_def intro: reach_step split: option.split)
  obtain w where w: "spec\<^sup>=\<^sup>= v w" "sim t w"
    using sim_step [OF Cons.prems, of a] Cons.prems(2) by (cases "step a s") (auto simp: t_def)
  obtain vs where vs: "list_all2 sim (run_states step as t) vs" "spec_run spec\<^sup>=\<^sup>= w vs"
    using Cons.IH [OF rt w(2)] by blast
  have "list_all2 sim (run_states step (a # as) s) (v # vs)" using vs(1) Cons.prems(2) by (simp add: t_def)
  moreover have "spec_run spec\<^sup>=\<^sup>= v (v # vs)" using vs(2) w(1) by (cases vs) (simp_all add: spec_run_def)
  ultimately show ?case by blast
qed

lemma run_followed: "\<exists>vs. list_all2 sim (run_states step as init) vs \<and> spec_run spec\<^sup>=\<^sup>= start vs"
  by (rule run_followed_from [OF reach_init sim_init])

lemma reach_followed: "reach step init s \<Longrightarrow> \<exists>v. spec\<^sup>*\<^sup>* start v \<and> sim s v"
proof (induction rule: reach.induct)
  case reach_init
  with sim_init show ?case by blast
next
  case (reach_step s a t)
  then show ?case using sim_step by (meson rtranclp.rtrancl_into_rtrancl)
qed

end

sublocale simulation \<subseteq> forward_simulation step init spec "view init" "\<lambda>s v. inv s \<and> v = view s"
proof unfold_locales
  show "inv init \<and> view init = view init" using inv_init by simp
next
  fix s v a t
  assume "inv s \<and> v = view s" and "step a s = Some t"
  then show "inv t \<and> v = view t \<or> (\<exists>w. spec v w \<and> inv t \<and> w = view t)"
    using inv_step [of s a t] simulated [of s a t] by metis
qed

section \<open>Sections that take effect one after the other\<close>

text \<open>
  A specification for critical sections: each agent acts once, as a whole, in any order. Then what
  a run leaves is what the same agents leave one after the other.
\<close>

inductive once :: "('i \<Rightarrow> 'd \<Rightarrow> 'd \<Rightarrow> bool) \<Rightarrow> 'i set \<times> 'd \<Rightarrow> 'i set \<times> 'd \<Rightarrow> bool"
  for act :: "'i \<Rightarrow> 'd \<Rightarrow> 'd \<Rightarrow> bool" where
  acts: "t \<notin> T \<Longrightarrow> act t d e \<Longrightarrow> once act (T, d) (insert t T, e)"

fun in_turn :: "('i \<Rightarrow> 'd \<Rightarrow> 'd \<Rightarrow> bool) \<Rightarrow> 'i list \<Rightarrow> 'd \<Rightarrow> 'd \<Rightarrow> bool" where
  "in_turn act [] d e \<longleftrightarrow> d = e"
| "in_turn act (t # ts) d e \<longleftrightarrow> (\<exists>x. act t d x \<and> in_turn act ts x e)"

lemma in_turn_snoc: "in_turn act ts d e \<Longrightarrow> act t e f \<Longrightarrow> in_turn act (ts @ [t]) d f"
proof (induction ts arbitrary: d)
  case (Cons u ts)
  then obtain x where x: "act u d x" "in_turn act ts x e" by (simp only: in_turn.simps) blast
  have "in_turn act (ts @ [t]) x f" by (rule Cons.IH [OF x(2) Cons.prems(2)])
  with x(1) show ?case by (simp only: append_Cons in_turn.simps) blast
qed simp

lemma once_serial:
  assumes "(once act)\<^sup>*\<^sup>* ({}, d) v"
  shows "\<exists>ts. distinct ts \<and> set ts = fst v \<and> in_turn act ts d (snd v)"
  using assms
proof (induction rule: rtranclp_induct)
  case base
  show ?case by (rule exI [of _ "[]"]) simp
next
  case (step v w)
  then obtain ts where ts: "distinct ts" "set ts = fst v" "in_turn act ts d (snd v)" by blast
  from step.hyps(2) obtain t where t: "t \<notin> fst v" "act t (snd v) (snd w)" "fst w = insert t (fst v)"
    by (cases rule: once.cases) simp
  have "distinct (ts @ [t])" "set (ts @ [t]) = fst w" using ts t by simp_all
  moreover have "in_turn act (ts @ [t]) d (snd w)" by (rule in_turn_snoc [OF ts(3) t(2)])
  ultimately show ?case by blast
qed

locale serial_sections = forward_simulation step init "once act" "({}, d)" sim
  for step :: "'a \<Rightarrow> 's \<Rightarrow> 's option" and init :: 's and act :: "'i \<Rightarrow> 'd \<Rightarrow> 'd \<Rightarrow> bool" and d :: 'd
    and sim :: "'s \<Rightarrow> 'i set \<times> 'd \<Rightarrow> bool"
begin

lemma reach_serial: "reach step init s \<Longrightarrow> \<exists>ts e. distinct ts \<and> in_turn act ts d e \<and> sim s (set ts, e)"
proof -
  assume "reach step init s"
  then obtain v where v: "(once act)\<^sup>*\<^sup>* ({}, d) v" "sim s v" using reach_followed by blast
  from once_serial [OF v(1)] obtain ts where "distinct ts" "set ts = fst v" "in_turn act ts d (snd v)" by blast
  moreover from this v(2) have "sim s (set ts, snd v)" by simp
  ultimately show ?thesis by blast
qed

end

end
