(* ===== verification/Bank_Account.thy ===== *)
theory Bank_Account
  imports C_Library Interleaving
begin

text \<open>
  \<open>pthread_example.c\<close>: two threads withdraw from \<open>total_money\<close> under one pthread mutex
  while \<open>main\<close> waits for both. The decrement \<open>total_money -= money\<close> is two atomic moves,
  a load and a store, so that an unprotected run could lose an update. The output is the
  byte stream of stdout; \<open>printf\<close> is one atomic move. The source ignores the result of
  \<open>pthread_create\<close>: when it fails there is no thread, and \<open>main\<close> joins through an uninitialised
  variable, which is undefined; the run then has no further move.
\<close>

section \<open>State\<close>

datatype account_thread = Thread1 | Thread2

datatype withdrawal_pc =
    W_None \<comment> \<open>not created yet\<close>
  | W_Start | W_Lock | W_Print | W_Load | W_Store int | W_Sleep | W_Finish | W_Unlock | W_Exit
  | W_Done \<comment> \<open>terminated, can be joined\<close>

datatype account_main_pc =
  A_Init | A_Create1 | A_Create2 | A_Join1 | A_Join2 | A_Print | A_Return | A_Exited
  | A_Undefined \<comment> \<open>joined a thread that was never created\<close>

instantiation account_thread :: enum
begin

definition enum_account_thread :: "account_thread list" where
  "enum_account_thread = [Thread1, Thread2]"

definition enum_all_account_thread :: "(account_thread \<Rightarrow> bool) \<Rightarrow> bool" where
  "enum_all_account_thread P \<longleftrightarrow> P Thread1 \<and> P Thread2"

definition enum_ex_account_thread :: "(account_thread \<Rightarrow> bool) \<Rightarrow> bool" where
  "enum_ex_account_thread P \<longleftrightarrow> P Thread1 \<or> P Thread2"

instance
proof
  show univ: "UNIV = set (enum_class.enum :: account_thread list)"
    using account_thread.exhaust by (auto simp: enum_account_thread_def)
  show "distinct (enum_class.enum :: account_thread list)" by (simp add: enum_account_thread_def)
  show "enum_class.enum_all P \<longleftrightarrow> Ball UNIV P" for P :: "account_thread \<Rightarrow> bool"
    unfolding univ by (simp add: enum_all_account_thread_def enum_account_thread_def)
  show "enum_class.enum_ex P \<longleftrightarrow> Bex UNIV P" for P :: "account_thread \<Rightarrow> bool"
    unfolding univ by (simp add: enum_ex_account_thread_def enum_account_thread_def)
qed

end

lemma account_threads: "(UNIV :: account_thread set) = {Thread1, Thread2}"
  by (simp add: UNIV_enum enum_account_thread_def)

record account_state =
  total_money :: int
  mutex :: "account_thread option"
  a_out :: string
  wpc :: "account_thread \<Rightarrow> withdrawal_pc"
  money :: "account_thread \<Rightarrow> int"
  amain :: account_main_pc

datatype account_actor = Account_Main | Withdraw account_thread | Create_Fails

text \<open>The locals \<open>money1\<close> and \<open>money2\<close> of \<open>main\<close>, whose addresses the threads get.\<close>

definition money_arg :: "account_thread \<Rightarrow> int" where
  "money_arg t = (case t of Thread1 \<Rightarrow> 100 | Thread2 \<Rightarrow> 200)"

definition withdraw_line :: "int \<Rightarrow> string" where
  "withdraw_line m = ''withdraw $'' @ dec m @ '' from total balance'' @ [nl]"

definition finish_line :: "int \<Rightarrow> string" where
  "finish_line m = ''calculation finish. (withdraw $'' @ dec m @ '')'' @ [nl]"

definition total_line :: "int \<Rightarrow> string" where
  "total_line m = ''total money is $'' @ dec m @ [nl]"

definition balance_line :: "int \<Rightarrow> string" where
  "balance_line m = ''The remained balance is $'' @ dec m @ [nl]"

definition account_init :: account_state where
  "account_init = \<lparr>total_money = 0, mutex = None, a_out = [], wpc = (\<lambda>_. W_None),
     money = (\<lambda>_. 0), amain = A_Init\<rparr>"

section \<open>Steps\<close>

definition goto_w :: "account_thread \<Rightarrow> withdrawal_pc \<Rightarrow> account_state \<Rightarrow> account_state" where
  "goto_w t p s = s\<lparr>wpc := (wpc s)(t := p)\<rparr>"

fun withdrawal :: "withdrawal_pc \<Rightarrow> account_thread \<Rightarrow> account_state \<Rightarrow> account_state option" where
  "withdrawal W_None t s = None"
| "withdrawal W_Start t s = Some (goto_w t W_Lock (s\<lparr>money := (money s)(t := money_arg t)\<rparr>))"
| "withdrawal W_Lock t s =
     (if mutex s = None then Some (goto_w t W_Print (s\<lparr>mutex := Some t\<rparr>)) else None)"
| "withdrawal W_Print t s = Some (goto_w t W_Load (s\<lparr>a_out := a_out s @ withdraw_line (money s t)\<rparr>))"
| "withdrawal W_Load t s = Some (goto_w t (W_Store (total_money s - money s t)) s)"
| "withdrawal (W_Store v) t s = Some (goto_w t W_Sleep (s\<lparr>total_money := v\<rparr>))"
| "withdrawal W_Sleep t s = Some (goto_w t W_Finish s)"
| "withdrawal W_Finish t s = Some (goto_w t W_Unlock (s\<lparr>a_out := a_out s @ finish_line (money s t)\<rparr>))"
| "withdrawal W_Unlock t s = Some (goto_w t W_Exit (s\<lparr>mutex := None\<rparr>))"
| "withdrawal W_Exit t s = Some (goto_w t W_Done s)"
| "withdrawal W_Done t s = None"

fun account_main :: "account_main_pc \<Rightarrow> account_state \<Rightarrow> account_state option" where
  "account_main A_Init s =
     Some (s\<lparr>total_money := 1000, a_out := a_out s @ total_line 1000, amain := A_Create1\<rparr>)"
| "account_main A_Create1 s = Some (goto_w Thread1 W_Start (s\<lparr>amain := A_Create2\<rparr>))"
| "account_main A_Create2 s = Some (goto_w Thread2 W_Start (s\<lparr>amain := A_Join1\<rparr>))"
| "account_main A_Join1 s =
     (if wpc s Thread1 = W_None then Some (s\<lparr>amain := A_Undefined\<rparr>)
      else if wpc s Thread1 = W_Done then Some (s\<lparr>amain := A_Join2\<rparr>) else None)"
| "account_main A_Join2 s =
     (if wpc s Thread2 = W_None then Some (s\<lparr>amain := A_Undefined\<rparr>)
      else if wpc s Thread2 = W_Done then Some (s\<lparr>amain := A_Print\<rparr>) else None)"
| "account_main A_Print s =
     Some (s\<lparr>a_out := a_out s @ balance_line (total_money s), amain := A_Return\<rparr>)"
| "account_main A_Return s = Some (s\<lparr>amain := A_Exited\<rparr>)"
| "account_main A_Exited s = None"
| "account_main A_Undefined s = None"

definition account_over :: "account_state \<Rightarrow> bool" where
  "account_over s \<longleftrightarrow> amain s = A_Exited \<or> amain s = A_Undefined"

text \<open>
  Once \<open>main\<close> has returned, the process is gone and no thread moves. A failing \<open>pthread_create\<close> makes
  no thread.
\<close>

fun account_step :: "account_actor \<Rightarrow> account_state \<Rightarrow> account_state option" where
  "account_step Account_Main s = account_main (amain s) s"
| "account_step (Withdraw t) s =
     (if account_over s then None else withdrawal (wpc s t) t s)"
| "account_step Create_Fails s =
     (if amain s = A_Create1 then Some (s\<lparr>amain := A_Create2\<rparr>)
      else if amain s = A_Create2 then Some (s\<lparr>amain := A_Join1\<rparr>) else None)"

section \<open>The mutex protects the critical section\<close>

fun critical_pc :: "withdrawal_pc \<Rightarrow> bool" where
  "critical_pc W_None = False"
| "critical_pc W_Start = False"
| "critical_pc W_Lock = False"
| "critical_pc W_Exit = False"
| "critical_pc W_Done = False"
| "critical_pc _ = True"

definition in_critical :: "account_thread \<Rightarrow> account_state \<Rightarrow> bool" where
  "in_critical t s \<longleftrightarrow> critical_pc (wpc s t)"

fun account_mover :: "account_actor \<Rightarrow> account_thread option" where
  "account_mover Account_Main = None"
| "account_mover (Withdraw t) = Some t"
| "account_mover Create_Fails = None"

lemma account_thread_all: "(\<forall>t. P t) \<longleftrightarrow> P Thread1 \<and> P Thread2"
  by (metis account_thread.exhaust)

text \<open>Where \<open>main\<close> is fixes which threads exist and which have ended.\<close>

definition created :: "account_main_pc \<Rightarrow> account_thread \<Rightarrow> bool" where
  "created m t \<longleftrightarrow> (case t of
     Thread1 \<Rightarrow> m \<noteq> A_Init \<and> m \<noteq> A_Create1
   | Thread2 \<Rightarrow> m \<noteq> A_Init \<and> m \<noteq> A_Create1 \<and> m \<noteq> A_Create2)"

definition joined :: "account_main_pc \<Rightarrow> account_thread \<Rightarrow> bool" where
  "joined m t \<longleftrightarrow> (case t of
     Thread1 \<Rightarrow> m = A_Join2 \<or> m = A_Print \<or> m = A_Return \<or> m = A_Exited
   | Thread2 \<Rightarrow> m = A_Print \<or> m = A_Return \<or> m = A_Exited)"

definition control_at :: "account_state \<Rightarrow> account_thread \<Rightarrow> bool" where
  "control_at s t \<longleftrightarrow> (wpc s t \<noteq> W_None \<longrightarrow> created (amain s) t) \<and>
     (joined (amain s) t \<longrightarrow> wpc s t = W_Done) \<and>
     (wpc s t = W_None \<or> wpc s t = W_Start \<or> money s t = money_arg t)"

definition owner_at :: "account_state \<Rightarrow> account_thread \<Rightarrow> bool" where
  "owner_at s t \<longleftrightarrow> (mutex s = Some t) = in_critical t s"

lemma withdrawal_frame: "withdrawal (wpc s t) t s = Some s' \<Longrightarrow> u \<noteq> t \<Longrightarrow> wpc s' u = wpc s u"
  by (cases "wpc s t") (auto simp: goto_w_def split: if_splits)

lemma withdrawal_main_pc: "withdrawal (wpc s t) t s = Some s' \<Longrightarrow> amain s' = amain s"
  by (cases "wpc s t") (auto simp: goto_w_def split: if_splits)

lemma control_at_thread:
  assumes st: "withdrawal (wpc s t) t s = Some s'" and "control_at s u" and "control_at s t"
  shows "control_at s' u"
  using assms
  by (cases "u = t"; cases "wpc s t") (auto simp: goto_w_def control_at_def split: if_splits)

lemma control_at_main:
  assumes st: "account_main (amain s) s = Some s'" and "control_at s u"
  shows "control_at s' u"
  using assms
  by (cases u; cases "amain s")
    (auto simp: goto_w_def control_at_def created_def joined_def split: if_splits)

lemma owner_at_thread:
  assumes st: "withdrawal (wpc s t) t s = Some s'" and "owner_at s u" and "owner_at s t"
  shows "owner_at s' u"
  using assms
  by (cases "u = t"; cases "wpc s t")
    (auto simp: goto_w_def owner_at_def in_critical_def split: if_splits)

lemma owner_at_main:
  assumes st: "account_main (amain s) s = Some s'" and "owner_at s u" and "control_at s u"
  shows "owner_at s' u"
  using assms
  by (cases u; cases "amain s")
    (auto simp: goto_w_def owner_at_def in_critical_def control_at_def created_def
      split: if_splits)

definition account_ctl :: "account_state \<Rightarrow> bool" where
  "account_ctl s \<longleftrightarrow> (\<forall>t. control_at s t) \<and> (\<forall>t. owner_at s t)"

lemma account_ctl_init: "account_ctl account_init"
  by (auto simp: account_ctl_def control_at_def owner_at_def in_critical_def account_init_def
      created_def joined_def split: account_thread.splits)

lemma account_step_cases:
  assumes "account_step a s = Some s'"
  obtains (main) "a = Account_Main" "account_main (amain s) s = Some s'"
    | (thread) t where "a = Withdraw t" "\<not> account_over s" "withdrawal (wpc s t) t s = Some s'"
    | (fails) p where "a = Create_Fails" "s' = s\<lparr>amain := p\<rparr>" "amain s = A_Create1 \<and> p = A_Create2 \<or> amain s = A_Create2 \<and> p = A_Join1"
  using assms by (cases a) (auto split: if_splits)

interpretation account_control: inductive_invariant account_step account_init account_ctl
proof unfold_locales
  show "account_ctl account_init" by (rule account_ctl_init)
next
  fix s a s'
  assume inv: "account_ctl s" and "account_step a s = Some s'"
  from this(2) show "account_ctl s'"
  proof (cases rule: account_step_cases)
    case main
    with inv show ?thesis
      unfolding account_ctl_def using control_at_main owner_at_main by blast
  next
    case thread
    with inv show ?thesis
      unfolding account_ctl_def using control_at_thread owner_at_thread by blast
  next
    case (fails p)
    with inv have "control_at s' t" "owner_at s' t" for t
      by (cases t; auto simp: account_ctl_def control_at_def owner_at_def in_critical_def created_def joined_def)+
    then show ?thesis by (simp add: account_ctl_def)
  qed
qed

lemma critical_main:
  assumes "account_main (amain s) s = Some s'" and "control_at s i"
  shows "in_critical i s' = in_critical i s" and "mutex s' = mutex s"
  using assms
  by (cases "amain s"; cases i; auto simp: in_critical_def control_at_def created_def goto_w_def split: if_splits)+

lemma critical_thread:
  assumes "withdrawal (wpc s t) t s = Some s'"
  shows "i \<noteq> t \<Longrightarrow> in_critical i s' = in_critical i s"
    and "in_critical t s' = in_critical t s \<Longrightarrow> mutex s' = mutex s"
    and "\<not> in_critical t s \<Longrightarrow> in_critical t s' \<Longrightarrow> mutex s = None \<and> mutex s' = Some t"
    and "in_critical t s \<Longrightarrow> \<not> in_critical t s' \<Longrightarrow> mutex s' = None"
  using assms by (cases "wpc s t"; auto simp: in_critical_def goto_w_def split: if_splits)+

interpretation account_lock: lock_protocol account_step account_init account_mover
  in_critical "\<lambda>s. mutex s = None"
proof unfold_locales
  show "mutex account_init = None" by (simp add: account_init_def)
  show "\<not> in_critical i account_init" for i
    by (simp add: account_init_def in_critical_def)
next
  fix s a s' i
  assume r: "reach account_step account_init s" and st: "account_step a s = Some s'"
    and ne: "account_mover a \<noteq> Some i"
  have ctl: "control_at s i" using account_control.inv_reach [OF r] by (simp add: account_ctl_def)
  from st show "in_critical i s' = in_critical i s"
    by (cases rule: account_step_cases) (use ne ctl critical_main(1) critical_thread(1) in \<open>auto simp: in_critical_def\<close>)
next
  fix s a s' i
  assume "account_step a s = Some s'" and "account_mover a = Some i"
    and "\<not> in_critical i s" and "in_critical i s'"
  then show "mutex s = None \<and> mutex s' \<noteq> None"
    by (cases rule: account_step_cases) (auto dest: critical_thread(3))
next
  fix s a s' i
  assume "account_step a s = Some s'" and "account_mover a = Some i"
    and "in_critical i s" and "\<not> in_critical i s'"
  then show "mutex s' = None"
    by (cases rule: account_step_cases) (auto dest: critical_thread(4))
next
  fix s a s'
  assume r: "reach account_step account_init s" and st: "account_step a s = Some s'"
    and same: "\<And>i. account_mover a = Some i \<Longrightarrow> in_critical i s' = in_critical i s"
  have ctl: "control_at s i" for i using account_control.inv_reach [OF r] by (simp add: account_ctl_def)
  from st show "(mutex s' = None) = (mutex s = None)"
    by (cases rule: account_step_cases) (use same ctl critical_main(2) critical_thread(2) in auto)
qed

section \<open>What a thread does in its section\<close>

text \<open>
  What a thread at a given point has taken from the total and written to stdout, and the value a
  pending store holds: the current total less the thread's amount.
\<close>

fun withdrawn :: "withdrawal_pc \<Rightarrow> int \<Rightarrow> int" where
  "withdrawn W_Sleep m = m"
| "withdrawn W_Finish m = m"
| "withdrawn W_Unlock m = m"
| "withdrawn W_Exit m = m"
| "withdrawn W_Done m = m"
| "withdrawn _ m = 0"

fun written :: "withdrawal_pc \<Rightarrow> int \<Rightarrow> string" where
  "written W_Load m = withdraw_line m"
| "written (W_Store _) m = withdraw_line m"
| "written W_Sleep m = withdraw_line m"
| "written W_Finish m = withdraw_line m"
| "written W_Unlock m = withdraw_line m @ finish_line m"
| "written W_Exit m = withdraw_line m @ finish_line m"
| "written W_Done m = withdraw_line m @ finish_line m"
| "written _ m = []"

definition store_at :: "account_state \<Rightarrow> account_thread \<Rightarrow> bool" where
  "store_at s t \<longleftrightarrow> (\<forall>v. wpc s t = W_Store v \<longrightarrow> v = total_money s - money_arg t)"

lemma critical_not_both:
  "owner_at s t \<Longrightarrow> owner_at s u \<Longrightarrow> t \<noteq> u \<Longrightarrow> critical_pc (wpc s t) \<Longrightarrow> \<not> critical_pc (wpc s u)"
  by (auto simp: owner_at_def in_critical_def)

lemma store_at_thread:
  assumes st: "withdrawal (wpc s t) t s = Some s'" and "store_at s u" and "control_at s t"
    and ow: "owner_at s t" "owner_at s u"
  shows "store_at s' u"
proof (cases "u = t")
  case True
  with assms show ?thesis
    by (cases "wpc s t") (auto simp: goto_w_def store_at_def control_at_def split: if_splits)
next
  case False
  show ?thesis
  proof (cases "critical_pc (wpc s t)")
    case True
    with critical_not_both [OF ow] False have "\<not> critical_pc (wpc s u)" by blast
    with withdrawal_frame [OF st False] show ?thesis by (auto simp: store_at_def)
  next
    case nc: False
    with st False \<open>store_at s u\<close> show ?thesis
      by (cases "wpc s t") (auto simp: goto_w_def store_at_def split: if_splits)
  qed
qed

lemma store_at_main:
  assumes "account_main (amain s) s = Some s'" and "store_at s u" and "control_at s u"
  shows "store_at s' u"
  using assms
  by (cases u; cases "amain s")
    (auto simp: goto_w_def store_at_def control_at_def created_def split: if_splits)

definition other_thread :: "account_thread \<Rightarrow> account_thread" where
  "other_thread t = (case t of Thread1 \<Rightarrow> Thread2 | Thread2 \<Rightarrow> Thread1)"

lemma other_thread_neq [simp]: "other_thread t \<noteq> t" "t \<noteq> other_thread t"
  by (cases t; simp add: other_thread_def)+

definition account_inv :: "account_state \<Rightarrow> bool" where
  "account_inv s \<longleftrightarrow> account_ctl s \<and> (\<forall>t. store_at s t)"

lemma account_inv_init: "account_inv account_init"
  using account_ctl_init by (simp add: account_inv_def store_at_def account_init_def)

lemma account_inv_step:
  assumes inv: "account_inv s" and st: "account_step a s = Some s'" shows "account_inv s'"
proof -
  have ctl': "account_ctl s'"
    using account_control.inv_step inv st unfolding account_inv_def by blast
  have c: "control_at s t" "owner_at s t" "store_at s t" for t
    using inv by (auto simp: account_inv_def account_ctl_def)
  from st have "store_at s' u" for u
  proof (cases rule: account_step_cases)
    case main
    with c show ?thesis using store_at_main by blast
  next
    case (thread t)
    with c show ?thesis using store_at_thread by blast
  next
    case fails
    with c [of u] show ?thesis by (simp add: store_at_def)
  qed
  with ctl' show ?thesis by (simp add: account_inv_def)
qed

section \<open>Every fair run ends\<close>

fun withdrawal_rank :: "withdrawal_pc \<Rightarrow> nat" where
  "withdrawal_rank W_None = 10"
| "withdrawal_rank W_Start = 9"
| "withdrawal_rank W_Lock = 8"
| "withdrawal_rank W_Print = 7"
| "withdrawal_rank W_Load = 6"
| "withdrawal_rank (W_Store _) = 5"
| "withdrawal_rank W_Sleep = 4"
| "withdrawal_rank W_Finish = 3"
| "withdrawal_rank W_Unlock = 2"
| "withdrawal_rank W_Exit = 1"
| "withdrawal_rank W_Done = 0"

fun account_main_rank :: "account_main_pc \<Rightarrow> nat" where
  "account_main_rank A_Init = 7"
| "account_main_rank A_Create1 = 6"
| "account_main_rank A_Create2 = 5"
| "account_main_rank A_Join1 = 4"
| "account_main_rank A_Join2 = 3"
| "account_main_rank A_Print = 2"
| "account_main_rank A_Return = 1"
| "account_main_rank A_Exited = 0"
| "account_main_rank A_Undefined = 0"

definition account_measure :: "account_state \<Rightarrow> nat" where
  "account_measure s = account_main_rank (amain s)
     + withdrawal_rank (wpc s Thread1) + withdrawal_rank (wpc s Thread2)"

definition account_actors :: "account_actor set" where
  "account_actors = {Account_Main, Withdraw Thread1, Withdraw Thread2}"

lemma withdrawal_rank_down:
  "withdrawal (wpc s t) t s = Some s' \<Longrightarrow> withdrawal_rank (wpc s' t) < withdrawal_rank (wpc s t)"
  by (cases "wpc s t") (auto simp: goto_w_def split: if_splits)

lemma account_measure_down:
  assumes ctl: "account_ctl s" and "account_step a s = Some s'"
  shows "account_measure s' < account_measure s"
  using assms(2)
proof (cases rule: account_step_cases)
  case main
  with ctl show ?thesis
    by (cases "amain s")
      (auto simp: account_measure_def goto_w_def account_ctl_def control_at_def created_def
        account_thread_all split: if_splits)
next
  case (thread t)
  have "wpc s' (other_thread t) = wpc s (other_thread t)"
    using withdrawal_frame [OF thread(3)] by simp
  with withdrawal_rank_down [OF thread(3)] withdrawal_main_pc [OF thread(3)]
  show ?thesis by (cases t) (auto simp: account_measure_def other_thread_def)
next
  case fails
  then show ?thesis by (auto simp: account_measure_def)
qed

text \<open>No deadlock: a thread that waits for the mutex waits for a thread that can move.\<close>

lemma withdrawal_moves:
  assumes "wpc s t \<noteq> W_None" and "wpc s t \<noteq> W_Done" and "wpc s t = W_Lock \<Longrightarrow> mutex s = None"
  shows "withdrawal (wpc s t) t s \<noteq> None"
  using assms by (cases "wpc s t") auto

lemma waiting_has_mover:
  assumes ctl: "account_ctl s" and "wpc s t \<noteq> W_None" and "wpc s t \<noteq> W_Done"
  shows "\<exists>u. withdrawal (wpc s u) u s \<noteq> None"
proof (cases "mutex s")
  case None
  with assms withdrawal_moves show ?thesis by blast
next
  case (Some u)
  with ctl have "critical_pc (wpc s u)"
    unfolding account_ctl_def owner_at_def in_critical_def by blast
  then have "withdrawal (wpc s u) u s \<noteq> None" by (cases "wpc s u") auto
  then show ?thesis by blast
qed

lemma account_some_move:
  assumes ctl: "account_ctl s" and live: "\<not> account_over s"
  shows "\<exists>a\<in>account_actors. account_step a s \<noteq> None"
proof (cases "account_main (amain s) s")
  case None
  with live obtain t where t: "(amain s = A_Join1 \<and> t = Thread1) \<or> (amain s = A_Join2 \<and> t = Thread2)"
    and "wpc s t \<noteq> W_Done" "wpc s t \<noteq> W_None"
    by (cases "amain s") (auto simp: account_over_def split: if_splits)
  then obtain u where "withdrawal (wpc s u) u s \<noteq> None"
    using waiting_has_mover [OF ctl] by blast
  with live have "account_step (Withdraw u) s \<noteq> None" by simp
  moreover have "Withdraw u \<in> account_actors" by (cases u) (auto simp: account_actors_def)
  ultimately show ?thesis by blast
next
  case (Some s')
  then have "account_step Account_Main s \<noteq> None" by simp
  moreover have "Account_Main \<in> account_actors" by (simp add: account_actors_def)
  ultimately show ?thesis by blast
qed

interpretation account_ends: strict_termination account_step account_init account_actors
  account_measure account_over
proof unfold_locales
  fix s a s'
  assume "reach account_step account_init s" and "account_step a s = Some s'"
  then show "account_measure s' < account_measure s"
    using account_measure_down account_control.inv_reach by blast
next
  fix s a
  assume "reach account_step account_init s" and "account_over s"
  then show "account_step a s = None" by (cases a) (auto simp: account_over_def)
next
  fix s
  assume "reach account_step account_init s" and "\<not> account_over s"
  then show "\<exists>a\<in>account_actors. account_step a s \<noteq> None"
    using account_some_move account_control.inv_reach by blast
qed

text \<open>The end is undefined only where a creation has failed.\<close>

definition all_created :: "account_state \<Rightarrow> bool" where
  "all_created s \<longleftrightarrow> (\<forall>t. created (amain s) t \<longrightarrow> wpc s t \<noteq> W_None) \<and> amain s \<noteq> A_Undefined"

lemma all_created_step:
  assumes "all_created s" and "account_step a s = Some s'" and "a \<noteq> Create_Fails" shows "all_created s'"
  using assms(2)
proof (cases rule: account_step_cases)
  case main
  with assms(1) show ?thesis
    by (cases "amain s") (auto simp: all_created_def created_def goto_w_def split: account_thread.splits if_splits)
next
  case (thread t)
  have "wpc s' t \<noteq> W_None" using thread(3) by (cases "wpc s t") (auto simp: goto_w_def split: if_splits)
  then have "wpc s u \<noteq> W_None \<Longrightarrow> wpc s' u \<noteq> W_None" for u
    using withdrawal_frame [OF thread(3), of u] by (cases "u = t") simp_all
  with assms(1) withdrawal_main_pc [OF thread(3)] show ?thesis by (simp add: all_created_def)
qed (use assms(3) in simp)

lemma all_created_run:
  "all_created s \<Longrightarrow> Create_Fails \<notin> set as \<Longrightarrow> all_created (run_schedule account_step as s)"
  by (rule run_schedule_keeps) (auto intro: all_created_step)

section \<open>Properties\<close>

definition account_round_robin :: "account_actor list" where
  "account_round_robin = [Account_Main, Withdraw Thread1, Withdraw Thread2]"

definition account_example_run :: "account_state" where
  "account_example_run =
     run_schedule account_step (concat (replicate 28 account_round_robin)) account_init"

text \<open>At no point of any run are both threads between lock and unlock.\<close>
theorem account_exclusion:
  assumes "reach account_step account_init s" and "in_critical t s" and "in_critical u s"
  shows "t = u"
  using assms by (rule account_lock.exclusive)

definition account_critical_run :: "account_state" where
  "account_critical_run = run_schedule account_step
     (concat (replicate 3 account_round_robin) @ [Withdraw Thread1, Withdraw Thread2]) account_init"

theorem account_exclusion_witness:
  "in_critical Thread1 account_critical_run \<and> \<not> in_critical Thread2 account_critical_run"
proof -
  have r: "reach account_step account_init account_critical_run"
    unfolding account_critical_run_def by (rule reach_run_schedule [OF reach_init])
  have c: "in_critical Thread1 account_critical_run" by code_simp
  from account_exclusion [OF r c] c show ?thesis by blast
qed

text \<open>
  C20: there is no deadlock and no livelock: 28 rounds, in each of which \<open>main\<close> and both
  threads are picked at least once in any order, always bring the program to its end: \<open>main\<close>
  returns, or, only where a creation of a thread has failed, it joins a thread that does not exist.
\<close>
theorem account_terminates:
  assumes "\<forall>r\<in>set rounds. account_actors \<subseteq> set r" and "28 \<le> length rounds"
    and "s = run_schedule account_step (concat rounds) account_init"
  shows "amain s = A_Exited \<or> amain s = A_Undefined \<and> Create_Fails \<in> set (concat rounds)"
proof -
  have "account_measure account_init = 27" by (simp add: account_measure_def account_init_def)
  with assms(2) have "account_over s" unfolding assms(3)
    by (intro account_ends.fair_rounds_finish [OF reach_init assms(1)]) simp
  moreover have "all_created account_init" by (auto simp: all_created_def account_init_def created_def split: account_thread.splits)
  then have "Create_Fails \<notin> set (concat rounds) \<Longrightarrow> amain s \<noteq> A_Undefined"
    using all_created_run assms(3) by (simp add: all_created_def)
  ultimately show ?thesis by (auto simp: account_over_def)
qed

theorem account_terminates_witness:
  "amain (run_schedule account_step (concat (replicate 28 account_round_robin)) account_init)
     = A_Exited"
  using account_terminates [of "replicate 28 account_round_robin", OF _ _ refl]
  by (auto simp: account_actors_def account_round_robin_def)

end
