(* ===== verification/Atomic_Account.thy ===== *)
theory Atomic_Account
  imports Bank_Account
begin

text \<open>
  The specification of \<open>pthread_example.c\<close> as an account with atomic withdrawals, the simulation that
  shows that the program refines it, and what follows for the program's result.
\<close>

section \<open>The specification\<close>

text \<open>
  The program without threads, mutex and partial work: an account that is opened, from which each
  of the two amounts is withdrawn once in one step, in any order, and that is reported when both
  are gone. Seen from outside the critical section, every run is a run of this specification.
\<close>

datatype account_stage = Closed | Open "account_thread set" | Reported

record account_spec =
  balance :: int
  printed :: string
  stage :: account_stage

definition unopened :: account_spec where
  "unopened = \<lparr>balance = 0, printed = [], stage = Closed\<rparr>"

inductive atomic_account :: "account_spec \<Rightarrow> account_spec \<Rightarrow> bool" where
  opens: "stage v = Closed \<Longrightarrow>
    atomic_account v \<lparr>balance = 1000, printed = printed v @ total_line 1000, stage = Open {}\<rparr>"
| withdraws: "stage v = Open T \<Longrightarrow> t \<notin> T \<Longrightarrow>
    atomic_account v \<lparr>balance = balance v - money_arg t,
      printed = printed v @ withdraw_line (money_arg t) @ finish_line (money_arg t), stage = Open (insert t T)\<rparr>"
| reports: "stage v = Open UNIV \<Longrightarrow>
    atomic_account v \<lparr>balance = balance v, printed = printed v @ balance_line (balance v), stage = Reported\<rparr>"

section \<open>The account as seen from outside\<close>

text \<open>
  The thread in the critical section may have changed the total and printed a line or two: the
  view takes both back until it unlocks.
\<close>

fun unlocked :: "withdrawal_pc \<Rightarrow> bool" where
  "unlocked W_Exit = True" | "unlocked W_Done = True" | "unlocked _ = False"

definition taken :: "account_state \<Rightarrow> int" where
  "taken s = (case mutex s of None \<Rightarrow> 0 | Some t \<Rightarrow> withdrawn (wpc s t) (money_arg t))"

definition unfinished :: "account_state \<Rightarrow> string" where
  "unfinished s = (case mutex s of None \<Rightarrow> [] | Some t \<Rightarrow> written (wpc s t) (money_arg t))"

definition view_stage :: "account_state \<Rightarrow> account_stage" where
  "view_stage s = (if amain s = A_Init then Closed
     else if amain s = A_Return \<or> amain s = A_Exited then Reported else Open {t. unlocked (wpc s t)})"

definition account_view :: "account_state \<Rightarrow> account_spec" where
  "account_view s = \<lparr>balance = total_money s + taken s,
     printed = take (length (a_out s) - length (unfinished s)) (a_out s), stage = view_stage s\<rparr>"

definition ends_unfinished :: "account_state \<Rightarrow> bool" where
  "ends_unfinished s \<longleftrightarrow> (\<exists>pre. a_out s = pre @ unfinished s)"

lemma account_view_printed: "a_out s = pre @ unfinished s \<Longrightarrow> printed (account_view s) = pre"
  by (simp add: account_view_def)

text \<open>Two states look alike when the same work is done and hidden in both.\<close>

lemma account_view_eqI:
  assumes "a_out s = pre @ unfinished s" and "a_out s' = pre @ unfinished s'"
    and "total_money s' + taken s' = total_money s + taken s" and "view_stage s' = view_stage s"
  shows "account_view s' = account_view s \<and> ends_unfinished s'"
  using assms by (auto simp: account_view_def ends_unfinished_def)

lemma owner_wpc: "owner_at s t \<Longrightarrow> mutex s = Some t \<longleftrightarrow> critical_pc (wpc s t)"
  by (simp add: owner_at_def in_critical_def)

text \<open>A move of a thread outside its critical section, where nothing changes but its place.\<close>

lemma account_quiet:
  assumes "mutex s \<noteq> Some t" and "mutex s' = mutex s" and "\<And>u. u \<noteq> t \<Longrightarrow> wpc s' u = wpc s u"
    and "unlocked (wpc s' t) = unlocked (wpc s t)" and "a_out s' = a_out s" and "total_money s' = total_money s"
    and "amain s' = amain s" and "ends_unfinished s"
  shows "account_view s' = account_view s \<and> ends_unfinished s'"
proof -
  have "unfinished s' = unfinished s" "taken s' = taken s"
    using assms(1,2,3) by (auto simp: unfinished_def taken_def split: option.splits)
  moreover have "unlocked (wpc s' u) = unlocked (wpc s u)" for u using assms(3,4) by (cases "u = t") simp_all
  then have "view_stage s' = view_stage s" using assms(7) by (simp add: view_stage_def)
  ultimately show ?thesis using assms(5,6,8) by (simp add: account_view_def ends_unfinished_def)
qed

text \<open>A move inside the critical section: the printed text and the total change with what is hidden.\<close>

lemma account_hidden:
  assumes "mutex s = Some t" and "mutex s' = Some t" and "\<And>u. u \<noteq> t \<Longrightarrow> wpc s' u = wpc s u"
    and "a_out s' = a_out s @ x" and "written (wpc s' t) (money_arg t) = written (wpc s t) (money_arg t) @ x"
    and "total_money s' + withdrawn (wpc s' t) (money_arg t) = total_money s + withdrawn (wpc s t) (money_arg t)"
    and "\<not> unlocked (wpc s t)" "\<not> unlocked (wpc s' t)" and "amain s' = amain s" and "ends_unfinished s"
  shows "account_view s' = account_view s \<and> ends_unfinished s'"
proof -
  obtain pre where "a_out s = pre @ unfinished s" using assms(10) by (auto simp: ends_unfinished_def)
  then show ?thesis
  proof (rule account_view_eqI)
    show "a_out s' = pre @ unfinished s'" "total_money s' + taken s' = total_money s + taken s"
      using \<open>a_out s = pre @ unfinished s\<close> assms(1,2,4,5,6) by (simp_all add: unfinished_def taken_def)
    have "unlocked (wpc s' u) = unlocked (wpc s u)" for u using assms(3,7,8) by (cases "u = t") simp_all
    then show "view_stage s' = view_stage s" using assms(9) by (simp add: view_stage_def)
  qed
qed

lemma account_unlocks:
  assumes "wpc s t = W_Unlock" and "mutex s = Some t" and "ends_unfinished s" and "view_stage s = Open {u. unlocked (wpc s u)}"
    and s': "s' = goto_w t W_Exit (s\<lparr>mutex := None\<rparr>)"
  shows "atomic_account (account_view s) (account_view s') \<and> ends_unfinished s'"
proof -
  obtain pre where pre: "a_out s = pre @ unfinished s" using assms(3) by (auto simp: ends_unfinished_def)
  have u: "unfinished s = withdraw_line (money_arg t) @ finish_line (money_arg t)" "taken s = money_arg t"
    using assms(1,2) by (simp_all add: unfinished_def taken_def)
  have u': "unfinished s' = []" "taken s' = 0" by (simp_all add: s' goto_w_def unfinished_def taken_def)
  have st: "view_stage s' = Open (insert t {u. unlocked (wpc s u)})"
    using assms(4) by (auto simp: s' view_stage_def goto_w_def split: if_splits)
  have "account_view s' = \<lparr>balance = balance (account_view s) - money_arg t,
      printed = printed (account_view s) @ withdraw_line (money_arg t) @ finish_line (money_arg t),
      stage = Open (insert t {u. unlocked (wpc s u)})\<rparr>"
    using pre u u' st by (simp add: account_view_def s' goto_w_def)
  moreover have "stage (account_view s) = Open {u. unlocked (wpc s u)}" using assms(4) by (simp add: account_view_def)
  then have "atomic_account (account_view s) \<lparr>balance = balance (account_view s) - money_arg t,
      printed = printed (account_view s) @ withdraw_line (money_arg t) @ finish_line (money_arg t),
      stage = Open (insert t {u. unlocked (wpc s u)})\<rparr>"
    by (rule withdraws) (simp add: assms(1))
  ultimately show ?thesis using u' by (simp add: ends_unfinished_def)
qed

text \<open>Between the first line and the unlock nothing can be seen.\<close>

lemma section_hidden:
  assumes inv: "account_inv s" and e: "ends_unfinished s" and st: "withdrawal (wpc s t) t s = Some s'"
    and cr: "critical_pc (wpc s t)" and nu: "wpc s t \<noteq> W_Unlock"
  shows "account_view s' = account_view s \<and> ends_unfinished s'"
proof -
  have c: "control_at s t" and o: "mutex s = Some t" and sto: "store_at s t"
    using inv cr owner_wpc by (auto simp: account_inv_def account_ctl_def)
  have "money s t = money_arg t" using c cr by (auto simp: control_at_def)
  note hidden = account_hidden [of s t s', OF o _ withdrawal_frame [OF st] _ _ _ _ _ withdrawal_main_pc [OF st] e]
  show ?thesis
  proof (cases "wpc s t")
    case W_Print
    then have "s' = goto_w t W_Load (s\<lparr>a_out := a_out s @ withdraw_line (money s t)\<rparr>)" using st by simp
    with W_Print o hidden [of "withdraw_line (money_arg t)"] \<open>money s t = _\<close> show ?thesis by (simp add: goto_w_def)
  next
    case W_Load
    then have "s' = goto_w t (W_Store (total_money s - money s t)) s" using st by simp
    with W_Load o hidden [of "[]"] show ?thesis by (simp add: goto_w_def)
  next
    case (W_Store v)
    then have "v = total_money s - money_arg t" "s' = goto_w t W_Sleep (s\<lparr>total_money := v\<rparr>)"
      using sto st by (simp_all add: store_at_def)
    with W_Store o hidden [of "[]"] show ?thesis by (simp add: goto_w_def)
  next
    case W_Sleep
    then have "s' = goto_w t W_Finish s" using st by simp
    with W_Sleep o hidden [of "[]"] show ?thesis by (simp add: goto_w_def)
  next
    case W_Finish
    then have "s' = goto_w t W_Unlock (s\<lparr>a_out := a_out s @ finish_line (money s t)\<rparr>)" using st by simp
    with W_Finish o hidden [of "finish_line (money_arg t)"] \<open>money s t = _\<close> show ?thesis by (simp add: goto_w_def)
  qed (use cr nu in simp_all)
qed

lemma thread_simulates:
  assumes inv: "account_inv s" and e: "ends_unfinished s" and st: "withdrawal (wpc s t) t s = Some s'"
  shows "(account_view s' = account_view s \<or> atomic_account (account_view s) (account_view s')) \<and> ends_unfinished s'"
proof -
  have c: "control_at s t" and o: "mutex s = Some t \<longleftrightarrow> critical_pc (wpc s t)"
    using inv owner_wpc by (auto simp: account_inv_def account_ctl_def)
  note quiet = account_quiet [of s t s', OF _ _ withdrawal_frame [OF st] _ _ _ withdrawal_main_pc [OF st] e]
  consider (inside) "critical_pc (wpc s t)" "wpc s t \<noteq> W_Unlock" | (unlocks) "wpc s t = W_Unlock"
    | (outside) "wpc s t = W_Start \<or> wpc s t = W_Exit" | (locks) "wpc s t = W_Lock"
    using st by (cases "wpc s t") simp_all
  then show ?thesis
  proof cases
    case inside
    with section_hidden [OF inv e st] show ?thesis by blast
  next
    case unlocks
    then have "\<not> joined (amain s) t" "created (amain s) t" using c by (auto simp: control_at_def)
    then have "view_stage s = Open {u. unlocked (wpc s u)}"
      by (cases t; cases "amain s") (simp_all add: view_stage_def joined_def created_def)
    with unlocks account_unlocks [OF unlocks _ e] st o show ?thesis by simp
  next
    case outside
    then have "unlocked (wpc s' t) = unlocked (wpc s t)" "mutex s' = mutex s" "a_out s' = a_out s" "total_money s' = total_money s"
      using st by (auto simp: goto_w_def)
    moreover have "mutex s \<noteq> Some t" using outside o by auto
    ultimately have "account_view s' = account_view s \<and> ends_unfinished s'" by (intro quiet)
    then show ?thesis by blast
  next
    case locks
    then have m: "mutex s = None" and s': "s' = goto_w t W_Print (s\<lparr>mutex := Some t\<rparr>)" using st by (auto split: if_splits)
    have "view_stage s' = view_stage s" using locks by (auto simp: s' view_stage_def goto_w_def)
    with m have "account_view s' = account_view s" "unfinished s' = []"
      by (simp_all add: s' account_view_def unfinished_def taken_def goto_w_def)
    then show ?thesis by (simp add: ends_unfinished_def)
  qed
qed

text \<open>The moves of \<open>main\<close> that do not touch the account.\<close>

lemma main_quiet:
  assumes "mutex s' = mutex s" and "\<And>t. mutex s = Some t \<Longrightarrow> wpc s' t = wpc s t" and "a_out s' = a_out s"
    and "total_money s' = total_money s" and "view_stage s' = view_stage s" and "ends_unfinished s"
  shows "account_view s' = account_view s \<and> ends_unfinished s'"
proof -
  have "unfinished s' = unfinished s" "taken s' = taken s"
    using assms(1,2) by (auto simp: unfinished_def taken_def split: option.splits)
  with assms show ?thesis by (simp add: account_view_def ends_unfinished_def)
qed

lemma main_creates:
  assumes "s' = goto_w t W_Start (s\<lparr>amain := p\<rparr>)" and "wpc s t = W_None" and "owner_at s t"
    and "amain s \<noteq> A_Init" "\<not> joined (amain s) Thread1" "\<not> joined p Thread1" "p \<noteq> A_Init" and "ends_unfinished s"
  shows "account_view s' = account_view s \<and> ends_unfinished s'"
proof (rule main_quiet [OF _ _ _ _ _ assms(8)])
  have "unlocked (wpc s' u) = unlocked (wpc s u)" for u using assms(1,2) by (cases "u = t") (simp_all add: goto_w_def)
  then show "view_stage s' = view_stage s"
    using assms(1,4-7) by (auto simp: view_stage_def joined_def goto_w_def)
  show "wpc s' u = wpc s u" if "mutex s = Some u" for u
    using that owner_wpc [OF assms(3)] assms(1,2) by (auto simp: goto_w_def)
qed (simp_all add: assms(1) goto_w_def)

lemma main_opens:
  assumes "amain s = A_Init" and "mutex s = None" and "\<And>t. wpc s t = W_None"
    and s': "s' = s\<lparr>total_money := 1000, a_out := a_out s @ total_line 1000, amain := A_Create1\<rparr>"
  shows "atomic_account (account_view s) (account_view s') \<and> ends_unfinished s'"
proof -
  have "account_view s' = \<lparr>balance = 1000, printed = printed (account_view s) @ total_line 1000, stage = Open {}\<rparr>"
    using assms(2,3) by (simp add: account_view_def taken_def unfinished_def view_stage_def s')
  moreover have "stage (account_view s) = Closed" using assms(1) by (simp add: account_view_def view_stage_def)
  ultimately show ?thesis using assms(2) opens [of "account_view s"] by (simp add: ends_unfinished_def unfinished_def s')
qed

lemma main_reports:
  assumes "amain s = A_Print" and "mutex s = None" and "\<And>t. wpc s t = W_Done"
    and s': "s' = s\<lparr>a_out := a_out s @ balance_line (total_money s), amain := A_Return\<rparr>"
  shows "atomic_account (account_view s) (account_view s') \<and> ends_unfinished s'"
proof -
  have "stage (account_view s) = Open UNIV" using assms(1,3) by (simp add: account_view_def view_stage_def)
  moreover have "account_view s' = \<lparr>balance = balance (account_view s),
      printed = printed (account_view s) @ balance_line (balance (account_view s)), stage = Reported\<rparr>"
    using assms(2) by (simp add: account_view_def taken_def unfinished_def view_stage_def s')
  ultimately show ?thesis using assms(2) reports [of "account_view s"] by (simp add: ends_unfinished_def unfinished_def s')
qed

lemma main_simulates:
  assumes inv: "account_inv s" and e: "ends_unfinished s" and st: "account_main (amain s) s = Some s'"
  shows "(account_view s' = account_view s \<or> atomic_account (account_view s) (account_view s')) \<and> ends_unfinished s'"
proof -
  have c: "control_at s t" and o: "owner_at s t" for t
    using inv by (simp_all add: account_inv_def account_ctl_def)
  have free: "mutex s = None" if "\<And>t. \<not> critical_pc (wpc s t)" using owner_wpc [OF o] that by (cases "mutex s") auto
  show ?thesis
  proof (cases "amain s")
    case A_Init
    then have none: "wpc s t = W_None" for t
      using c [of t] by (simp add: control_at_def created_def split: account_thread.splits)
    with main_opens [OF A_Init free] st A_Init show ?thesis by simp
  next
    case A_Create1
    then have "wpc s Thread1 = W_None" using c [of Thread1] by (simp add: control_at_def created_def)
    with A_Create1 st main_creates [OF _ _ o _ _ _ _ e, of s' Thread1 A_Create2] show ?thesis by (simp add: joined_def)
  next
    case A_Create2
    then have "wpc s Thread2 = W_None" using c [of Thread2] by (simp add: control_at_def created_def)
    with A_Create2 st main_creates [OF _ _ o _ _ _ _ e, of s' Thread2 A_Join1] show ?thesis by (simp add: joined_def)
  next
    case A_Print
    then have "wpc s t = W_Done" for t using c [of t] by (cases t) (simp_all add: control_at_def joined_def)
    with main_reports [OF A_Print free] st A_Print show ?thesis by simp
  qed (use st main_quiet [OF _ _ _ _ _ e, of s'] in \<open>auto simp: view_stage_def split: if_splits\<close>)
qed

definition account_all :: "account_state \<Rightarrow> bool" where
  "account_all s \<longleftrightarrow> account_inv s \<and> ends_unfinished s"

lemma account_simulates:
  assumes "account_all s" and "account_step a s = Some s'"
  shows "(account_view s' = account_view s \<or> atomic_account (account_view s) (account_view s')) \<and> ends_unfinished s'"
  using assms(2)
proof (cases rule: account_step_cases)
  case main
  with assms(1) show ?thesis unfolding account_all_def by (blast dest: main_simulates)
next
  case (thread t)
  with assms(1) show ?thesis unfolding account_all_def by (blast dest: thread_simulates)
next
  case (fails p)
  then have "view_stage s' = view_stage s" by (auto simp: view_stage_def)
  with fails assms(1) main_quiet [of s' s] show ?thesis by (simp add: account_all_def)
qed

interpretation account_refinement: simulation account_step account_init account_all atomic_account account_view
proof unfold_locales
  show "account_all account_init"
    using account_inv_init by (simp add: account_all_def ends_unfinished_def unfinished_def account_init_def)
next
  fix s a t
  assume "account_all s" and "account_step a s = Some t"
  then show "account_all t" using account_simulates account_inv_step unfolding account_all_def by blast
next
  fix s a t
  assume "account_all s" and "account_step a s = Some t"
  then show "account_view t = account_view s \<or> atomic_account (account_view s) (account_view t)"
    using account_simulates by blast
qed

lemma account_view_init [simp]: "account_view account_init = unopened"
  by (simp add: account_view_def account_init_def taken_def unfinished_def view_stage_def unopened_def)

section \<open>What the specification computes\<close>

definition both_lines :: "account_thread \<Rightarrow> string" where
  "both_lines t = withdraw_line (money_arg t) @ finish_line (money_arg t)"

text \<open>The withdrawals so far are some threads in some order, each of them once.\<close>

definition paid :: "account_thread list \<Rightarrow> account_spec \<Rightarrow> bool" where
  "paid ts v \<longleftrightarrow> distinct ts \<and> balance v = 1000 - sum_list (map money_arg ts) \<and>
     (case stage v of
        Closed \<Rightarrow> False
      | Open T \<Rightarrow> set ts = T \<and> printed v = total_line 1000 @ concat (map both_lines ts)
      | Reported \<Rightarrow> set ts = UNIV \<and> printed v = total_line 1000 @ concat (map both_lines ts) @ balance_line (balance v))"

definition accounted :: "account_spec \<Rightarrow> bool" where
  "accounted v \<longleftrightarrow> v = unopened \<or> (\<exists>ts. paid ts v)"

lemma accounted_step:
  assumes "accounted v" and "atomic_account v w" shows "accounted w"
  using assms(2)
proof (cases rule: atomic_account.cases)
  case opens
  with assms(1) have "printed v = []" by (auto simp: accounted_def unopened_def paid_def)
  with opens have "paid [] w" by (simp add: paid_def)
  then show ?thesis by (auto simp: accounted_def)
next
  case (withdraws T t)
  with assms(1) obtain ts where "paid ts v" by (auto simp: accounted_def unopened_def)
  with withdraws have "paid (ts @ [t]) w" by (auto simp: paid_def both_lines_def)
  then show ?thesis by (auto simp: accounted_def)
next
  case reports
  with assms(1) obtain ts where "paid ts v" by (auto simp: accounted_def unopened_def)
  with reports have "paid ts w" by (simp add: paid_def)
  then show ?thesis by (auto simp: accounted_def)
qed

lemma reach_accounted: "reach account_step account_init s \<Longrightarrow> accounted (account_view s)"
proof (rule account_refinement.spec_invariant)
  show "accounted (account_view account_init)" by (simp add: accounted_def)
qed (rule accounted_step)

lemma both_threads: "distinct ts \<Longrightarrow> set ts = UNIV \<Longrightarrow> ts = [Thread1, Thread2] \<or> ts = [Thread2, Thread1]"
  by (rule distinct_two) (simp_all add: account_threads)

definition full_output :: "account_thread \<Rightarrow> account_thread \<Rightarrow> string" where
  "full_output t u = total_line 1000
     @ (withdraw_line (money_arg t) @ finish_line (money_arg t))
     @ (withdraw_line (money_arg u) @ finish_line (money_arg u)) @ balance_line 700"

section \<open>Properties\<close>

text \<open>
  C16: whatever the scheduler does, once \<open>main\<close> has returned the balance is 700 (no update
  is lost) and stdout holds the header, the two lines of one thread, the two lines of the
  other thread, unmixed and in one of the two orders, and the final balance.
\<close>
theorem account_result:
  assumes "reach account_step account_init s" and "amain s = A_Exited"
  shows "total_money s = 700 \<and>
    (a_out s = full_output Thread1 Thread2 \<or> a_out s = full_output Thread2 Thread1)"
proof -
  have "wpc s t = W_Done" "owner_at s t" for t
    using account_control.inv_reach [OF assms(1)] assms(2)
    by (cases t; simp add: account_ctl_def control_at_def joined_def)+
  then have "mutex s = None" by (cases "mutex s") (auto simp: owner_wpc)
  then have v: "account_view s = \<lparr>balance = total_money s, printed = a_out s, stage = Reported\<rparr>"
    using assms(2) by (simp add: account_view_def taken_def unfinished_def view_stage_def)
  with reach_accounted [OF assms(1)] obtain ts where p: "paid ts (account_view s)"
    by (auto simp: accounted_def unopened_def)
  with v have "ts = [Thread1, Thread2] \<or> ts = [Thread2, Thread1]" by (intro both_threads) (simp_all add: paid_def)
  with p v show ?thesis by (auto simp: paid_def full_output_def both_lines_def money_arg_def)
qed

theorem account_result_witness:
  "amain account_example_run = A_Exited \<and> total_money account_example_run = 700"
proof -
  have r: "reach account_step account_init account_example_run"
    unfolding account_example_run_def by (rule reach_run_schedule [OF reach_init])
  have e: "amain account_example_run = A_Exited" by code_simp
  from e account_result [OF r e] show ?thesis by simp
qed

text \<open>
  C2: under every schedule the run, seen from outside the critical section and without the moves that
  cannot be seen from there, is a run of the specification: the account is opened, each amount is
  withdrawn at once, and the balance is reported. What the view hides is what the thread in the
  critical section has taken and printed so far.
\<close>
theorem account_refines:
  "spec_run atomic_account unopened (abstract_run account_view (run_states account_step as account_init)) \<and>
   (let s = run_schedule account_step as account_init in
      balance (account_view s) = total_money s + taken s \<and> a_out s = printed (account_view s) @ unfinished s)"
proof -
  let ?s = "run_schedule account_step as account_init"
  have "account_all ?s" by (rule account_refinement.inv_schedule)
  then obtain pre where pre: "a_out ?s = pre @ unfinished ?s" by (auto simp: account_all_def ends_unfinished_def)
  then have "a_out ?s = printed (account_view ?s) @ unfinished ?s" using account_view_printed by metis
  then show ?thesis using account_refinement.run_refines [of as] by (simp add: Let_def) (simp add: account_view_def)
qed

end
