(* ===== verification/Sysv_Semaphore.thy ===== *)
theory Sysv_Semaphore
  imports C_Library Interleaving
begin

text \<open>
  \<open>SysV/sem_example.c\<close>: two threads print the characters of a shared string in turn, one
  in upper and one in lower case, under a System V semaphore that the first argument turns
  on or off. \<open>shared_index++\<close> is two atomic moves, the read and the store, so that the run
  with the semaphore off races as the program does. A semop, semget, semctl or
  pthread_create that fails is a move of its own and takes the source's error branch.
  \<open>s_out\<close> is what has been written to stdout. The kernel's undo value \<open>semadj\<close> follows the
  \<open>SEM_UNDO\<close> flag of both operations and is added to the semaphore when the process exits.
\<close>

section \<open>State\<close>

datatype printer = Printer0 | Printer1 \<comment> \<open>the threads that get \<open>tidx[0]\<close> and \<open>tidx[1]\<close>\<close>

datatype printer_pc =
    P_None | P_Start | P_While | P_Acquire | P_Test | P_Fetch | P_Bump nat
  | P_Sleep | P_Put | P_Flush | P_Release | P_Exit | P_Done

datatype sem_main_pc =
    S_Args | S_Semget | S_Semctl | S_Create0 | S_Create1 | S_Join | S_Join_again | S_Exited int

record sem_state =
  argv :: "string list"
  sem_use :: int
  semval :: int
  semadj :: int
  shared_index :: nat
  s_out :: string
  s_err :: string
  ppc :: "printer \<Rightarrow> printer_pc"
  tidx :: "printer \<Rightarrow> int"
  more_to_do :: "printer \<Rightarrow> bool" \<comment> \<open>the local \<open>b\<close>\<close>
  cur :: "printer \<Rightarrow> char" \<comment> \<open>the local \<open>c\<close>\<close>
  smain :: sem_main_pc

datatype sem_actor =
    Sem_Main | Sem_Main_Fails string \<comment> \<open>the library call \<open>main\<close> is at fails, with this description\<close>
  | Print_One printer | Semop_Fails printer string

definition shared_text :: string where
  "shared_text = ''Hello, World!'' @ [nl]"

definition shared_buf :: bytes where
  "shared_buf = shared_text @ [NUL]"

definition tidx_init :: "printer \<Rightarrow> int" where
  "tidx_init p = (case p of Printer0 \<Rightarrow> 0 | Printer1 \<Rightarrow> 1)"

definition sem_init :: "string list \<Rightarrow> int \<Rightarrow> sem_state" where
  "sem_init args v0 = \<lparr>argv = args, sem_use = 0, semval = v0, semadj = 0, shared_index = 0,
     s_out = [], s_err = [], ppc = (\<lambda>_. P_None), tidx = (\<lambda>_. 0), more_to_do = (\<lambda>_. False),
     cur = (\<lambda>_. NUL), smain = S_Args\<rparr>"

section \<open>Steps\<close>

definition goto_p :: "printer \<Rightarrow> printer_pc \<Rightarrow> sem_state \<Rightarrow> sem_state" where
  "goto_p p pc s = s\<lparr>ppc := (ppc s)(p := pc)\<rparr>"

text \<open>The end of the process, by return or exit: the kernel applies the undo value.\<close>

definition exit_process :: "int \<Rightarrow> sem_state \<Rightarrow> sem_state" where
  "exit_process code s = s\<lparr>semval := semval s + semadj s, semadj := 0, smain := S_Exited code\<rparr>"

definition semop_p :: "sem_state \<Rightarrow> sem_state option" where
  "semop_p s = (if 1 \<le> semval s then Some (s\<lparr>semval := semval s - 1, semadj := semadj s + 1\<rparr>)
     else None)"

definition semop_v :: "sem_state \<Rightarrow> sem_state option" where
  "semop_v s = Some (s\<lparr>semval := semval s + 1, semadj := semadj s - 1\<rparr>)"

definition case_convert :: "int \<Rightarrow> char \<Rightarrow> char" where
  "case_convert ti c = (if ti \<noteq> 0 then toupper c else tolower c)"

fun print_one :: "printer_pc \<Rightarrow> printer \<Rightarrow> sem_state \<Rightarrow> sem_state option" where
  "print_one P_None p s = None"
| "print_one P_Start p s =
     Some (goto_p p P_While (s\<lparr>tidx := (tidx s)(p := tidx_init p), more_to_do := (more_to_do s)(p := True)\<rparr>))"
| "print_one P_While p s = Some (goto_p p (if more_to_do s p then P_Acquire else P_Exit) s)"
| "print_one P_Acquire p s =
     (if sem_use s \<noteq> 0 then map_option (goto_p p P_Test) (semop_p s) else Some (goto_p p P_Test s))"
| "print_one P_Test p s =
     (if strlen shared_buf \<le> shared_index s
      then Some (goto_p p P_Release (s\<lparr>more_to_do := (more_to_do s)(p := False)\<rparr>))
      else Some (goto_p p P_Fetch s))"
| "print_one P_Fetch p s = Some (goto_p p (P_Bump (shared_index s)) s)"
| "print_one (P_Bump i) p s =
     Some (goto_p p P_Sleep (s\<lparr>shared_index := i + 1,
       cur := (cur s)(p := case_convert (tidx s p) (shared_buf ! i))\<rparr>))"
| "print_one P_Sleep p s = Some (goto_p p P_Put s)"
| "print_one P_Put p s = Some (goto_p p P_Flush (s\<lparr>s_out := s_out s @ [cur s p]\<rparr>))"
| "print_one P_Flush p s = Some (goto_p p P_Release s)"
| "print_one P_Release p s =
     (if sem_use s \<noteq> 0 then map_option (goto_p p P_While) (semop_v s) else Some (goto_p p P_While s))"
| "print_one P_Exit p s = Some (goto_p p P_Done s)"
| "print_one P_Done p s = None"

text \<open>The error branches of the macros \<open>SEM_P\<close> and \<open>SEM_V\<close>.\<close>

fun semop_fails :: "string \<Rightarrow> printer_pc \<Rightarrow> sem_state \<Rightarrow> sem_state option" where
  "semop_fails e P_Acquire s =
     (if sem_use s \<noteq> 0 then Some (exit_process 1 (s\<lparr>s_err := s_err s @ perror_text ''semop p'' e\<rparr>)) else None)"
| "semop_fails e P_Release s =
     (if sem_use s \<noteq> 0 then Some (exit_process 1 (s\<lparr>s_err := s_err s @ perror_text ''semop v'' e\<rparr>)) else None)"
| "semop_fails e _ s = None"

definition usage_text :: "string \<Rightarrow> string" where
  "usage_text prog = ''Usage: '' @ prog @ '' [0(OFF)/1(ON)]'' @ [nl]"

text \<open>
  Both threads are created into the same variable \<open>thread_t\<close>, so both joins name the second
  thread: the first join waits for it, the second one finds it already joined and returns
  at once, its error being ignored.
\<close>

fun sem_main :: "sem_main_pc \<Rightarrow> sem_state \<Rightarrow> sem_state option" where
  "sem_main S_Args s =
     (if length (argv s) < 2
      then Some (exit_process 1 (s\<lparr>s_out := s_out s @ usage_text (argv s ! 0)\<rparr>))
      else Some (s\<lparr>sem_use := atoi (argv s ! 1), smain := S_Semget\<rparr>))"
| "sem_main S_Semget s = Some (s\<lparr>smain := S_Semctl\<rparr>)"
| "sem_main S_Semctl s = Some (s\<lparr>semval := 1, semadj := 0, smain := S_Create0\<rparr>)"
| "sem_main S_Create0 s = Some (goto_p Printer0 P_Start (s\<lparr>smain := S_Create1\<rparr>))"
| "sem_main S_Create1 s = Some (goto_p Printer1 P_Start (s\<lparr>smain := S_Join\<rparr>))"
| "sem_main S_Join s =
     (if ppc s Printer1 = P_Done then Some (s\<lparr>smain := S_Join_again\<rparr>) else None)"
| "sem_main S_Join_again s = Some (exit_process 0 s)"
| "sem_main (S_Exited code) s = None"

fun sem_main_fails :: "string \<Rightarrow> sem_main_pc \<Rightarrow> sem_state \<Rightarrow> sem_state option" where
  "sem_main_fails e S_Semget s = Some (exit_process 1 (s\<lparr>s_err := s_err s @ perror_text ''semget'' e\<rparr>))"
| "sem_main_fails e S_Semctl s = Some (exit_process 1 (s\<lparr>s_err := s_err s @ perror_text ''semctl'' e\<rparr>))"
| "sem_main_fails e S_Create0 s = Some (exit_process 1 (s\<lparr>s_err := s_err s @ perror_text ''pthread_create'' e\<rparr>))"
| "sem_main_fails e S_Create1 s = Some (exit_process 1 (s\<lparr>s_err := s_err s @ perror_text ''pthread_create'' e\<rparr>))"
| "sem_main_fails e _ s = None"

definition sem_exited :: "sem_state \<Rightarrow> bool" where
  "sem_exited s \<longleftrightarrow> (case smain s of S_Exited _ \<Rightarrow> True | _ \<Rightarrow> False)"

fun sem_step :: "sem_actor \<Rightarrow> sem_state \<Rightarrow> sem_state option" where
  "sem_step Sem_Main s = sem_main (smain s) s"
| "sem_step (Sem_Main_Fails e) s = sem_main_fails e (smain s) s"
| "sem_step (Print_One p) s = (if sem_exited s then None else print_one (ppc s p) p s)"
| "sem_step (Semop_Fails p e) s = (if sem_exited s then None else semop_fails e (ppc s p) s)"

section \<open>Control and the semaphore\<close>

lemma sem_step_cases:
  assumes "sem_step a s = Some s'"
  obtains (main) "a = Sem_Main" "sem_main (smain s) s = Some s'"
    | (main_fails) e where "a = Sem_Main_Fails e" "sem_main_fails e (smain s) s = Some s'"
    | (thread) p where "a = Print_One p" "\<not> sem_exited s" "print_one (ppc s p) p s = Some s'"
    | (semop_fails) p e where "a = Semop_Fails p e" "\<not> sem_exited s" "semop_fails e (ppc s p) s = Some s'"
  using assms by (cases a) (auto split: if_splits)

definition printer_created :: "sem_main_pc \<Rightarrow> printer \<Rightarrow> bool" where
  "printer_created m p \<longleftrightarrow> (case p of
     Printer0 \<Rightarrow> m = S_Create1 \<or> m = S_Join \<or> m = S_Join_again
   | Printer1 \<Rightarrow> m = S_Join \<or> m = S_Join_again)"

fun before_semctl :: "sem_main_pc \<Rightarrow> bool" where
  "before_semctl S_Args = True"
| "before_semctl S_Semget = True"
| "before_semctl S_Semctl = True"
| "before_semctl _ = False"

fun holding_pc :: "printer_pc \<Rightarrow> bool" where
  "holding_pc P_Test = True"
| "holding_pc P_Fetch = True"
| "holding_pc (P_Bump _) = True"
| "holding_pc P_Sleep = True"
| "holding_pc P_Put = True"
| "holding_pc P_Flush = True"
| "holding_pc P_Release = True"
| "holding_pc _ = False"

definition holding :: "printer \<Rightarrow> sem_state \<Rightarrow> bool" where
  "holding p s \<longleftrightarrow> sem_use s \<noteq> 0 \<and> holding_pc (ppc s p)"

lemma print_one_frame:
  assumes "print_one (ppc s p) p s = Some s'"
  shows "q \<noteq> p \<Longrightarrow> ppc s' q = ppc s q" and "smain s' = smain s" and "argv s' = argv s"
    and "sem_use s' = sem_use s" and "q \<noteq> p \<Longrightarrow> more_to_do s' q = more_to_do s q"
    and "q \<noteq> p \<Longrightarrow> cur s' q = cur s q" and "q \<noteq> p \<Longrightarrow> tidx s' q = tidx s q"
  using assms
  by (cases "ppc s p"; auto simp: goto_p_def semop_p_def semop_v_def split: if_splits)+

fun other_printer :: "printer \<Rightarrow> printer" where
  "other_printer Printer0 = Printer1"
| "other_printer Printer1 = Printer0"

lemma other_printer_iff: "q \<noteq> p \<longleftrightarrow> q = other_printer p"
  by (cases p; cases q) auto

lemma printer_all: "(\<forall>p. P p) \<longleftrightarrow> P Printer0 \<and> P Printer1"
  by (metis printer.exhaust)

text \<open>
  Which threads exist is fixed by where \<open>main\<close> is; the semaphore value and the undo value
  add up to one from semctl on, and the undo value counts the threads between \<open>SEM_P\<close> and
  \<open>SEM_V\<close>.
\<close>

definition holders :: "sem_state \<Rightarrow> int" where
  "holders s = of_bool (holding Printer0 s) + of_bool (holding Printer1 s)"

lemma holders_two: "holders s = of_bool (holding p s) + of_bool (holding (other_printer p) s)"
  by (cases p) (auto simp: holders_def)

definition created_ok :: "sem_state \<Rightarrow> printer \<Rightarrow> bool" where
  "created_ok s p \<longleftrightarrow> sem_exited s \<or> printer_created (smain s) p = (ppc s p \<noteq> P_None)"

definition undo_ok :: "sem_state \<Rightarrow> bool" where
  "undo_ok s \<longleftrightarrow> before_semctl (smain s) \<or> sem_exited s \<and> ppc s Printer0 = P_None \<or>
     semval s + semadj s = 1 \<and>
     (if sem_exited s then semadj s = 0 else 0 \<le> semval s \<and> semadj s = holders s)"

definition sem_ctl :: "sem_state \<Rightarrow> bool" where
  "sem_ctl s \<longleftrightarrow> (\<forall>p. created_ok s p) \<and> undo_ok s"

lemma sem_ctl_init: "sem_ctl (sem_init args v0)"
  by (auto simp: sem_ctl_def created_ok_def undo_ok_def sem_init_def sem_exited_def
      printer_created_def split: printer.splits)

lemma print_one_created:
  assumes "print_one (ppc s p) p s = Some s'" shows "ppc s p \<noteq> P_None" "ppc s' p \<noteq> P_None"
  using assms by (cases "ppc s p"; auto simp: goto_p_def semop_p_def semop_v_def split: if_splits)+

lemma created_thread:
  assumes "created_ok s q" and "print_one (ppc s p) p s = Some s'"
  shows "created_ok s' q"
proof -
  have "(ppc s' q = P_None) = (ppc s q = P_None)"
    using print_one_frame(1) [OF assms(2)] print_one_created [OF assms(2)] by (cases "q = p") auto
  moreover have "smain s' = smain s" by (rule print_one_frame(2) [OF assms(2)])
  ultimately show ?thesis using assms(1) by (simp add: created_ok_def sem_exited_def)
qed

lemma print_one_undo:
  assumes "print_one (ppc s p) p s = Some s'"
  shows "semval s' + semadj s' = semval s + semadj s"
    and "0 \<le> semval s \<Longrightarrow> 0 \<le> semval s'"
    and "semadj s' - semadj s = of_bool (holding p s') - of_bool (holding p s)"
  using assms
  by (cases "ppc s p"; auto simp: holding_def goto_p_def semop_p_def semop_v_def split: if_splits)+

lemma holding_other:
  assumes "print_one (ppc s p) p s = Some s'" and "q \<noteq> p"
  shows "holding q s' = holding q s"
  using assms(2) print_one_frame [OF assms(1)] by (simp add: holding_def)

lemma undo_thread:
  assumes "undo_ok s" and "print_one (ppc s p) p s = Some s'" and "\<not> sem_exited s"
  shows "undo_ok s'"
proof -
  have h: "holders s' - holders s = semadj s' - semadj s"
    using print_one_undo(3) [OF assms(2)] holding_other [OF assms(2), of "other_printer p"]
      other_printer_iff [of "other_printer p" p]
    by (simp add: holders_two [of _ p])
  show ?thesis
    using assms(1,3) h print_one_undo(1,2) [OF assms(2)] print_one_frame(2) [OF assms(2)]
    by (auto simp: undo_ok_def sem_exited_def)
qed

lemma created_main:
  assumes "created_ok s p" and "sem_main (smain s) s = Some s'" shows "created_ok s' p"
  using assms by (cases "smain s"; cases p)
    (auto simp: created_ok_def sem_exited_def printer_created_def goto_p_def exit_process_def
      split: if_splits)

lemma undo_main:
  assumes "undo_ok s" and "\<forall>p. created_ok s p" and "sem_main (smain s) s = Some s'"
  shows "undo_ok s'"
proof -
  have "created_ok s Printer0" "created_ok s Printer1" using assms(2) by blast+
  with assms(1,3) show ?thesis
    by (cases "smain s")
     (auto simp: undo_ok_def created_ok_def sem_exited_def printer_created_def goto_p_def
       exit_process_def holders_def holding_def split: if_splits)
qed

lemma main_fails_ctl:
  assumes "sem_ctl s" and "sem_main_fails e (smain s) s = Some s'" shows "sem_ctl s'"
proof -
  have "undo_ok s" "created_ok s Printer0" using assms(1) by (auto simp: sem_ctl_def)
  with assms(2) show ?thesis by (cases "smain s")
    (auto simp: sem_ctl_def undo_ok_def created_ok_def sem_exited_def printer_created_def
      exit_process_def)
qed

lemma semop_fails_ctl:
  assumes "sem_ctl s" and "\<not> sem_exited s" and "semop_fails e (ppc s p) s = Some s'"
  shows "sem_ctl s'"
proof -
  have "undo_ok s" "created_ok s p" using assms(1) by (auto simp: sem_ctl_def)
  with assms(2,3) show ?thesis by (cases "ppc s p"; cases p; cases "smain s")
    (auto simp: sem_ctl_def undo_ok_def created_ok_def sem_exited_def printer_created_def
      exit_process_def split: if_splits)
qed

lemma sem_ctl_step:
  assumes ctl: "sem_ctl s" and "sem_step a s = Some s'" shows "sem_ctl s'"
  using assms(2)
proof (cases rule: sem_step_cases)
  case main
  with ctl created_main undo_main show ?thesis unfolding sem_ctl_def by blast
next
  case (main_fails e)
  with ctl main_fails_ctl show ?thesis by blast
next
  case (thread p)
  with ctl created_thread undo_thread show ?thesis unfolding sem_ctl_def by blast
next
  case (semop_fails p e)
  with ctl semop_fails_ctl show ?thesis by blast
qed

interpretation sem_ctl_inv: inductive_invariant sem_step "sem_init args v0" sem_ctl for args v0
  by unfold_locales (auto intro: sem_ctl_init sem_ctl_step)

lemma sem_ctl_reach: "reach sem_step (sem_init args v0) s \<Longrightarrow> sem_ctl s"
  by (rule sem_ctl_inv.inv_reach)

lemma sem_one_holder:
  assumes "sem_ctl s" and "\<not> sem_exited s" and "holding p s"
  shows "\<not> holding (other_printer p) s"
proof
  assume o: "holding (other_printer p) s"
  have "created_ok s p" "created_ok s Printer0" "undo_ok s" using assms(1) by (auto simp: sem_ctl_def)
  with assms(2,3) o show False
    by (cases p; cases "smain s")
     (auto simp: undo_ok_def created_ok_def printer_created_def holders_def holding_def sem_exited_def)
qed

section \<open>What is printed under the semaphore\<close>

lemma strlen_shared_buf [simp]: "strlen shared_buf = 14"
  by (simp add: shared_buf_def shared_text_def strlen_def cstr_def)

lemma nth_shared_buf: "i < 14 \<Longrightarrow> shared_buf ! i = shared_text ! i"
  unfolding shared_buf_def by (rule nth_append_left) (simp add: shared_text_def)

fun reading_pc :: "printer_pc \<Rightarrow> bool" where
  "reading_pc P_Fetch = True"
| "reading_pc (P_Bump _) = True"
| "reading_pc _ = False"

fun writing_pc :: "printer_pc \<Rightarrow> bool" where
  "writing_pc P_Sleep = True"
| "writing_pc P_Put = True"
| "writing_pc _ = False"

definition case_of :: "char \<Rightarrow> char \<Rightarrow> bool" where
  "case_of c d \<longleftrightarrow> d = toupper c \<or> d = tolower c"

definition cased :: "nat \<Rightarrow> string \<Rightarrow> bool" where
  "cased n out \<longleftrightarrow> list_all2 case_of (take n shared_text) out"

definition ended :: "sem_state \<Rightarrow> printer \<Rightarrow> bool" where
  "ended s p \<longleftrightarrow> ppc s p = P_Exit \<or> ppc s p = P_Done \<or>
     \<not> more_to_do s p \<and> ppc s p \<noteq> P_None \<and> ppc s p \<noteq> P_Start"

definition text_at :: "sem_state \<Rightarrow> printer \<Rightarrow> bool" where
  "text_at s p \<longleftrightarrow>
     (reading_pc (ppc s p) \<longrightarrow> shared_index s < 14) \<and>
     (\<forall>i. ppc s p = P_Bump i \<longrightarrow> i = shared_index s) \<and>
     (writing_pc (ppc s p) \<longrightarrow> 0 < shared_index s \<and> cased (shared_index s - 1) (s_out s) \<and>
        case_of (shared_text ! (shared_index s - 1)) (cur s p)) \<and>
     (ended s p \<longrightarrow> shared_index s = 14 \<and>
        \<not> reading_pc (ppc s (other_printer p)) \<and> \<not> writing_pc (ppc s (other_printer p)))"

definition text_all :: "sem_state \<Rightarrow> bool" where
  "text_all s \<longleftrightarrow> shared_index s \<le> 14 \<and>
     ((\<forall>p. \<not> writing_pc (ppc s p)) \<longrightarrow> cased (shared_index s) (s_out s)) \<and>
     (\<forall>p. text_at s p)"

lemma other_other [simp]: "other_printer (other_printer p) = p"
  by (cases p) auto

lemma other_neq [simp]: "other_printer p \<noteq> p" "p \<noteq> other_printer p"
  by (cases p; simp)+

lemma printer_all_two: "(\<forall>q. P q) \<longleftrightarrow> P p \<and> P (other_printer p)"
  by (cases p) (auto simp: printer_all)

lemma cased_Suc:
  "cased n out \<Longrightarrow> n < 14 \<Longrightarrow> case_of (shared_text ! n) c \<Longrightarrow> cased (Suc n) (out @ [c])"
  unfolding cased_def
  by (subst take_Suc_conv_app_nth) (auto simp: shared_text_def intro: list_all2_appendI)

lemma case_of_convert: "case_of c (case_convert t c)"
  by (simp add: case_of_def case_convert_def)

text \<open>
  A thread inside the critical section is alone there; everything the text invariant says of
  the other thread then follows from it not being between \<open>SEM_P\<close> and \<open>SEM_V\<close>.
\<close>

lemma text_allI:
  assumes "shared_index s \<le> 14" and "text_at s p" and "text_at s (other_printer p)"
    and "\<not> writing_pc (ppc s p) \<Longrightarrow> \<not> writing_pc (ppc s (other_printer p)) \<Longrightarrow>
      cased (shared_index s) (s_out s)"
  shows "text_all s"
  using assms by (auto simp: text_all_def printer_all_two [of _ p])

lemma text_allD:
  assumes "text_all s"
  shows "shared_index s \<le> 14" and "text_at s p"
    and "\<not> writing_pc (ppc s p) \<Longrightarrow> \<not> writing_pc (ppc s (other_printer p)) \<Longrightarrow>
      cased (shared_index s) (s_out s)"
  using assms by (auto simp: text_all_def printer_all_two [of _ p])

lemma text_at_other:
  assumes "text_at s q" and "shared_index s' = shared_index s" and "s_out s' = s_out s"
    and "ppc s' q = ppc s q" and "more_to_do s' q = more_to_do s q" and "cur s' q = cur s q"
    and "ended s q \<Longrightarrow> \<not> reading_pc (ppc s' (other_printer q)) \<and> \<not> writing_pc (ppc s' (other_printer q))"
  shows "text_at s' q"
  using assms by (auto simp: text_at_def ended_def)

lemma text_quiet:
  assumes t: "text_all s" and same: "shared_index s' = shared_index s" "s_out s' = s_out s"
    and other: "ppc s' (other_printer p) = ppc s (other_printer p)"
      "more_to_do s' (other_printer p) = more_to_do s (other_printer p)"
      "cur s' (other_printer p) = cur s (other_printer p)"
    and old: "\<not> writing_pc (ppc s p)"
    and new: "\<not> reading_pc (ppc s' p)" "\<not> writing_pc (ppc s' p)" "ended s' p \<Longrightarrow> ended s p"
  shows "text_all s'"
proof (rule text_allI [where p = p])
  show "shared_index s' \<le> 14" using text_allD(1) [OF t] same by simp
  show "text_at s' (other_printer p)"
    by (rule text_at_other [OF text_allD(2) [OF t]]) (use same other new in simp_all)
  show "text_at s' p" using text_allD(2) [OF t, of p] new same other by (auto simp: text_at_def)
  show "cased (shared_index s') (s_out s')" if "\<not> writing_pc (ppc s' (other_printer p))"
    using text_allD(3) [OF t, of p] old that same other by simp
qed

lemma print_one_quiet:
  assumes t: "text_all s" and st: "print_one (ppc s p) p s = Some s'"
    and pc: "ppc s p \<in> {P_Start, P_While, P_Acquire, P_Flush, P_Release, P_Exit}"
  shows "text_all s'"
  using t st pc
  by (auto intro!: text_quiet [where s = s and p = p]
      simp: goto_p_def ended_def semop_p_def semop_v_def split: if_splits)

lemma print_one_busy:
  assumes t: "text_all s" and st: "print_one (ppc s p) p s = Some s'"
    and pc: "ppc s p \<in> {P_Test, P_Fetch, P_Sleep}"
    and nq: "\<not> holding_pc (ppc s (other_printer p))"
  shows "text_all s'"
proof -
  note le = text_allD(1) [OF t] and tp = text_allD(2) [OF t, of p]
    and tq = text_allD(2) [OF t, of "other_printer p"] and out = text_allD(3) [OF t, of p]
  have q: "\<not> reading_pc (ppc s (other_printer p))" "\<not> writing_pc (ppc s (other_printer p))"
    using nq by (cases "ppc s (other_printer p)"; simp)+
  from st pc have fr: "shared_index s' = shared_index s" "s_out s' = s_out s" "cur s' = cur s"
    by (auto simp: goto_p_def split: if_splits)
  show ?thesis
  proof (rule text_allI [where p = p])
    show "shared_index s' \<le> 14" using le fr by simp
    show "text_at s' p"
    proof (cases "ppc s p = P_Sleep")
      case True
      with st tp fr show ?thesis by (auto simp: text_at_def goto_p_def ended_def)
    next
      case False
      with pc consider "shared_index s < 14" | "ppc s p = P_Test" "shared_index s = 14"
        using tp le by (cases "shared_index s = 14") (auto simp: text_at_def)
      then show ?thesis
      proof cases
        case 1
        then have "\<not> ended s p" using tp by (simp add: text_at_def)
        with 1 False st pc tp q fr show ?thesis by (auto simp: text_at_def goto_p_def ended_def)
      next
        case 2
        with st q show ?thesis by (auto simp: text_at_def goto_p_def ended_def)
      qed
    qed
    have "ended s (other_printer p) \<Longrightarrow> \<not> reading_pc (ppc s' p) \<and> \<not> writing_pc (ppc s' p)"
      using tq st pc by (auto simp: text_at_def goto_p_def split: if_splits)
    then show "text_at s' (other_printer p)"
      using print_one_frame [OF st] fr by (intro text_at_other [OF tq]) auto
    show "cased (shared_index s') (s_out s')" if "\<not> writing_pc (ppc s' p)"
      using out st pc q fr that by (auto simp: goto_p_def split: if_splits)
  qed
qed

lemma print_one_stores:
  assumes t: "text_all s" and st: "print_one (ppc s p) p s = Some s'"
    and pc: "ppc s p = P_Bump i" and nq: "\<not> holding_pc (ppc s (other_printer p))"
  shows "text_all s'"
proof -
  note tp = text_allD(2) [OF t, of p]
    and tq = text_allD(2) [OF t, of "other_printer p"] and out = text_allD(3) [OF t, of p]
  have q: "\<not> reading_pc (ppc s (other_printer p))" "\<not> writing_pc (ppc s (other_printer p))"
    using nq by (cases "ppc s (other_printer p)"; simp)+
  have i: "i = shared_index s" "i < 14" and ne: "\<not> ended s p" "\<not> ended s (other_printer p)"
    using tp tq pc by (auto simp: text_at_def)
  have s': "s' = goto_p p P_Sleep (s\<lparr>shared_index := i + 1,
        cur := (cur s)(p := case_convert (tidx s p) (shared_buf ! i))\<rparr>)"
    using st pc by simp
  have "cased i (s_out s)" using out q pc i by simp
  then show ?thesis
    using i ne q pc unfolding s'
    by (intro text_allI [where p = p])
      (auto simp: text_at_def goto_p_def ended_def nth_shared_buf case_of_convert)
qed

lemma print_one_writes:
  assumes t: "text_all s" and st: "print_one (ppc s p) p s = Some s'"
    and pc: "ppc s p = P_Put" and nq: "\<not> holding_pc (ppc s (other_printer p))"
  shows "text_all s'"
proof -
  note le = text_allD(1) [OF t] and tp = text_allD(2) [OF t, of p]
    and tq = text_allD(2) [OF t, of "other_printer p"]
  have q: "\<not> reading_pc (ppc s (other_printer p))" "\<not> writing_pc (ppc s (other_printer p))"
    using nq by (cases "ppc s (other_printer p)"; simp)+
  have w: "0 < shared_index s" "cased (shared_index s - 1) (s_out s)"
      "case_of (shared_text ! (shared_index s - 1)) (cur s p)"
    using tp pc by (auto simp: text_at_def)
  then have c: "cased (shared_index s) (s_out s @ [cur s p])"
    using cased_Suc [of "shared_index s - 1"] le by simp
  have s': "s' = goto_p p P_Flush (s\<lparr>s_out := s_out s @ [cur s p]\<rparr>)"
    using st pc by simp
  have f: "shared_index s' = shared_index s" "s_out s' = s_out s @ [cur s p]" "ppc s' p = P_Flush"
    "ppc s' (other_printer p) = ppc s (other_printer p)" "more_to_do s' = more_to_do s"
    by (simp_all add: s' goto_p_def)
  show ?thesis
  proof (rule text_allI [where p = p])
    show "shared_index s' \<le> 14" using le f by simp
    show "text_at s' p" using tp pc f by (simp add: text_at_def ended_def)
    show "text_at s' (other_printer p)" using tq q f by (auto simp add: text_at_def ended_def)
    show "cased (shared_index s') (s_out s')" using c f by simp
  qed
qed

lemma text_thread:
  assumes "text_all s" and st: "print_one (ppc s p) p s = Some s'"
    and excl: "holding_pc (ppc s p) \<Longrightarrow> \<not> holding_pc (ppc s (other_printer p))"
  shows "text_all s'"
proof -
  consider (bump) i where "ppc s p = P_Bump i" | (put) "ppc s p = P_Put"
    | (busy) "ppc s p \<in> {P_Test, P_Fetch, P_Sleep}"
    | (quiet) "ppc s p \<in> {P_Start, P_While, P_Acquire, P_Flush, P_Release, P_Exit}"
    using print_one_created(1) [OF st] st by (cases "ppc s p") auto
  then show ?thesis
  proof cases
    case bump
    show ?thesis by (rule print_one_stores [OF assms(1,2) bump]) (rule excl, simp add: bump)
  next
    case put
    show ?thesis by (rule print_one_writes [OF assms(1,2) put]) (rule excl, simp add: put)
  next
    case busy
    show ?thesis by (rule print_one_busy [OF assms(1,2) busy], rule excl) (use busy in auto)
  next
    case quiet
    show ?thesis by (rule print_one_quiet [OF assms(1,2) quiet])
  qed
qed


text \<open>
  The run as a whole: \<open>sem_use\<close> is the parsed argument from the moment it is set; while the
  process lives the text invariant holds when the semaphore is on, and a return from \<open>main\<close>
  happens only after the second thread has finished.
\<close>

definition use_ok :: "string list \<Rightarrow> sem_state \<Rightarrow> bool" where
  "use_ok args s \<longleftrightarrow> argv s = args \<and>
     (smain s \<noteq> S_Args \<and> \<not> sem_exited s \<longrightarrow> sem_use s = atoi (args ! 1))"

definition printed_ok :: "sem_state \<Rightarrow> bool" where
  "printed_ok s \<longleftrightarrow> (\<not> sem_exited s \<longrightarrow> text_all s) \<and>
     (smain s = S_Join_again \<longrightarrow> ppc s Printer1 = P_Done) \<and>
     (smain s = S_Exited 0 \<longrightarrow> cased 14 (s_out s) \<and> shared_index s = 14)"

definition sem_on_inv :: "string list \<Rightarrow> sem_state \<Rightarrow> bool" where
  "sem_on_inv args s \<longleftrightarrow> sem_ctl s \<and> use_ok args s \<and> (atoi (args ! 1) \<noteq> 0 \<longrightarrow> printed_ok s)"

lemma use_ok_step:
  assumes "use_ok args s" and "sem_step a s = Some s'" shows "use_ok args s'"
  using assms(2)
proof (cases rule: sem_step_cases)
  case main
  with assms(1) show ?thesis by (cases "smain s")
    (auto simp: use_ok_def sem_exited_def exit_process_def goto_p_def split: if_splits)
next
  case (main_fails e)
  with assms(1) show ?thesis by (cases "smain s")
    (auto simp: use_ok_def sem_exited_def exit_process_def)
next
  case (thread p)
  with print_one_frame [OF thread(3)] assms(1) show ?thesis
    by (simp add: use_ok_def sem_exited_def)
next
  case (semop_fails p e)
  with assms(1) show ?thesis by (cases "ppc s p"; cases "smain s")
    (auto simp: use_ok_def sem_exited_def exit_process_def split: if_splits)
qed

lemma not_created:
  assumes "sem_ctl s" and "\<not> sem_exited s" and "\<not> printer_created (smain s) p"
  shows "ppc s p = P_None"
  using assms by (auto simp: sem_ctl_def created_ok_def)

lemma text_all_init: "text_all (sem_init args v0)"
  by (auto simp: text_all_def text_at_def sem_init_def ended_def cased_def)

lemma text_create:
  assumes "text_all s" and "ppc s p = P_None"
  shows "text_all (goto_p p P_Start (s\<lparr>smain := m\<rparr>))"
  by (rule text_quiet [OF assms(1), where p = p]) (use assms(2) in \<open>auto simp: goto_p_def ended_def\<close>)

lemma printed_main:
  assumes "printed_ok s" and "sem_main (smain s) s = Some s'" and "sem_ctl s"
  shows "printed_ok s'"
proof (cases "smain s")
  case S_Args
  with assms show ?thesis
    by (auto simp: printed_ok_def sem_exited_def exit_process_def text_all_def text_at_def ended_def
        split: if_splits)
next
  case S_Create0
  have "ppc s p = P_None" for p
    using not_created [OF assms(3), of p] S_Create0
    by (auto simp: sem_exited_def printer_created_def split: printer.splits)
  with assms S_Create0 text_create show ?thesis
    by (simp add: printed_ok_def sem_exited_def) (auto simp: goto_p_def)
next
  case S_Create1
  have "ppc s Printer1 = P_None"
    using not_created [OF assms(3), of Printer1] S_Create1
    by (auto simp: sem_exited_def printer_created_def)
  with assms S_Create1 text_create show ?thesis
    by (simp add: printed_ok_def sem_exited_def) (auto simp: goto_p_def)
next
  case S_Join_again
  with assms have t: "text_all s" and d: "ppc s Printer1 = P_Done"
    by (auto simp: printed_ok_def sem_exited_def)
  then have "shared_index s = 14" and "\<not> writing_pc (ppc s Printer0)"
    using text_allD(2) [OF t, of Printer1] by (auto simp: text_at_def ended_def)
  with text_allD(3) [OF t, of Printer1] d S_Join_again assms(2) show ?thesis
    by (auto simp: printed_ok_def sem_exited_def exit_process_def)
qed (use assms in \<open>auto simp: printed_ok_def sem_exited_def exit_process_def text_all_def text_at_def ended_def
       split: if_splits\<close>)

lemma printed_fails:
  assumes "smain s \<noteq> S_Exited 0"
  shows "sem_main_fails e (smain s) s = Some s' \<Longrightarrow> printed_ok s'"
    and "semop_fails e (ppc s p) s = Some s' \<Longrightarrow> printed_ok s'"
  using assms
  by (cases "smain s"; auto simp: printed_ok_def sem_exited_def exit_process_def)
    (cases "ppc s p"; auto simp: printed_ok_def sem_exited_def exit_process_def split: if_splits)

lemma sem_on_step:
  assumes inv: "sem_on_inv args s" and st: "sem_step a s = Some s'"
  shows "sem_on_inv args s'"
proof -
  have ctl: "sem_ctl s" and u: "use_ok args s" using inv by (auto simp: sem_on_inv_def)
  have "printed_ok s'" if on: "atoi (args ! 1) \<noteq> 0"
    using st
  proof (cases rule: sem_step_cases)
    case main
    with inv on ctl printed_main show ?thesis by (auto simp: sem_on_inv_def)
  next
    case (main_fails e)
    then have "smain s \<noteq> S_Exited 0" by auto
    with main_fails printed_fails show ?thesis by blast
  next
    case (thread p)
    have tx: "text_all s" and j: "smain s = S_Join_again \<longrightarrow> ppc s Printer1 = P_Done"
      using inv on thread by (auto simp: sem_on_inv_def printed_ok_def)
    have "ppc s p \<noteq> P_None" using print_one_created(1) [OF thread(3)] .
    then have "printer_created (smain s) p" using not_created [OF ctl thread(2)] by blast
    then have "smain s \<noteq> S_Args" by (auto simp: printer_created_def split: printer.splits)
    with u on thread(2) have "sem_use s \<noteq> 0" by (simp add: use_ok_def)
    then have "\<not> holding_pc (ppc s (other_printer p))" if "holding_pc (ppc s p)"
      using sem_one_holder [OF ctl thread(2), of p] that by (simp add: holding_def)
    with text_thread [OF tx thread(3)] have "text_all s'" by blast
    moreover have "smain s' = smain s" by (rule print_one_frame(2) [OF thread(3)])
    moreover have "ppc s Printer1 = P_Done \<Longrightarrow> ppc s' Printer1 = P_Done"
      using print_one_frame(1) [OF thread(3), of Printer1] thread(3) by (cases p) auto
    ultimately show ?thesis using j thread(2) by (auto simp: printed_ok_def sem_exited_def)
  next
    case (semop_fails p e)
    then have "smain s \<noteq> S_Exited 0" by (auto simp: sem_exited_def)
    with semop_fails printed_fails show ?thesis by blast
  qed
  with sem_ctl_step [OF ctl st] use_ok_step [OF u st] show ?thesis
    by (simp add: sem_on_inv_def)
qed

interpretation sem_on: inductive_invariant sem_step "sem_init args v0" "sem_on_inv args" for args v0
proof unfold_locales
  show "sem_on_inv args (sem_init args v0)"
    using text_all_init sem_ctl_init
    by (auto simp: sem_on_inv_def use_ok_def printed_ok_def sem_exited_def)
       (simp_all add: sem_init_def)
qed (rule sem_on_step)


section \<open>Termination with the semaphore on\<close>

fun pc_rank :: "bool \<Rightarrow> printer_pc \<Rightarrow> nat" where
  "pc_rank b P_None = 12"
| "pc_rank b P_Start = 10"
| "pc_rank b P_Sleep = 13"
| "pc_rank b P_Put = 12"
| "pc_rank b P_Flush = 11"
| "pc_rank b P_Release = (if b then 10 else 3)"
| "pc_rank b P_While = (if b then 9 else 2)"
| "pc_rank b P_Acquire = 8"
| "pc_rank b P_Test = 7"
| "pc_rank b P_Fetch = 6"
| "pc_rank b (P_Bump _) = 5"
| "pc_rank b P_Exit = 1"
| "pc_rank b P_Done = 0"

fun main_rank :: "sem_main_pc \<Rightarrow> nat" where
  "main_rank S_Args = 7"
| "main_rank S_Semget = 6"
| "main_rank S_Semctl = 5"
| "main_rank S_Create0 = 4"
| "main_rank S_Create1 = 3"
| "main_rank S_Join = 2"
| "main_rank S_Join_again = 1"
| "main_rank (S_Exited _) = 0"

definition printer_rank :: "sem_state \<Rightarrow> printer \<Rightarrow> nat" where
  "printer_rank s p = pc_rank (more_to_do s p) (ppc s p)"

definition sem_work :: "sem_state \<Rightarrow> nat" where
  "sem_work s = 20 * (14 - shared_index s) + printer_rank s Printer0 + printer_rank s Printer1 +
     main_rank (smain s)"

lemma sem_work_two: "sem_work s = 20 * (14 - shared_index s) + printer_rank s p +
    printer_rank s (other_printer p) + main_rank (smain s)"
  by (cases p) (auto simp: sem_work_def)

lemma print_one_work:
  assumes st: "print_one (ppc s p) p s = Some s'" and tp: "text_at s p"
  shows "sem_work s' < sem_work s"
proof -
  have o: "printer_rank s' (other_printer p) = printer_rank s (other_printer p)"
    using print_one_frame [OF st] by (simp add: printer_rank_def)
  have m: "smain s' = smain s" by (rule print_one_frame(2) [OF st])
  have "20 * (14 - shared_index s') + printer_rank s' p < 20 * (14 - shared_index s) + printer_rank s p"
    using st tp
    by (cases "ppc s p")
      (auto simp: goto_p_def semop_p_def semop_v_def printer_rank_def text_at_def split: if_splits)
  with o m show ?thesis by (simp add: sem_work_two [of _ p])
qed

lemma main_work:
  assumes "sem_ctl s" and "sem_main (smain s) s = Some s'" shows "sem_work s' < sem_work s"
proof -
  have n: "ppc s p = P_None" if "\<not> sem_exited s" "\<not> printer_created (smain s) p" for p
    using not_created [OF assms(1) that] .
  show ?thesis
    using assms(2) n [of Printer0] n [of Printer1]
    by (cases "smain s")
      (auto simp: sem_work_def printer_rank_def goto_p_def exit_process_def sem_exited_def
        printer_created_def split: if_splits)
qed

lemma fails_work:
  shows "sem_main_fails e (smain s) s = Some s' \<Longrightarrow> sem_work s' < sem_work s"
    and "semop_fails e (ppc s p) s = Some s' \<Longrightarrow> \<not> sem_exited s \<Longrightarrow> sem_work s' < sem_work s"
  by (cases "smain s"; auto simp: sem_work_def printer_rank_def exit_process_def)
    (cases "ppc s p"; cases "smain s";
      auto simp: sem_work_def printer_rank_def exit_process_def sem_exited_def split: if_splits)

lemma thread_can_move:
  assumes "sem_ctl s" and "\<not> sem_exited s" and "printer_created (smain s) p" and "ppc s p \<noteq> P_Done"
  shows "print_one (ppc s p) p s \<noteq> None \<or>
    print_one (ppc s (other_printer p)) (other_printer p) s \<noteq> None"
proof (cases "sem_use s \<noteq> 0 \<and> ppc s p = P_Acquire \<and> semval s < 1")
  case False
  have "ppc s p \<noteq> P_None" using assms by (auto simp: sem_ctl_def created_ok_def)
  with False assms(4) have "print_one (ppc s p) p s \<noteq> None"
    by (cases "ppc s p") (auto simp: semop_p_def semop_v_def)
  then show ?thesis by blast
next
  case True
  have u: "undo_ok s" using assms(1) by (simp add: sem_ctl_def)
  have "\<not> before_semctl (smain s)"
    using assms(3) by (auto simp: printer_created_def split: printer.splits)
  with u have "holders s \<noteq> 0" using True assms(2) by (auto simp: undo_ok_def)
  then have "holding_pc (ppc s (other_printer p))"
    using True by (auto simp: holders_two [of s p] holding_def)
  then have "print_one (ppc s (other_printer p)) (other_printer p) s \<noteq> None"
    by (cases "ppc s (other_printer p)") (auto simp: semop_v_def)
  then show ?thesis by blast
qed

lemma sem_some_move:
  assumes ctl: "sem_ctl s" and "\<not> sem_exited s"
  shows "\<exists>a\<in>{Sem_Main, Print_One Printer0, Print_One Printer1}. sem_step a s \<noteq> None"
proof (cases "sem_step Sem_Main s = None")
  case True
  with assms(2) have j: "smain s = S_Join" "ppc s Printer1 \<noteq> P_Done"
    by (cases "smain s"; auto simp: sem_exited_def split: if_splits)+
  then have "printer_created (smain s) Printer1" by (simp add: printer_created_def)
  from thread_can_move [OF assms this j(2)] assms(2) show ?thesis by auto
qed auto

lemma sem_strict:
  assumes on: "atoi (args ! 1) \<noteq> 0"
  shows "strict_termination sem_step (sem_init args v0)
    {Sem_Main, Print_One Printer0, Print_One Printer1} sem_work sem_exited"
proof
  fix s a t
  assume r: "reach sem_step (sem_init args v0) s" and st: "sem_step a s = Some t"
  from sem_on.inv_reach [OF r] on have ctl: "sem_ctl s" and p: "printed_ok s"
    by (auto simp: sem_on_inv_def)
  from st show "sem_work t < sem_work s"
  proof (cases rule: sem_step_cases)
    case main
    with main_work [OF ctl] show ?thesis by blast
  next
    case (main_fails e)
    with fails_work(1) show ?thesis by blast
  next
    case (thread q)
    with p text_allD(2) have "text_at s q" by (auto simp: printed_ok_def)
    with print_one_work [OF thread(3)] show ?thesis by blast
  next
    case (semop_fails q e)
    with fails_work(2) show ?thesis by blast
  qed
next
  fix s a
  assume "sem_exited s"
  then show "sem_step a s = None"
    by (cases a; cases "smain s") (auto simp: sem_exited_def)
next
  fix s
  assume "reach sem_step (sem_init args v0) s" and "\<not> sem_exited s"
  with sem_some_move sem_ctl_reach
  show "\<exists>a\<in>{Sem_Main, Print_One Printer0, Print_One Printer1}. sem_step a s \<noteq> None" by blast
qed

section \<open>Bounds without the semaphore\<close>

text \<open>
  With the semaphore off the two threads race for \<open>shared_index\<close>. Reads still stay inside
  the buffer: at most the terminating NUL at index 14 is read.
\<close>

definition bump_le :: "sem_state \<Rightarrow> printer \<Rightarrow> nat \<Rightarrow> bool" where
  "bump_le s p k \<longleftrightarrow> (\<forall>i. ppc s p = P_Bump i \<longrightarrow> i \<le> k)"

definition index_at :: "sem_state \<Rightarrow> printer \<Rightarrow> bool" where
  "index_at s p \<longleftrightarrow>
     (ppc s p = P_Fetch \<longrightarrow> shared_index s \<le> 14 \<and> bump_le s (other_printer p) 13 \<and>
        (shared_index s = 14 \<longrightarrow> \<not> reading_pc (ppc s (other_printer p)))) \<and>
     bump_le s p 14 \<and>
     (ppc s p = P_Bump 14 \<longrightarrow> shared_index s = 14 \<and> \<not> reading_pc (ppc s (other_printer p)))"

definition index_ok :: "sem_state \<Rightarrow> bool" where
  "index_ok s \<longleftrightarrow> (\<forall>p. index_at s p)"

lemma index_same:
  assumes "index_ok s" and "shared_index s' = shared_index s"
    and "\<And>p. ppc s' p = ppc s p \<or> \<not> reading_pc (ppc s' p)"
  shows "index_ok s'"
proof -
  have "index_at s' p" for p
  proof -
    have "index_at s p" using assms(1) by (simp add: index_ok_def)
    with assms(2) assms(3) [of p] assms(3) [of "other_printer p"] show ?thesis
      by (auto simp: index_at_def bump_le_def)
  qed
  then show ?thesis by (simp add: index_ok_def)
qed

lemma index_thread:
  assumes ix: "index_ok s" and st: "print_one (ppc s p) p s = Some s'"
  shows "index_ok s'"
proof -
  have ip: "index_at s p" and iq: "index_at s (other_printer p)"
    using ix by (auto simp: index_ok_def)
  have q: "ppc s' (other_printer p) = ppc s (other_printer p)"
    using print_one_frame(1) [OF st] by simp
  consider (test) "ppc s p = P_Test" "shared_index s < 14" | (fetch) "ppc s p = P_Fetch"
    | (bump) i where "ppc s p = P_Bump i"
    | (quiet) "shared_index s' = shared_index s" "\<not> reading_pc (ppc s' p)"
    using st by (cases "ppc s p") (auto simp: goto_p_def semop_p_def semop_v_def split: if_splits)
  then show ?thesis
  proof cases
    case test
    then have s': "s' = goto_p p P_Fetch s" using st by simp
    have "bump_le s (other_printer p) 13"
      using iq test by (auto simp: index_at_def bump_le_def le_less Suc_le_eq)
    then show ?thesis
      using iq test unfolding index_ok_def printer_all_two [of _ p]
      by (auto simp: s' goto_p_def index_at_def bump_le_def)
  next
    case fetch
    then have s': "s' = goto_p p (P_Bump (shared_index s)) s" using st by simp
    then show ?thesis
      using ip iq fetch unfolding index_ok_def printer_all_two [of _ p]
      by (auto simp: s' goto_p_def index_at_def bump_le_def)
  next
    case (bump i)
    then have s': "ppc s' p = P_Sleep" "shared_index s' = i + 1" using st by (auto simp: goto_p_def)
    then show ?thesis
      using ip iq bump q unfolding index_ok_def printer_all_two [of _ p]
      by (auto simp: index_at_def bump_le_def)
  next
    case quiet
    show ?thesis
    proof (rule index_same [OF ix quiet(1)])
      fix r show "ppc s' r = ppc s r \<or> \<not> reading_pc (ppc s' r)"
        using quiet(2) print_one_frame(1) [OF st, of r] by (cases "r = p") auto
    qed
  qed
qed

lemma index_step:
  assumes "index_ok s" and "sem_step a s = Some s'" shows "index_ok s'"
  using assms(2)
proof (cases rule: sem_step_cases)
  case main
  then show ?thesis
    by (intro index_same [OF assms(1)]; cases "smain s")
      (auto simp: goto_p_def exit_process_def split: if_splits)
next
  case (main_fails e)
  then show ?thesis
    by (intro index_same [OF assms(1)]; cases "smain s") (auto simp: exit_process_def)
next
  case (thread p)
  with index_thread [OF assms(1)] show ?thesis by blast
next
  case (semop_fails p e)
  then show ?thesis
    by (intro index_same [OF assms(1)]; cases "ppc s p")
      (auto simp: exit_process_def split: if_splits)
qed

interpretation sem_index: inductive_invariant sem_step "sem_init args v0" index_ok for args v0
proof unfold_locales
  show "index_ok (sem_init args v0)"
    by (simp add: index_ok_def index_at_def bump_le_def sem_init_def)
qed (rule index_step)


section \<open>Sample runs\<close>

text \<open>
  Schedules for the witnesses: both threads alternate under the semaphore until both are
  done and \<open>main\<close> returns; the first thread is stopped inside the critical section by a
  failing \<open>semop\<close>; the first thread is about to read.
\<close>

definition alternating :: "sem_actor list" where
  "alternating = replicate 5 Sem_Main @
     concat (replicate 12 (replicate 11 (Print_One Printer0) @ replicate 14 (Print_One Printer1))) @
     replicate 2 Sem_Main"

definition sem_run :: "sem_actor list \<Rightarrow> sem_state" where
  "sem_run as = run_schedule sem_step as (sem_init [''sem_example'', ''1''] 0)"

lemma sem_run_reach: "reach sem_step (sem_init [''sem_example'', ''1''] 0) (sem_run as)"
  unfolding sem_run_def by (rule reach_run_schedule [OF reach_init])

lemma sample_arg: "atoi ([''sem_example'', ''1''] ! 1) \<noteq> 0"
  by code_simp

section \<open>Properties\<close>

text \<open>
  C3: with the semaphore on (a first argument that \<open>atoi\<close> reads as non-zero), every scheduling
  that ends with a normal return of \<open>main\<close> has printed the whole string, in order, each
  character once and in upper or lower case, although both joins name the second thread.
\<close>

theorem sem_on_output:
  assumes "atoi (args ! 1) \<noteq> 0" and "reach sem_step (sem_init args v0) s"
    and "smain s = S_Exited 0"
  shows "list_all2 case_of shared_text (s_out s)"
proof -
  have "cased 14 (s_out s)"
    using sem_on.inv_reach [OF assms(2)] assms(1,3) by (simp add: sem_on_inv_def printed_ok_def)
  then show ?thesis by (simp add: cased_def shared_text_def)
qed

theorem sem_on_output_witness: "list_all2 case_of shared_text (s_out (sem_run alternating))"
proof -
  have "smain (sem_run alternating) = S_Exited 0" by code_simp
  then show ?thesis by (rule sem_on_output [OF sample_arg sem_run_reach])
qed

text \<open>
  C24: SEM_UNDO leaves the semaphore as \<open>semctl\<close> set it: whenever the process has ended after
  a thread was created, by a return or by \<open>exit(1)\<close> in any thread between \<open>SEM_P\<close> and
  \<open>SEM_V\<close>, the kernel's semaphore is 1 again.
\<close>

theorem sem_undo_restores:
  assumes "reach sem_step (sem_init args v0) s" and "sem_exited s" and "ppc s Printer0 \<noteq> P_None"
  shows "semval s = 1"
proof -
  have "undo_ok s" using sem_ctl_reach [OF assms(1)] by (simp add: sem_ctl_def)
  moreover have "\<not> before_semctl (smain s)" using assms(2) by (cases "smain s") (auto simp: sem_exited_def)
  ultimately show ?thesis using assms(2,3) by (simp add: undo_ok_def)
qed

theorem sem_undo_restores_witness:
  "semval (sem_run (replicate 5 Sem_Main @ replicate 9 (Print_One Printer0) @
     [Semop_Fails Printer0 ''Identifier removed''])) = 1"
proof (rule sem_undo_restores [OF sem_run_reach])
  let ?s = "sem_run (replicate 5 Sem_Main @ replicate 9 (Print_One Printer0) @
     [Semop_Fails Printer0 ''Identifier removed''])"
  show "sem_exited ?s" by code_simp
  show "ppc ?s Printer0 \<noteq> P_None" by code_simp
qed

text \<open>
  With the semaphore on, the two threads are never both between \<open>SEM_P\<close> and \<open>SEM_V\<close>
  while the process lives, and the semaphore is never negative.
\<close>

theorem sem_exclusion:
  assumes "reach sem_step (sem_init args v0) s" and "\<not> sem_exited s"
    and "holding p s" and "holding q s"
  shows "p = q"
  using sem_one_holder [OF sem_ctl_reach [OF assms(1)] assms(2,3)] assms(4) other_printer_iff [of q p]
  by metis

theorem sem_exclusion_witness:
  "\<exists>p. holding p (sem_run (replicate 5 Sem_Main @ replicate 9 (Print_One Printer0) @
     replicate 9 (Print_One Printer1))) \<and> p = Printer0"
proof -
  let ?s = "sem_run (replicate 5 Sem_Main @ replicate 9 (Print_One Printer0) @
     replicate 9 (Print_One Printer1))"
  have a: "\<not> sem_exited ?s" "holding Printer0 ?s" by code_simp+
  with sem_exclusion [OF sem_run_reach a(1) a(2) a(2)] show ?thesis by blast
qed



text \<open>
  C25: with the semaphore on or off, whatever the interleaving of the unprotected
  \<open>shared_index++\<close>, a thread reads \<open>shared_buf\<close> inside its 15 bytes.
\<close>

theorem sem_index_in_bounds:
  assumes "reach sem_step (sem_init args v0) s" and "ppc s p = P_Bump i"
  shows "i < length shared_buf"
proof -
  have "index_at s p" using sem_index.inv_reach [OF assms(1)] by (simp add: index_ok_def)
  then have "i \<le> 14" using assms(2) by (simp add: index_at_def bump_le_def)
  moreover have "length shared_buf = 15" by (simp add: shared_buf_def shared_text_def)
  ultimately show ?thesis by simp
qed

theorem sem_index_in_bounds_witness: "0 < length shared_buf"
proof (rule sem_index_in_bounds [OF sem_run_reach])
  show "ppc (sem_run (replicate 5 Sem_Main @ replicate 5 (Print_One Printer0))) Printer0 = P_Bump 0"
    by code_simp
qed

text \<open>
  With the semaphore off a character can be lost: \<open>main\<close> joins the second thread twice and
  never the first one, so the process can return normally while the first thread still holds
  the first character.
\<close>

theorem sem_off_loses_character:
  "\<exists>as. smain (run_schedule sem_step as (sem_init [prog, ''0''] 0)) = S_Exited 0 \<and>
     s_out (run_schedule sem_step as (sem_init [prog, ''0''] 0)) = ''ELLO, WORLD!'' @ [nl]"
proof (intro exI conjI)
  let ?as = "replicate 5 Sem_Main @ replicate 7 (Print_One Printer0) @
    replicate 140 (Print_One Printer1) @ replicate 2 Sem_Main"
  show "smain (run_schedule sem_step ?as (sem_init [prog, ''0''] 0)) = S_Exited 0" by code_simp
  show "s_out (run_schedule sem_step ?as (sem_init [prog, ''0''] 0)) = ''ELLO, WORLD!'' @ [nl]"
    by code_simp
qed

end
