(* ===== verification/Record_Lock.thy ===== *)
theory Record_Lock
  imports C_Library Interleaving
begin

text \<open>
  \<open>record_lock_test.c\<close>: any number of processes run the program on one file, each with its
  own arguments. A move is one system call with the computation up to the next one: open,
  fcntl(F_SETLK), lseek and read with the replacement loop, lseek and write, the unlock, close.
  The kernel part is the file, and its lock table with the owner of each locked range. A call
  that the model's kernel would let succeed may also fail (disk error, lock table full): that is
  the move \<open>Rec_Fails\<close>.
\<close>

section \<open>The kernel's record locks\<close>

definition F_RDLCK :: int where "F_RDLCK = 0"
definition F_WRLCK :: int where "F_WRLCK = 1"
definition F_UNLCK :: int where "F_UNLCK = 2"

definition LOCK_T :: int where "LOCK_T = 0"
definition UNLOCK_T :: int where "UNLOCK_T = 1"

definition BUFSIZE :: nat where "BUFSIZE = 1024"

text \<open>A half-open range of byte positions, without an end for a length of zero.\<close>

type_synonym range = "int \<times> int option"

record file_lock =
  owner :: nat
  ltype :: int
  lrange :: range

definition ends_after :: "int option \<Rightarrow> int \<Rightarrow> bool" where
  "ends_after h x \<longleftrightarrow> (case h of None \<Rightarrow> True | Some y \<Rightarrow> x < y)"

definition in_range :: "int \<Rightarrow> range \<Rightarrow> bool" where
  "in_range x r \<longleftrightarrow> fst r \<le> x \<and> ends_after (snd r) x"

definition overlap :: "range \<Rightarrow> range \<Rightarrow> bool" where
  "overlap a b \<longleftrightarrow> in_range (max (fst a) (fst b)) a \<and> in_range (max (fst a) (fst b)) b"

text \<open>\<open>l_start\<close> and \<open>l_len\<close> with \<open>SEEK_SET\<close>: a negative length names the bytes before the start.\<close>

definition lock_range :: "int \<Rightarrow> int \<Rightarrow> range option" where
  "lock_range start len =
     (if start < 0 then None
      else if 0 < len then Some (start, Some (start + len))
      else if len = 0 then Some (start, None)
      else if start + len < 0 then None
      else Some (start + len, Some start))"

definition cut_range :: "range \<Rightarrow> range \<Rightarrow> range list" where
  "cut_range r l =
     (if \<not> overlap r l then [l]
      else (if fst l < fst r then [(fst l, Some (fst r))] else []) @
           (case snd r of None \<Rightarrow> [] | Some h \<Rightarrow> if ends_after (snd l) h then [(h, snd l)] else []))"

definition cut_lock :: "nat \<Rightarrow> range \<Rightarrow> file_lock \<Rightarrow> file_lock list" where
  "cut_lock me r l =
     (if owner l = me then map (\<lambda>q. l\<lparr>lrange := q\<rparr>) (cut_range r (lrange l)) else [l])"

definition conflicts :: "nat \<Rightarrow> int \<Rightarrow> range \<Rightarrow> file_lock \<Rightarrow> bool" where
  "conflicts me ty r l \<longleftrightarrow> owner l \<noteq> me \<and> overlap r (lrange l) \<and> (ty = F_WRLCK \<or> ltype l = F_WRLCK)"

definition fcntl_setlk :: "nat \<Rightarrow> int \<Rightarrow> int \<Rightarrow> int \<Rightarrow> file_lock list \<Rightarrow> string + file_lock list" where
  "fcntl_setlk me ty start len tbl =
     (case lock_range start len of
        None \<Rightarrow> Inl ''Invalid argument''
      | Some r \<Rightarrow>
          if ty = F_UNLCK then Inr (concat (map (cut_lock me r) tbl))
          else if list_ex (conflicts me ty r) tbl then Inl ''Resource temporarily unavailable''
          else Inr (\<lparr>owner = me, ltype = ty, lrange = r\<rparr> # concat (map (cut_lock me r) tbl)))"

text \<open>
  \<open>record_lock\<close>: \<open>(type==LOCK_T) ? : F_UNLCK\<close> is the comparison itself, 1, when it is
  true, which happens to be \<open>F_WRLCK\<close>.
\<close>

definition record_lock_type :: "int \<Rightarrow> int" where
  "record_lock_type type = (let c = (if type = LOCK_T then 1 else 0) in if c \<noteq> 0 then c else F_UNLCK)"

definition record_lock :: "nat \<Rightarrow> int \<Rightarrow> int \<Rightarrow> int \<Rightarrow> file_lock list \<Rightarrow> string + file_lock list" where
  "record_lock me type start len tbl = fcntl_setlk me (record_lock_type type) start len tbl"

section \<open>Processes and the shared file\<close>

datatype rec_pc = R_Args | R_Open | R_Lock | R_Read | R_Write | R_Unlock | R_Close | R_Exited int

record rec_proc =
  rargv :: "string list"
  beyond :: bytes \<comment> \<open>the stack bytes after \<open>buf\<close>, up to a NUL\<close>
  rpc :: rec_pc
  record_start :: int
  record_len :: int
  rbuf :: bytes
  rout :: string
  rerr :: string

record rec_state =
  rfile :: bytes
  rlocks :: "file_lock list"
  rproc :: "nat \<Rightarrow> rec_proc"

datatype rec_actor = Rec nat | Rec_Fails nat string

definition rec_init :: "bytes \<Rightarrow> (nat \<Rightarrow> string list) \<Rightarrow> (nat \<Rightarrow> bytes) \<Rightarrow> rec_state" where
  "rec_init f args rest = \<lparr>rfile = f, rlocks = [],
     rproc = (\<lambda>p. \<lparr>rargv = args p, beyond = rest p, rpc = R_Args, record_start = 0, record_len = 0,
       rbuf = replicate BUFSIZE NUL, rout = [], rerr = []\<rparr>)\<rparr>"

definition set_proc :: "nat \<Rightarrow> rec_proc \<Rightarrow> rec_state \<Rightarrow> rec_state" where
  "set_proc p q s = s\<lparr>rproc := (rproc s)(p := q)\<rparr>"

text \<open>Ending a process closes its descriptors, and closing the file drops all its locks.\<close>

definition drop_locks :: "nat \<Rightarrow> file_lock list \<Rightarrow> file_lock list" where
  "drop_locks p tbl = filter (\<lambda>l. owner l \<noteq> p) tbl"

definition rec_exit :: "nat \<Rightarrow> int \<Rightarrow> rec_proc \<Rightarrow> rec_state \<Rightarrow> rec_state" where
  "rec_exit p code q s = set_proc p (q\<lparr>rpc := R_Exited code\<rparr>) (s\<lparr>rlocks := drop_locks p (rlocks s)\<rparr>)"

definition rec_perror :: "string \<Rightarrow> string \<Rightarrow> rec_proc \<Rightarrow> rec_proc" where
  "rec_perror msg e q = q\<lparr>rerr := rerr q @ perror_text msg e\<rparr>"

section \<open>The steps of main\<close>

definition x_out :: "char \<Rightarrow> char" where
  "x_out c = (if c = CHR ''0'' \<or> c = CHR ''9'' then CHR ''x'' else c)"

text \<open>\<open>for (i=0; i<record_len; ++i)\<close> over the buffer.\<close>

fun modify_loop :: "nat \<Rightarrow> nat \<Rightarrow> bytes \<Rightarrow> bytes" where
  "modify_loop 0 i buf = buf"
| "modify_loop (Suc n) i buf =
     modify_loop n (Suc i) (if buf ! i = CHR ''0'' \<or> buf ! i = CHR ''9'' then buf[i := CHR ''x''] else buf)"

definition print_buf :: "bytes \<Rightarrow> bytes \<Rightarrow> string" where
  "print_buf buf rest = cstr (buf @ rest)"

definition file_read :: "int \<Rightarrow> int \<Rightarrow> bytes \<Rightarrow> bytes" where
  "file_read at n f = take (nat n) (drop (nat at) f)"

text \<open>A write of at least one byte past the end fills the gap with zero bytes.\<close>

definition file_write :: "int \<Rightarrow> bytes \<Rightarrow> bytes \<Rightarrow> bytes" where
  "file_write at d f = (if d = [] then f
     else overwrite (f @ replicate (nat at - length f) NUL) (nat at) d)"

fun rec_main :: "rec_pc \<Rightarrow> nat \<Rightarrow> rec_proc \<Rightarrow> rec_state \<Rightarrow> rec_state option" where
  "rec_main R_Args p q s = Some (
     if length (rargv q) < 4
     then rec_exit p 0 (q\<lparr>rout := rout q @ ''Usage: '' @ rargv q ! 0 @
       '' [record file] [record start] [record length]'' @ [nl]\<rparr>) s
     else set_proc p (q\<lparr>rpc := R_Open\<rparr>) s)"
| "rec_main R_Open p q s = Some (
     let start = atoi (rargv q ! 2); len = atoi (rargv q ! 3) in
     if int BUFSIZE < len
     then rec_exit p 0 (q\<lparr>rout := rout q @ ''record_len('' @ dec len @ '') cannot over '' @
       dec (int BUFSIZE) @ [nl]\<rparr>) s
     else set_proc p (q\<lparr>rpc := R_Lock, record_start := start, record_len := len\<rparr>) s)"
| "rec_main R_Lock p q s = Some (
     case record_lock p LOCK_T (record_start q) (record_len q) (rlocks s) of
       Inl e \<Rightarrow> rec_exit p 0 (rec_perror ''record lock error: '' e q) s
     | Inr tbl \<Rightarrow> set_proc p (q\<lparr>rpc := R_Read\<rparr>) (s\<lparr>rlocks := tbl\<rparr>))"
| "rec_main R_Read p q s = Some (
     if record_len q < 0 \<comment> \<open>a size beyond SSIZE_MAX\<close>
     then rec_exit p 0 (rec_perror ''read error: '' ''Bad address'' q) s
     else (let b = overwrite (rbuf q) 0 (file_read (record_start q) (record_len q) (rfile s)) in
       set_proc p (q\<lparr>rpc := R_Write, rbuf := modify_loop (nat (record_len q)) 0 b,
         rout := rout q @ ''record data = '' @ print_buf b (beyond q) @ [nl]\<rparr>) s))"
| "rec_main R_Write p q s = Some (
     set_proc p (q\<lparr>rpc := R_Unlock, rout := rout q @ ''record lock process done'' @ [nl]\<rparr>)
       (s\<lparr>rfile := file_write (record_start q) (take (nat (record_len q)) (rbuf q)) (rfile s)\<rparr>))"
| "rec_main R_Unlock p q s = Some (
     case record_lock p UNLOCK_T (record_start q) (record_len q) (rlocks s) of
       Inl e \<Rightarrow> rec_exit p 0 (rec_perror ''record unlock error: '' e q) s
     | Inr tbl \<Rightarrow> set_proc p (q\<lparr>rpc := R_Close\<rparr>) (s\<lparr>rlocks := tbl\<rparr>))"
| "rec_main R_Close p q s = Some (rec_exit p 0 q s)"
| "rec_main (R_Exited _) p q s = None"

text \<open>
  Failing calls. The result of \<open>write\<close> is not looked at: after a failure that wrote nothing
  the program goes on and reports that it is done.
\<close>

fun rec_main_fails :: "rec_pc \<Rightarrow> string \<Rightarrow> nat \<Rightarrow> rec_proc \<Rightarrow> rec_state \<Rightarrow> rec_state option" where
  "rec_main_fails R_Open e p q s = Some (rec_exit p 0 (rec_perror ''file open error: '' e q) s)"
| "rec_main_fails R_Lock e p q s = Some (rec_exit p 0 (rec_perror ''record lock error: '' e q) s)"
| "rec_main_fails R_Read e p q s = Some (rec_exit p 0 (rec_perror ''read error: '' e q) s)"
| "rec_main_fails R_Write e p q s =
     Some (set_proc p (q\<lparr>rpc := R_Unlock, rout := rout q @ ''record lock process done'' @ [nl]\<rparr>) s)"
| "rec_main_fails R_Unlock e p q s = Some (rec_exit p 0 (rec_perror ''record unlock error: '' e q) s)"
| "rec_main_fails _ e p q s = None"

fun rec_step :: "rec_actor \<Rightarrow> rec_state \<Rightarrow> rec_state option" where
  "rec_step (Rec p) s = rec_main (rpc (rproc s p)) p (rproc s p) s"
| "rec_step (Rec_Fails p e) s = rec_main_fails (rpc (rproc s p)) e p (rproc s p) s"

section \<open>Ranges and the lock table\<close>

lemma ends_after_mono: "ends_after h x \<Longrightarrow> y \<le> x \<Longrightarrow> ends_after h y"
  by (auto simp: ends_after_def split: option.splits)

lemma overlap_iff: "overlap a b \<longleftrightarrow> (\<exists>x. in_range x a \<and> in_range x b)"
proof
  assume "\<exists>x. in_range x a \<and> in_range x b"
  then obtain x where x: "in_range x a" "in_range x b" by blast
  then have "max (fst a) (fst b) \<le> x" by (simp add: in_range_def)
  with x show "overlap a b" by (auto simp: overlap_def in_range_def intro: ends_after_mono)
qed (auto simp: overlap_def)

lemma overlap_sym: "overlap a b = overlap b a"
  by (auto simp: overlap_def max.commute)

lemma cut_range_sub: "q \<in> set (cut_range r l) \<Longrightarrow> in_range x q \<Longrightarrow> in_range x l"
  by (auto simp: cut_range_def overlap_def in_range_def ends_after_def split: if_splits option.splits)

definition table_ok :: "file_lock list \<Rightarrow> bool" where
  "table_ok tbl \<longleftrightarrow> (\<forall>l\<in>set tbl. \<forall>m\<in>set tbl. owner l \<noteq> owner m \<longrightarrow> \<not> overlap (lrange l) (lrange m)) \<and>
     (\<forall>l\<in>set tbl. ltype l = F_WRLCK)"

text \<open>Every lock of the new table comes from one of the old table with the same owner.\<close>

lemma cut_lock_from:
  assumes "l' \<in> set (concat (map (cut_lock me r) tbl))"
  obtains l where "l \<in> set tbl" "owner l' = owner l" "ltype l' = ltype l"
    "\<And>x. in_range x (lrange l') \<Longrightarrow> in_range x (lrange l)"
proof -
  from assms obtain l where l: "l \<in> set tbl" "l' \<in> set (cut_lock me r l)" by auto
  moreover have "owner l' = owner l" "ltype l' = ltype l"
    using l(2) by (auto simp: cut_lock_def split: if_splits)
  moreover have "in_range x (lrange l)" if "in_range x (lrange l')" for x
    using l(2) that cut_range_sub [of "lrange l'" r "lrange l" x]
    by (auto simp: cut_lock_def split: if_splits)
  ultimately show thesis using that by blast
qed

lemma cut_table_ok: "table_ok tbl \<Longrightarrow> table_ok (concat (map (cut_lock me r) tbl))"
  unfolding table_ok_def overlap_iff by (metis cut_lock_from)

lemma cut_keeps_others: "l \<in> set tbl \<Longrightarrow> owner l \<noteq> me \<Longrightarrow> l \<in> set (concat (map (cut_lock me r) tbl))"
  by (auto simp: cut_lock_def intro!: bexI [where x = l])

lemma record_lock_takes:
  assumes "record_lock me LOCK_T start len tbl = Inr tbl'" and "table_ok tbl"
  shows "table_ok tbl'"
    and "\<exists>r. lock_range start len = Some r \<and> \<lparr>owner = me, ltype = F_WRLCK, lrange = r\<rparr> \<in> set tbl'"
    and "l \<in> set tbl \<Longrightarrow> owner l \<noteq> me \<Longrightarrow> l \<in> set tbl'"
proof -
  from assms(1) obtain r where r: "lock_range start len = Some r"
      "\<not> list_ex (conflicts me F_WRLCK r) tbl"
      "tbl' = \<lparr>owner = me, ltype = F_WRLCK, lrange = r\<rparr> # concat (map (cut_lock me r) tbl)"
    by (auto simp: record_lock_def record_lock_type_def fcntl_setlk_def F_UNLCK_def F_WRLCK_def
        split: option.splits if_splits)
  then show "\<exists>r. lock_range start len = Some r \<and> \<lparr>owner = me, ltype = F_WRLCK, lrange = r\<rparr> \<in> set tbl'"
    by simp
  have no: "\<not> overlap r (lrange m)" if "m \<in> set tbl" "owner m \<noteq> me" for m
    using r(2) that by (auto simp: list_ex_iff conflicts_def)
  have "\<not> overlap r (lrange m)" if "m \<in> set (concat (map (cut_lock me r) tbl))" "owner m \<noteq> me" for m
    using that no by (metis cut_lock_from overlap_iff)
  with cut_table_ok [OF assms(2), of me r] show "table_ok tbl'"
    unfolding r(3) table_ok_def by (auto simp: overlap_sym)
  show "l \<in> set tbl'" if "l \<in> set tbl" "owner l \<noteq> me"
    using cut_keeps_others [OF that, of r] unfolding r(3) by (rule list.set_intros(2))
qed

lemma record_lock_gives_up:
  assumes "record_lock me UNLOCK_T start len tbl = Inr tbl'" and "table_ok tbl"
  shows "table_ok tbl'" and "l \<in> set tbl \<Longrightarrow> owner l \<noteq> me \<Longrightarrow> l \<in> set tbl'"
proof -
  from assms(1) obtain r where "tbl' = concat (map (cut_lock me r) tbl)"
    by (auto simp: record_lock_def record_lock_type_def fcntl_setlk_def LOCK_T_def UNLOCK_T_def
        split: option.splits if_splits)
  with cut_table_ok [OF assms(2)] cut_keeps_others
  show "table_ok tbl'" "l \<in> set tbl \<Longrightarrow> owner l \<noteq> me \<Longrightarrow> l \<in> set tbl'" by metis+
qed

section \<open>Bytes of the file\<close>

definition byte_at :: "bytes \<Rightarrow> nat \<Rightarrow> char" where
  "byte_at f i = (if i < length f then f ! i else NUL)"

lemma modify_loop_map:
  "i + n \<le> length buf \<Longrightarrow>
   modify_loop n i buf = take i buf @ map x_out (take n (drop i buf)) @ drop (i + n) buf"
proof (induction n arbitrary: i buf)
  case (Suc n)
  let ?b = "buf[i := x_out (buf ! i)]"
  have b: "(if buf ! i = CHR ''0'' \<or> buf ! i = CHR ''9'' then buf[i := CHR ''x''] else buf) = ?b"
    by (simp add: x_out_def)
  have "modify_loop (Suc n) i buf = modify_loop n (Suc i) ?b" by (simp only: modify_loop.simps b)
  also have "\<dots> = take (Suc i) ?b @ map x_out (take n (drop (Suc i) ?b)) @ drop (Suc i + n) ?b"
    using Suc.prems by (intro Suc.IH) simp
  also have "take (Suc i) ?b = take i buf @ [x_out (buf ! i)]"
    using Suc.prems by (simp add: take_Suc_conv_app_nth)
  also have "take (Suc n) (drop i buf) = buf ! i # take n (drop (Suc i) buf)"
    using Suc.prems by (simp add: Cons_nth_drop_Suc [symmetric])
  ultimately show ?case using \<open>take (Suc n) (drop i buf) = buf ! i # take n (drop (Suc i) buf)\<close>
    by simp
qed simp

lemma byte_at_file_write:
  assumes "0 \<le> at"
  shows "byte_at (file_write at d f) i =
    (if nat at \<le> i \<and> i < nat at + length d then d ! (i - nat at) else byte_at f i)"
  using assms
  by (auto simp: byte_at_def file_write_def overwrite_def nth_append min_def)

lemma byte_at_read:
  assumes "0 \<le> at" and "nat n \<le> length buf" and "set buf \<subseteq> {NUL}" and "i < nat n"
  shows "overwrite buf 0 (file_read at n f) ! i = byte_at f (nat at + i)"
proof -
  have "buf ! i = NUL" if "i < length buf" for i using assms(3) that nth_mem by fastforce
  with assms show ?thesis
    by (auto simp: overwrite_start file_read_def nth_append byte_at_def)
qed

section \<open>The invariant\<close>

fun holding_record :: "rec_pc \<Rightarrow> bool" where
  "holding_record R_Read = True"
| "holding_record R_Write = True"
| "holding_record R_Unlock = True"
| "holding_record _ = False"

definition lock_held :: "rec_state \<Rightarrow> nat \<Rightarrow> bool" where
  "lock_held s p \<longleftrightarrow> (\<exists>r. lock_range (record_start (rproc s p)) (record_len (rproc s p)) = Some r \<and>
     \<lparr>owner = p, ltype = F_WRLCK, lrange = r\<rparr> \<in> set (rlocks s))"

definition data_read :: "bytes \<Rightarrow> rec_proc \<Rightarrow> bool" where
  "data_read f q \<longleftrightarrow> 0 \<le> record_len q \<and> take (nat (record_len q)) (rbuf q) =
     map (\<lambda>i. x_out (byte_at f (nat (record_start q) + i))) [0..<nat (record_len q)]"

definition proc_ok :: "rec_state \<Rightarrow> nat \<Rightarrow> bool" where
  "proc_ok s p \<longleftrightarrow> (let q = rproc s p in
     (holding_record (rpc q) \<longrightarrow> lock_held s p) \<and>
     (rpc q = R_Lock \<or> rpc q = R_Read \<longrightarrow> record_len q \<le> int BUFSIZE) \<and>
     (rpc q \<in> {R_Args, R_Open, R_Lock, R_Read} \<longrightarrow> rbuf q = replicate BUFSIZE NUL) \<and>
     (rpc q = R_Write \<longrightarrow> data_read (rfile s) q))"

definition rec_inv :: "rec_state \<Rightarrow> bool" where
  "rec_inv s \<longleftrightarrow> table_ok (rlocks s) \<and> (\<forall>p. proc_ok s p)"

lemma lock_range_start: "lock_range start len = Some r \<Longrightarrow> 0 \<le> start"
  by (auto simp: lock_range_def split: if_splits)

lemma lock_range_pos: "lock_range start len = Some r \<Longrightarrow> 0 < len \<Longrightarrow> r = (start, Some (start + len))"
  by (auto simp: lock_range_def split: if_splits)

text \<open>A move of one process that leaves the file alone keeps what holds of the others.\<close>

lemma other_kept:
  assumes "proc_ok s p'" and "p' \<noteq> p" and "rfile t = rfile s" and "rproc t p' = rproc s p'"
    and "\<And>l. l \<in> set (rlocks s) \<Longrightarrow> owner l \<noteq> p \<Longrightarrow> l \<in> set (rlocks t)"
  shows "proc_ok t p'"
  using assms by (auto simp: proc_ok_def Let_def lock_held_def)

lemma rec_inv_move:
  assumes inv: "rec_inv s" and "table_ok (rlocks t)" and "rfile t = rfile s"
    and "\<And>p'. p' \<noteq> p \<Longrightarrow> rproc t p' = rproc s p'"
    and "\<And>l. l \<in> set (rlocks s) \<Longrightarrow> owner l \<noteq> p \<Longrightarrow> l \<in> set (rlocks t)"
    and "proc_ok t p"
  shows "rec_inv t"
proof -
  have "proc_ok t p'" for p'
  proof (cases "p' = p")
    case False
    show ?thesis
      by (rule other_kept [where s = s and p = p]) (use inv False assms in \<open>auto simp: rec_inv_def\<close>)
  qed (use assms in simp)
  with assms(2) show ?thesis by (simp add: rec_inv_def)
qed

lemma rec_inv_exit: "rec_inv s \<Longrightarrow> rec_inv (rec_exit p code q s)"
  by (rule rec_inv_move [where p = p])
    (auto simp: rec_exit_def set_proc_def drop_locks_def rec_inv_def table_ok_def proc_ok_def Let_def)

lemma rec_inv_set:
  assumes "rec_inv s" and "proc_ok (set_proc p q s) p" shows "rec_inv (set_proc p q s)"
  by (rule rec_inv_move [where p = p, OF assms(1)]) (use assms in \<open>auto simp: set_proc_def rec_inv_def\<close>)

lemma rec_inv_lock:
  assumes inv: "rec_inv s" and pc: "rpc (rproc s p) = R_Lock"
    and st: "rec_main R_Lock p (rproc s p) s = Some t"
  shows "rec_inv t"
proof (cases "record_lock p LOCK_T (record_start (rproc s p)) (record_len (rproc s p)) (rlocks s)")
  case (Inl e)
  with st show ?thesis by (auto intro: rec_inv_exit [OF inv])
next
  case (Inr tbl)
  have "table_ok (rlocks s)" using inv by (simp add: rec_inv_def)
  note takes = record_lock_takes [OF Inr this]
  have t: "t = set_proc p ((rproc s p)\<lparr>rpc := R_Read\<rparr>) (s\<lparr>rlocks := tbl\<rparr>)" using st Inr by simp
  have "proc_ok s p" using inv by (simp add: rec_inv_def)
  with pc takes(2) have "proc_ok t p" by (simp add: t proc_ok_def Let_def set_proc_def lock_held_def)
  then show ?thesis
    by (intro rec_inv_move [where p = p, OF inv]) (use takes in \<open>auto simp: t set_proc_def\<close>)
qed

lemma rec_inv_unlock:
  assumes inv: "rec_inv s" and pc: "rpc (rproc s p) = R_Unlock"
    and st: "rec_main R_Unlock p (rproc s p) s = Some t"
  shows "rec_inv t"
proof (cases "record_lock p UNLOCK_T (record_start (rproc s p)) (record_len (rproc s p)) (rlocks s)")
  case (Inl e)
  with st show ?thesis by (auto intro: rec_inv_exit [OF inv])
next
  case (Inr tbl)
  have "table_ok (rlocks s)" using inv by (simp add: rec_inv_def)
  note gives = record_lock_gives_up [OF Inr this]
  have t: "t = set_proc p ((rproc s p)\<lparr>rpc := R_Close\<rparr>) (s\<lparr>rlocks := tbl\<rparr>)" using st Inr by simp
  have "proc_ok t p" by (simp add: t proc_ok_def Let_def set_proc_def)
  then show ?thesis
    by (intro rec_inv_move [where p = p, OF inv]) (use gives in \<open>auto simp: t set_proc_def\<close>)
qed

lemma rec_inv_read:
  assumes inv: "rec_inv s" and pc: "rpc (rproc s p) = R_Read"
    and st: "rec_main R_Read p (rproc s p) s = Some t"
  shows "rec_inv t"
proof (cases "record_len (rproc s p) < 0")
  case True
  with st show ?thesis by (auto intro: rec_inv_exit [OF inv])
next
  case False
  let ?q = "rproc s p"
  let ?b = "overwrite (rbuf ?q) 0 (file_read (record_start ?q) (record_len ?q) (rfile s))"
  have ok: "proc_ok s p" using inv by (simp add: rec_inv_def)
  have buf: "rbuf ?q = replicate BUFSIZE NUL" and le: "record_len ?q \<le> int BUFSIZE"
    and held: "lock_held s p"
    using ok pc by (auto simp: proc_ok_def Let_def)
  have start: "0 \<le> record_start ?q" using held by (auto simp: lock_held_def dest: lock_range_start)
  have lb: "length ?b = BUFSIZE" using buf le False
    by (subst length_overwrite) (auto simp: file_read_def)
  have rd: "?b ! i = byte_at (rfile s) (nat (record_start ?q) + i)" if "i < nat (record_len ?q)" for i
    using le False that start
    by (intro byte_at_read) (auto simp: buf)
  have n: "nat (record_len ?q) \<le> length ?b" using lb le by simp
  have take_b: "map x_out (take (nat (record_len ?q)) ?b) =
      map (\<lambda>i. x_out (byte_at (rfile s) (nat (record_start ?q) + i))) [0..<nat (record_len ?q)]"
    by (rule nth_equalityI) (use n rd in auto)
  obtain out' where t: "t = set_proc p (?q\<lparr>rpc := R_Write,
      rbuf := modify_loop (nat (record_len ?q)) 0 ?b, rout := out'\<rparr>) s"
    using st False by (auto simp: Let_def)
  have "take (nat (record_len ?q)) (modify_loop (nat (record_len ?q)) 0 ?b) =
      map x_out (take (nat (record_len ?q)) ?b)"
    using modify_loop_map [of 0 "nat (record_len ?q)" ?b] n by simp
  with take_b held False have "proc_ok t p"
    by (simp add: t proc_ok_def Let_def set_proc_def data_read_def lock_held_def)
  then show ?thesis unfolding t by (rule rec_inv_set [OF inv])
qed

text \<open>The write of one process is outside every range that another process has locked.\<close>

lemma locked_apart:
  assumes "rec_inv s" and "p \<noteq> p'" and "lock_held s p" and "lock_held s p'"
    and "0 < record_len (rproc s p)" and "0 < record_len (rproc s p')"
  shows "record_start (rproc s p) + record_len (rproc s p) \<le> record_start (rproc s p') \<or>
    record_start (rproc s p') + record_len (rproc s p') \<le> record_start (rproc s p)"
proof -
  let ?q = "rproc s p" and ?q' = "rproc s p'"
  have "\<not> overlap (record_start ?q, Some (record_start ?q + record_len ?q))
      (record_start ?q', Some (record_start ?q' + record_len ?q'))"
    using assms unfolding rec_inv_def table_ok_def lock_held_def
    by (metis file_lock.select_convs(1) file_lock.select_convs(3) lock_range_pos)
  then show ?thesis using assms(5,6)
    by (auto simp: overlap_def in_range_def ends_after_def max_def split: if_splits)
qed

lemma write_masks:
  assumes inv: "rec_inv s" and pc: "rpc (rproc s p) = R_Write"
    and st: "rec_main R_Write p (rproc s p) s = Some t"
  shows "byte_at (rfile t) i =
    (if nat (record_start (rproc s p)) \<le> i \<and>
        i < nat (record_start (rproc s p)) + nat (record_len (rproc s p))
     then x_out (byte_at (rfile s) i) else byte_at (rfile s) i)"
proof -
  let ?q = "rproc s p"
  have ok: "proc_ok s p" using inv by (simp add: rec_inv_def)
  then have d: "data_read (rfile s) ?q" and held: "lock_held s p"
    using pc by (auto simp: proc_ok_def Let_def)
  have start: "0 \<le> record_start ?q" using held by (auto simp: lock_held_def dest: lock_range_start)
  have t: "rfile t = file_write (record_start ?q) (take (nat (record_len ?q)) (rbuf ?q)) (rfile s)"
    using st by (auto simp: set_proc_def)
  have data: "take (nat (record_len ?q)) (rbuf ?q) =
      map (\<lambda>i. x_out (byte_at (rfile s) (nat (record_start ?q) + i))) [0..<nat (record_len ?q)]"
    using d by (simp add: data_read_def)
  show ?thesis unfolding t data by (auto simp: byte_at_file_write [OF start])
qed

lemma rec_inv_write:
  assumes inv: "rec_inv s" and pc: "rpc (rproc s p) = R_Write"
    and st: "rec_main R_Write p (rproc s p) s = Some t"
  shows "rec_inv t"
proof -
  have t: "rlocks t = rlocks s" "\<And>p'. p' \<noteq> p \<Longrightarrow> rproc t p' = rproc s p'"
    "rpc (rproc t p) = R_Unlock" "record_start (rproc t p) = record_start (rproc s p)"
    "record_len (rproc t p) = record_len (rproc s p)"
    using st by (auto simp: set_proc_def)
  have okp: "proc_ok s p" and tbl: "table_ok (rlocks s)" using inv by (auto simp: rec_inv_def)
  have held: "lock_held s p" using okp pc by (simp add: proc_ok_def Let_def)
  then have "proc_ok t p" by (simp add: proc_ok_def Let_def t lock_held_def)
  moreover have "proc_ok t p'" if "p' \<noteq> p" for p'
  proof -
    let ?q' = "rproc s p'"
    have ok': "proc_ok s p'" using inv by (simp add: rec_inv_def)
    have "data_read (rfile t) ?q'" if w: "rpc ?q' = R_Write"
    proof -
      have d: "data_read (rfile s) ?q'" and h: "lock_held s p'"
        using ok' w by (auto simp: proc_ok_def Let_def)
      have st': "0 \<le> record_start ?q'" "0 \<le> record_start (rproc s p)"
        using h held by (auto simp: lock_held_def dest: lock_range_start)
      have "byte_at (rfile t) (nat (record_start ?q') + i) = byte_at (rfile s) (nat (record_start ?q') + i)"
        if "i < nat (record_len ?q')" for i
      proof -
        have "\<not> (nat (record_start (rproc s p)) \<le> nat (record_start ?q') + i \<and>
            nat (record_start ?q') + i <
              nat (record_start (rproc s p)) + nat (record_len (rproc s p)))"
          using st' that locked_apart [OF inv \<open>p' \<noteq> p\<close> h held] by linarith
        with write_masks [OF inv pc st, of "nat (record_start ?q') + i"] show ?thesis by presburger
      qed
      with d show ?thesis by (simp add: data_read_def)
    qed
    with ok' t(1,2) that show ?thesis by (simp add: proc_ok_def Let_def lock_held_def)
  qed
  ultimately have "proc_ok t p'" for p' by (cases "p' = p") auto
  then show ?thesis using tbl t(1) by (simp add: rec_inv_def)
qed

lemma rec_inv_step:
  assumes inv: "rec_inv s" and st: "rec_step a s = Some t" shows "rec_inv t"
proof (cases a)
  case (Rec p)
  have ok: "proc_ok s p" using inv by (simp add: rec_inv_def)
  show ?thesis
  proof (cases "rpc (rproc s p)")
    case R_Args
    with Rec st ok show ?thesis
      by (auto split: if_splits simp: proc_ok_def Let_def set_proc_def
          intro!: rec_inv_exit [OF inv] rec_inv_set [OF inv, unfolded set_proc_def])
  next
    case R_Open
    with Rec st ok show ?thesis
      by (auto split: if_splits simp: proc_ok_def Let_def set_proc_def
          intro!: rec_inv_exit [OF inv] rec_inv_set [OF inv, unfolded set_proc_def])
  next
    case R_Close
    with Rec st show ?thesis by (auto intro: rec_inv_exit [OF inv])
  qed (use Rec st rec_inv_lock [OF inv] rec_inv_read [OF inv] rec_inv_write [OF inv]
      rec_inv_unlock [OF inv] in \<open>auto simp del: rec_main.simps(3-7)\<close>)
next
  case (Rec_Fails p e)
  have ok: "proc_ok s p" using inv by (simp add: rec_inv_def)
  show ?thesis
  proof (cases "rpc (rproc s p)")
    case R_Write
    with Rec_Fails st ok show ?thesis
      by (auto simp: proc_ok_def Let_def set_proc_def lock_held_def
          intro!: rec_inv_set [OF inv, unfolded set_proc_def])
  qed (use Rec_Fails st in \<open>auto intro: rec_inv_exit [OF inv]\<close>)
qed

interpretation rec: inductive_invariant rec_step "rec_init f args rest" rec_inv for f args rest
proof unfold_locales
  show "rec_inv (rec_init f args rest)"
    by (simp add: rec_inv_def table_ok_def rec_init_def proc_ok_def Let_def)
qed (rule rec_inv_step)

text \<open>The bytes of the file over a whole run: each is the original one or its replacement.\<close>

definition only_masked :: "bytes \<Rightarrow> rec_state \<Rightarrow> bool" where
  "only_masked f s \<longleftrightarrow> rec_inv s \<and>
     (\<forall>i. byte_at (rfile s) i = byte_at f i \<or> byte_at (rfile s) i = x_out (byte_at f i))"

lemma x_out_idem [simp]: "x_out (x_out c) = x_out c"
  by (simp add: x_out_def)

lemma rec_step_file:
  assumes "rec_step a s = Some t"
  shows "rfile t = rfile s \<or> (\<exists>p. a = Rec p \<and> rpc (rproc s p) = R_Write)"
  using assms
  by (cases a; cases "rpc (rproc s (case a of Rec p \<Rightarrow> p | Rec_Fails p e \<Rightarrow> p))")
    (auto simp: rec_exit_def set_proc_def Let_def split: sum.splits if_splits)

interpretation rec_file: inductive_invariant rec_step "rec_init f args rest" "only_masked f" for f args rest
proof unfold_locales
  show "only_masked f (rec_init f args rest)"
    using rec.inv_init by (simp add: only_masked_def) (simp add: rec_init_def)
next
  fix s a t
  assume m: "only_masked f s" and st: "rec_step a s = Some t"
  then have inv: "rec_inv s" by (simp add: only_masked_def)
  from rec_step_file [OF st] show "only_masked f t"
  proof
    assume "rfile t = rfile s"
    with m rec_inv_step [OF inv st] show ?thesis by (simp add: only_masked_def)
  next
    assume "\<exists>p. a = Rec p \<and> rpc (rproc s p) = R_Write"
    then obtain p where "rpc (rproc s p) = R_Write" "rec_main R_Write p (rproc s p) s = Some t"
      using st by auto
    from write_masks [OF inv this]
    have "byte_at (rfile t) i = byte_at (rfile s) i \<or> byte_at (rfile t) i = x_out (byte_at (rfile s) i)"
      for i by presburger
    with m rec_inv_step [OF inv st] show ?thesis unfolding only_masked_def by (metis x_out_idem)
  qed
qed

section \<open>Properties\<close>

text \<open>
  C1: under every interleaving of any number of processes and any failures, the write of a
  process does to the shared file exactly what an atomic replacement of its record would:
  inside the record each 0 and 9 the file holds at that moment becomes x, and no other byte
  changes. The buffer read earlier is still what the file holds, because the range is locked.
\<close>

theorem record_update_atomic:
  assumes "reach rec_step (rec_init f args rest) s" and "rpc (rproc s p) = R_Write"
    and "rec_step (Rec p) s = Some t"
  shows "byte_at (rfile t) i =
    (if nat (record_start (rproc s p)) \<le> i \<and>
        i < nat (record_start (rproc s p)) + nat (record_len (rproc s p))
     then x_out (byte_at (rfile s) i) else byte_at (rfile s) i)"
  using assms(2,3) by (intro write_masks [OF rec.inv_reach [OF assms(1)]]) simp_all

definition sample_args :: "nat \<Rightarrow> string list" where
  "sample_args p = (if p = 0 then [''lock'', ''f'', ''0'', ''3''] else [''lock'', ''f'', ''2'', ''3''])"

definition rec_run :: "rec_actor list \<Rightarrow> rec_state" where
  "rec_run as = run_schedule rec_step as (rec_init ''90129'' sample_args (\<lambda>_. []))"

lemma rec_run_reach: "reach rec_step (rec_init ''90129'' sample_args (\<lambda>_. [])) (rec_run as)"
  unfolding rec_run_def by (rule reach_run_schedule [OF reach_init])

theorem record_update_atomic_witness: "rfile (rec_run (replicate 5 (Rec 0))) ! 1 = CHR ''x''"
proof -
  let ?s = "rec_run (replicate 4 (Rec 0))" and ?t = "rec_run (replicate 5 (Rec 0))"
  have pc: "rpc (rproc ?s 0) = R_Write" by code_simp
  have "rec_step (Rec 0) ?s \<noteq> None" using pc by simp
  moreover have "replicate 5 (Rec 0) = replicate 4 (Rec 0) @ [Rec 0]"
    by (simp add: numeral_eq_Suc)
  then have "?t = (case rec_step (Rec 0) ?s of None \<Rightarrow> ?s | Some t \<Rightarrow> t)"
    by (simp only: rec_run_def run_schedule_append run_schedule.simps)
  ultimately have st: "rec_step (Rec 0) ?s = Some ?t" by auto
  have v: "byte_at (rfile ?s) 1 = CHR ''0''" "record_start (rproc ?s 0) = 0"
    "record_len (rproc ?s 0) = 3" "length (rfile ?t) = 5" by code_simp+
  show ?thesis using record_update_atomic [OF rec_run_reach pc st, of 1] v
    by (simp add: byte_at_def x_out_def)
qed

text \<open>
  C22: two processes between the successful lock and the unlock have records that do not
  overlap.
\<close>

theorem record_locks_exclusive:
  assumes "reach rec_step (rec_init f args rest) s" and "p \<noteq> p'"
    and "holding_record (rpc (rproc s p))" and "holding_record (rpc (rproc s p'))"
    and "0 < record_len (rproc s p)" and "0 < record_len (rproc s p')"
  shows "record_start (rproc s p) + record_len (rproc s p) \<le> record_start (rproc s p') \<or>
    record_start (rproc s p') + record_len (rproc s p') \<le> record_start (rproc s p)"
proof -
  have inv: "rec_inv s" by (rule rec.inv_reach [OF assms(1)])
  then have "proc_ok s p" "proc_ok s p'" by (auto simp: rec_inv_def)
  with assms(3,4) have "lock_held s p" "lock_held s p'" by (auto simp: proc_ok_def Let_def)
  then show ?thesis by (rule locked_apart [OF inv assms(2) _ _ assms(5,6)])
qed

theorem record_locks_exclusive_witness:
  "let s = run_schedule rec_step (replicate 3 (Rec 0) @ replicate 3 (Rec 1))
       (rec_init ''90129'' (\<lambda>p. [''lock'', ''f'', dec (int p), ''1'']) (\<lambda>_. []))
   in record_start (rproc s 0) + record_len (rproc s 0) \<le> record_start (rproc s 1) \<or>
     record_start (rproc s 1) + record_len (rproc s 1) \<le> record_start (rproc s 0)"
  unfolding Let_def
proof (rule record_locks_exclusive [OF reach_run_schedule [OF reach_init]])
  let ?s = "run_schedule rec_step (replicate 3 (Rec 0) @ replicate 3 (Rec 1))
       (rec_init ''90129'' (\<lambda>p. [''lock'', ''f'', dec (int p), ''1'']) (\<lambda>_. []))"
  show "holding_record (rpc (rproc ?s 0))" "holding_record (rpc (rproc ?s 1))"
    "0 < record_len (rproc ?s 0)" "0 < record_len (rproc ?s 1)" by code_simp+
qed simp

text \<open>
  C23: whatever the processes, their arguments, the interleaving and the failures, no byte of
  the file ever becomes anything but itself or, where it is a 0 or a 9, an x; bytes past
  the old end of the file count as zero bytes.
\<close>

theorem record_file_only_masked:
  assumes "reach rec_step (rec_init f args rest) s"
  shows "byte_at (rfile s) i = byte_at f i \<or> byte_at (rfile s) i = x_out (byte_at f i)"
  using rec_file.inv_reach [OF assms] by (simp add: only_masked_def)

theorem record_file_only_masked_witness:
  "byte_at (rfile (rec_run (replicate 9 (Rec 1)))) 3 \<in> {CHR ''2'', x_out (CHR ''2'')}"
proof -
  have "byte_at ''90129'' 3 = CHR ''2''" by code_simp
  with record_file_only_masked [OF rec_run_reach, of "replicate 9 (Rec 1)" 3] show ?thesis by simp
qed

end
