(* ===== verification/Posix_Semaphore.thy ===== *)
theory Posix_Semaphore
  imports C_Library Interleaving
begin

text \<open>
  \<open>POSIX/sem_posix_example.c\<close>: two threads enter a critical section by \<open>sem_wait\<close>, a third
  one by a \<open>sem_trywait\<close> retry loop. The texts the program prints are Korean; the model has a
  message with the source's argument for each of them. A failing \<open>sem_init\<close>, a
  \<open>sem_trywait\<close> that fails for another reason than \<open>EAGAIN\<close> and a failing \<open>pthread_create\<close> are moves
  of their own. The source ignores the result of \<open>pthread_create\<close>: when it fails there is no thread,
  and \<open>main\<close> joins through an uninitialised variable, which is undefined; the run then has no further
  move.
\<close>

section \<open>State\<close>

datatype sem_user = U0 | U1 | U2

datatype sem_text =
    Waiting int | Acquired int | Returned int \<comment> \<open>the three messages of \<open>thread_t1\<close>\<close>
  | No_resource int | Acquired_by_try int \<comment> \<open>of \<open>thread_t2\<close>, which returns with the same text\<close>
  | All_finished

datatype user_pc =
    U_None | U_Start | U_Wait | U_Try | U_Again | U_Enter | U_Leave | U_Post | U_Done

datatype posix_main_pc =
    M_Init | M_Create sem_user | M_Join sem_user | M_Destroy | M_Print | M_Exited int
  | M_Undefined \<comment> \<open>joined a thread that was never created\<close>

record posix_sem =
  sem :: nat
  upc :: "sem_user \<Rightarrow> user_pc"
  my_tidx :: "sem_user \<Rightarrow> int"
  pout :: "sem_text list"
  perr :: string
  pmain :: posix_main_pc

datatype posix_actor = Posix_Main | User sem_user | Init_Fails string | Trywait_Fails sem_user string | Create_Fails

text \<open>The Korean word for error, in UTF-8.\<close>

definition error_word :: string where
  "error_word = [CHR 0xEC, CHR 0x97, CHR 0x90, CHR 0xEB, CHR 0x9F, CHR 0xAC]"

definition user_arg :: "sem_user \<Rightarrow> int" where
  "user_arg u = (case u of U0 \<Rightarrow> 0 | U1 \<Rightarrow> 1 | U2 \<Rightarrow> 2)"

definition posix_init :: posix_sem where
  "posix_init = \<lparr>sem = 0, upc = (\<lambda>_. U_None), my_tidx = (\<lambda>_. 0), pout = [], perr = [], pmain = M_Init\<rparr>"

section \<open>Steps\<close>

definition goto_u :: "sem_user \<Rightarrow> user_pc \<Rightarrow> posix_sem \<Rightarrow> posix_sem" where
  "goto_u u pc s = s\<lparr>upc := (upc s)(u := pc)\<rparr>"

definition say :: "sem_text \<Rightarrow> posix_sem \<Rightarrow> posix_sem" where
  "say m s = s\<lparr>pout := pout s @ [m]\<rparr>"

definition sem_wait :: "posix_sem \<Rightarrow> posix_sem option" where
  "sem_wait s = (if 0 < sem s then Some (s\<lparr>sem := sem s - 1\<rparr>) else None)"

definition sem_post :: "posix_sem \<Rightarrow> posix_sem" where
  "sem_post s = s\<lparr>sem := sem s + 1\<rparr>"

fun thread_t1 :: "user_pc \<Rightarrow> sem_user \<Rightarrow> posix_sem \<Rightarrow> posix_sem option" where
  "thread_t1 U_Start u s =
     Some (goto_u u U_Wait (say (Waiting (user_arg u)) (s\<lparr>my_tidx := (my_tidx s)(u := user_arg u)\<rparr>)))"
| "thread_t1 U_Wait u s = map_option (goto_u u U_Enter) (sem_wait s)"
| "thread_t1 U_Enter u s = Some (goto_u u U_Leave (say (Acquired (my_tidx s u)) s))"
| "thread_t1 U_Leave u s = Some (goto_u u U_Post (say (Returned (my_tidx s u)) s))"
| "thread_t1 U_Post u s = Some (goto_u u U_Done (sem_post s))"
| "thread_t1 _ u s = None"

fun thread_t2 :: "user_pc \<Rightarrow> sem_user \<Rightarrow> posix_sem \<Rightarrow> posix_sem option" where
  "thread_t2 U_Start u s = Some (goto_u u U_Try (s\<lparr>my_tidx := (my_tidx s)(u := user_arg u)\<rparr>))"
| "thread_t2 U_Try u s = Some (case sem_wait s of
     Some s' \<Rightarrow> goto_u u U_Enter s'
   | None \<Rightarrow> goto_u u U_Again (say (No_resource (my_tidx s u)) s))"
| "thread_t2 U_Again u s = Some (goto_u u U_Try s)"
| "thread_t2 U_Enter u s = Some (goto_u u U_Leave (say (Acquired_by_try (my_tidx s u)) s))"
| "thread_t2 U_Leave u s = Some (goto_u u U_Post (say (Returned (my_tidx s u)) s))"
| "thread_t2 U_Post u s = Some (goto_u u U_Done (sem_post s))"
| "thread_t2 _ u s = None"

definition user_thread :: "sem_user \<Rightarrow> posix_sem \<Rightarrow> posix_sem option" where
  "user_thread u s = (if u = U2 then thread_t2 (upc s u) u s else thread_t1 (upc s u) u s)"

definition after_create :: "sem_user \<Rightarrow> posix_main_pc" where
  "after_create u = (case u of U0 \<Rightarrow> M_Create U1 | U1 \<Rightarrow> M_Create U2 | U2 \<Rightarrow> M_Join U0)"

definition after_join :: "sem_user \<Rightarrow> posix_main_pc" where
  "after_join u = (case u of U0 \<Rightarrow> M_Join U1 | U1 \<Rightarrow> M_Join U2 | U2 \<Rightarrow> M_Destroy)"

fun posix_main :: "posix_main_pc \<Rightarrow> posix_sem \<Rightarrow> posix_sem option" where
  "posix_main M_Init s = Some (s\<lparr>sem := 1, pmain := M_Create U0\<rparr>)"
| "posix_main (M_Create u) s = Some (goto_u u U_Start (s\<lparr>pmain := after_create u\<rparr>))"
| "posix_main (M_Join u) s = 
     (if upc s u = U_None then Some (s\<lparr>pmain := M_Undefined\<rparr>)
      else if upc s u = U_Done then Some (s\<lparr>pmain := after_join u\<rparr>) else None)"
| "posix_main M_Destroy s = Some (s\<lparr>pmain := M_Print\<rparr>)"
| "posix_main M_Print s = Some (say All_finished (s\<lparr>pmain := M_Exited 0\<rparr>))"
| "posix_main (M_Exited code) s = None"
| "posix_main M_Undefined s = None"

definition posix_over :: "posix_sem \<Rightarrow> bool" where
  "posix_over s \<longleftrightarrow> (case pmain s of M_Exited _ \<Rightarrow> True | M_Undefined \<Rightarrow> True | _ \<Rightarrow> False)"

fun posix_step :: "posix_actor \<Rightarrow> posix_sem \<Rightarrow> posix_sem option" where
  "posix_step Posix_Main s = posix_main (pmain s) s"
| "posix_step (User u) s = (if posix_over s then None else user_thread u s)"
| "posix_step (Init_Fails e) s =
     (if pmain s = M_Init
      then Some (s\<lparr>perr := perr s @ perror_text (''sem_init '' @ error_word) e, pmain := M_Exited 1\<rparr>) else None)"
| "posix_step (Trywait_Fails u e) s =
     (if u = U2 \<and> upc s u = U_Try \<and> \<not> posix_over s
      then Some (s\<lparr>perr := perr s @ perror_text (''sem_trywait '' @ error_word) e, pmain := M_Exited 1\<rparr>) else None)"
| "posix_step Create_Fails s = (case pmain s of M_Create u \<Rightarrow> Some (s\<lparr>pmain := after_create u\<rparr>) | _ \<Rightarrow> None)"

section \<open>The semaphore as a lock\<close>

lemma posix_step_cases:
  assumes "posix_step a s = Some s'"
  obtains (main) "a = Posix_Main" "posix_main (pmain s) s = Some s'"
    | (user) u where "a = User u" "\<not> posix_over s" "user_thread u s = Some s'"
    | (fails) e where "\<forall>u. a \<noteq> User u" "a \<noteq> Posix_Main" "s' = s\<lparr>perr := e, pmain := M_Exited 1\<rparr>"
        "\<not> posix_over s"
    | (no_thread) u where "a = Create_Fails" "pmain s = M_Create u" "s' = s\<lparr>pmain := after_create u\<rparr>"
  using assms by (cases a) (auto simp: posix_over_def split: if_splits posix_main_pc.splits)

lemma user_cases:
  assumes "user_thread u s = Some s'"
  obtains (start) "upc s u = U_Start" "upc s' u = (if u = U2 then U_Try else U_Wait)" "sem s' = sem s"
    | (wait) "upc s u = (if u = U2 then U_Try else U_Wait)" "upc s' u = U_Enter" "sem s = Suc (sem s')"
        "pout s' = pout s"
    | (busy) "u = U2" "upc s u = U_Try" "upc s' u = U_Again" "sem s = 0" "sem s' = 0"
        "pout s' = pout s @ [No_resource (my_tidx s u)]"
    | (again) "u = U2" "upc s u = U_Again" "upc s' u = U_Try" "sem s' = sem s" "pout s' = pout s"
    | (enter) "upc s u = U_Enter" "upc s' u = U_Leave" "sem s' = sem s"
        "pout s' = pout s @ [if u = U2 then Acquired_by_try (my_tidx s u) else Acquired (my_tidx s u)]"
    | (leave) "upc s u = U_Leave" "upc s' u = U_Post" "sem s' = sem s"
        "pout s' = pout s @ [Returned (my_tidx s u)]"
    | (post) "upc s u = U_Post" "upc s' u = U_Done" "sem s' = Suc (sem s)" "pout s' = pout s"
proof (cases "u = U2")
  case True
  then have "thread_t2 (upc s u) u s = Some s'" using assms by (simp add: user_thread_def)
  with True that show thesis
    by (cases "upc s u") (auto simp: goto_u_def say_def sem_wait_def sem_post_def split: if_splits)
next
  case False
  then have "thread_t1 (upc s u) u s = Some s'" using assms by (simp add: user_thread_def)
  with False that show thesis
    by (cases "upc s u") (auto simp: goto_u_def say_def sem_wait_def sem_post_def split: if_splits)
qed

lemma user_frame:
  assumes "user_thread u s = Some s'"
  shows "v \<noteq> u \<Longrightarrow> upc s' v = upc s v" and "v \<noteq> u \<Longrightarrow> my_tidx s' v = my_tidx s v"
    and "pmain s' = pmain s" and "upc s u \<noteq> U_None" and "upc s' u \<noteq> U_None"
  using assms
  by (cases "u = U2"; cases "upc s u";
      auto simp: user_thread_def goto_u_def say_def sem_wait_def sem_post_def split: if_splits)+

fun in_section :: "user_pc \<Rightarrow> bool" where
  "in_section U_Enter = True"
| "in_section U_Leave = True"
| "in_section U_Post = True"
| "in_section _ = False"

definition created :: "posix_main_pc \<Rightarrow> sem_user \<Rightarrow> bool" where
  "created m u \<longleftrightarrow> (case m of M_Init \<Rightarrow> False
     | M_Create v \<Rightarrow> (v = U1 \<and> u = U0) \<or> (v = U2 \<and> u \<noteq> U2)
     | _ \<Rightarrow> True)"

definition posix_ctl :: "posix_sem \<Rightarrow> bool" where
  "posix_ctl s \<longleftrightarrow> (\<forall>u. upc s u \<noteq> U_None \<longrightarrow> created (pmain s) u) \<and>
     (\<forall>u. (upc s u = U_Wait \<longrightarrow> u \<noteq> U2) \<and> (upc s u = U_Try \<or> upc s u = U_Again \<longrightarrow> u = U2))"

lemma user_all: "(\<forall>u. P u) \<longleftrightarrow> P U0 \<and> P U1 \<and> P U2"
  by (metis sem_user.exhaust)

lemma posix_ctl_step:
  assumes "posix_ctl s" and "posix_step a s = Some s'" shows "posix_ctl s'"
  using assms(2)
proof (cases rule: posix_step_cases)
  case main
  with assms(1) show ?thesis
    by (cases "pmain s")
      (auto simp: posix_ctl_def posix_over_def created_def goto_u_def say_def user_all after_create_def after_join_def
        split: if_splits sem_user.splits)
next
  case (user u)
  have fr: "upc s' v = upc s v" if "v \<noteq> u" for v using user_frame(1) [OF user(3) that] .
  have nn: "(upc s' v \<noteq> U_None) = (upc s v \<noteq> U_None)" for v
    using fr user_frame(4,5) [OF user(3)] by (cases "v = u") auto
  have m: "pmain s' = pmain s" by (rule user_frame(3) [OF user(3)])
  have pc: "(upc s' u = U_Wait \<longrightarrow> u \<noteq> U2) \<and> (upc s' u = U_Try \<or> upc s' u = U_Again \<longrightarrow> u = U2)"
    using user(3) by (cases rule: user_cases) auto
  have "(upc s' v = U_Wait \<longrightarrow> v \<noteq> U2) \<and> (upc s' v = U_Try \<or> upc s' v = U_Again \<longrightarrow> v = U2)" for v
    using pc fr assms(1) by (cases "v = u") (auto simp: posix_ctl_def)
  then show ?thesis using assms(1) m nn by (simp add: posix_ctl_def)
next
  case fails
  with assms(1) show ?thesis by (auto simp: posix_ctl_def created_def)
next
  case (no_thread u)
  with assms(1) show ?thesis
    by (cases u) (auto simp: posix_ctl_def created_def after_create_def)
qed

lemma posix_ctl_init: "posix_ctl posix_init"
  by (simp add: posix_ctl_def posix_init_def created_def)

definition inside :: "posix_sem \<Rightarrow> sem_user \<Rightarrow> nat" where
  "inside s u = of_bool (in_section (upc s u))"

definition sem_count :: "posix_sem \<Rightarrow> bool" where
  "sem_count s \<longleftrightarrow> sem s + inside s U0 + inside s U1 + inside s U2 = 1 \<or>
     sem s = 0 \<and> (\<forall>u. upc s u = U_None) \<and> (pmain s = M_Init \<or> posix_over s)"

lemma user_count:
  assumes "user_thread u s = Some s'"
  shows "sem s' + inside s' u = sem s + inside s u" and "v \<noteq> u \<Longrightarrow> inside s' v = inside s v"
proof -
  from assms show "sem s' + inside s' u = sem s + inside s u"
    by (cases rule: user_cases) (auto simp: inside_def split: if_splits)
  show "v \<noteq> u \<Longrightarrow> inside s' v = inside s v"
    using user_frame(1) [OF assms] by (simp add: inside_def)
qed

text \<open>Moves of \<open>main\<close> change no thread except by creating it.\<close>

lemma posix_main_frame:
  assumes "posix_main (pmain s) s = Some s'" and "posix_ctl s"
  shows "upc s' u = upc s u \<or> upc s u = U_None \<and> upc s' u = U_Start" and "my_tidx s' = my_tidx s"
  using assms
  by (cases "pmain s"; auto simp: posix_ctl_def created_def goto_u_def say_def split: if_splits)+

lemma inside_kept:
  "(\<And>u. upc s' u = upc s u \<or> upc s u = U_None \<and> upc s' u = U_Start) \<Longrightarrow> inside s' v = inside s v"
  by (auto simp: inside_def dest!: meta_spec [of _ v])

lemma sem_count_alive:
  "sem_count s \<Longrightarrow> pmain s \<noteq> M_Init \<Longrightarrow> \<not> posix_over s \<Longrightarrow> sem s + inside s U0 + inside s U1 + inside s U2 = 1"
  by (auto simp: sem_count_def)

lemma sem_count_main:
  assumes c: "sem_count s" and ctl: "posix_ctl s" and st: "posix_main (pmain s) s = Some s'"
  shows "sem_count s'"
proof (cases "pmain s = M_Init")
  case True
  then have "upc s u = U_None" for u using ctl by (auto simp: posix_ctl_def created_def)
  then show ?thesis using st True by (auto simp: sem_count_def inside_def)
next
  case False
  have "\<not> posix_over s" using st by (auto simp: posix_over_def split: posix_main_pc.splits)
  moreover have "sem s' = sem s" using st False by (cases "pmain s") (auto simp: goto_u_def say_def split: if_splits)
  moreover have "inside s' v = inside s v" for v
    using posix_main_frame(1) [OF st ctl] by (intro inside_kept) blast
  ultimately show ?thesis using sem_count_alive [OF c False] by (simp add: sem_count_def)
qed

lemma sem_count_step:
  assumes c: "sem_count s" and ctl: "posix_ctl s" and "posix_step a s = Some s'" shows "sem_count s'"
  using assms(3)
proof (cases rule: posix_step_cases)
  case main
  with sem_count_main [OF c ctl] show ?thesis by blast
next
  case (user u)
  have "created (pmain s) u" using ctl user_frame(4) [OF user(3)] by (auto simp: posix_ctl_def)
  then have "pmain s \<noteq> M_Init" by (auto simp: created_def)
  with sem_count_alive [OF c _ user(2)] show ?thesis
    using user_count [OF user(3)] by (cases u) (auto simp: sem_count_def)
next
  case fails
  then have "inside s' v = inside s v" for v by (simp add: inside_def)
  with fails c show ?thesis by (auto simp: sem_count_def posix_over_def)
next
  case (no_thread u)
  then have "inside s' v = inside s v" for v by (simp add: inside_def)
  moreover have "pmain s \<noteq> M_Init" "\<not> posix_over s" using no_thread by (auto simp: posix_over_def)
  ultimately show ?thesis using no_thread sem_count_alive [OF c] by (simp add: sem_count_def)
qed

section \<open>Invariants of the data\<close>

definition tidx_ok :: "posix_sem \<Rightarrow> bool" where
  "tidx_ok s \<longleftrightarrow> (\<forall>u. upc s u \<noteq> U_None \<and> upc s u \<noteq> U_Start \<longrightarrow> my_tidx s u = user_arg u)"

lemma tidx_user:
  assumes "tidx_ok s" and "user_thread u s = Some s'" shows "tidx_ok s'"
proof -
  have "my_tidx s' u = user_arg u"
    using assms by (cases "u = U2"; cases "upc s u")
      (auto simp: user_thread_def tidx_ok_def goto_u_def say_def sem_wait_def sem_post_def split: if_splits)
  with assms(1) user_frame(1,2) [OF assms(2)] show ?thesis unfolding tidx_ok_def by metis
qed

lemma only_one_inside:
  assumes "sem_count s" and "in_section (upc s u)" and "in_section (upc s v)" shows "u = v"
  using assms by (cases u; cases v) (auto simp: sem_count_def inside_def split: if_splits)

text \<open>\<open>main\<close> prints its last line only when all threads are done.\<close>

fun joined :: "posix_main_pc \<Rightarrow> sem_user \<Rightarrow> bool" where
  "joined (M_Join v) u = (v = U1 \<and> u = U0 \<or> v = U2 \<and> u \<noteq> U2)"
| "joined M_Destroy u = True"
| "joined M_Print u = True"
| "joined (M_Exited code) u = (code = 0)"
| "joined _ u = False"

definition main_ok :: "posix_sem \<Rightarrow> bool" where
  "main_ok s \<longleftrightarrow> (\<forall>u. joined (pmain s) u \<longrightarrow> upc s u = U_Done) \<and>
     (pmain s = M_Exited 0 \<longrightarrow> (\<exists>ms. pout s = ms @ [All_finished])) \<and>
     (\<forall>code. pmain s = M_Exited code \<longrightarrow> code = 0 \<or> code = 1)"

definition posix_inv :: "posix_sem \<Rightarrow> bool" where
  "posix_inv s \<longleftrightarrow> posix_ctl s \<and> sem_count s \<and> tidx_ok s \<and> main_ok s"

lemma main_ok_step:
  assumes m: "main_ok s" and "posix_step a s = Some s'" shows "main_ok s'"
  using assms(2)
proof (cases rule: posix_step_cases)
  case main
  with m show ?thesis
    by (cases "pmain s") (auto simp: main_ok_def goto_u_def say_def user_all after_create_def after_join_def
        split: if_splits sem_user.splits)
next
  case (user u)
  have "upc s' v = U_Done" if "upc s v = U_Done" for v
    using that user_frame(1) [OF user(3), of v] user(3)
    by (cases "v = u") (auto elim!: user_cases split: if_splits)
  with m user(2) user_frame(3) [OF user(3)] show ?thesis
    by (auto simp: main_ok_def posix_over_def)
next
  case fails
  then show ?thesis by (simp add: main_ok_def)
next
  case (no_thread u)
  with m show ?thesis by (cases u) (simp_all add: main_ok_def after_create_def)
qed

lemma tidx_step:
  assumes t: "tidx_ok s" and ctl: "posix_ctl s" and "posix_step a s = Some s'" shows "tidx_ok s'"
  using assms(3)
proof (cases rule: posix_step_cases)
  case main
  note f = posix_main_frame [OF main(2) ctl]
  show ?thesis unfolding tidx_ok_def
  proof (intro allI impI)
    fix u assume "upc s' u \<noteq> U_None \<and> upc s' u \<noteq> U_Start"
    with t f(1) [of u] show "my_tidx s' u = user_arg u" by (auto simp: tidx_ok_def f(2))
  qed
next
  case (user u)
  with tidx_user [OF t] show ?thesis by blast
qed (use t in \<open>simp_all add: tidx_ok_def\<close>)

lemma posix_inv_step:
  assumes inv: "posix_inv s" and st: "posix_step a s = Some s'" shows "posix_inv s'"
  using inv posix_ctl_step [OF _ st] sem_count_step [OF _ _ st] tidx_step [OF _ _ st] main_ok_step [OF _ st]
  by (simp add: posix_inv_def)

interpretation posix: inductive_invariant posix_step posix_init posix_inv
proof unfold_locales
  have "sem_count posix_init" "tidx_ok posix_init" "main_ok posix_init"
    by (simp_all add: sem_count_def tidx_ok_def main_ok_def posix_init_def inside_def)
  then show "posix_inv posix_init" using posix_ctl_init by (simp add: posix_inv_def)
qed (rule posix_inv_step)

section \<open>Termination of the retry loop\<close>

fun user_rank :: "user_pc \<Rightarrow> nat" where
  "user_rank U_None = 7"
| "user_rank U_Start = 6"
| "user_rank U_Wait = 4"
| "user_rank U_Try = 4"
| "user_rank U_Again = 4"
| "user_rank U_Enter = 3"
| "user_rank U_Leave = 2"
| "user_rank U_Post = 1"
| "user_rank U_Done = 0"

fun posix_main_rank :: "posix_main_pc \<Rightarrow> nat" where
  "posix_main_rank M_Init = 9"
| "posix_main_rank (M_Create u) = (case u of U0 \<Rightarrow> 8 | U1 \<Rightarrow> 7 | U2 \<Rightarrow> 6)"
| "posix_main_rank (M_Join u) = (case u of U0 \<Rightarrow> 5 | U1 \<Rightarrow> 4 | U2 \<Rightarrow> 3)"
| "posix_main_rank M_Destroy = 2"
| "posix_main_rank M_Print = 1"
| "posix_main_rank (M_Exited code) = 0"
| "posix_main_rank M_Undefined = 0"

definition last_retry :: "posix_sem \<Rightarrow> nat" where
  "last_retry s = of_bool (upc s U2 = U_Again \<and> upc s U0 = U_Done \<and> upc s U1 = U_Done)"

definition posix_work :: "posix_sem \<Rightarrow> nat" where
  "posix_work s = 2 * (user_rank (upc s U0) + user_rank (upc s U1) + user_rank (upc s U2) +
     posix_main_rank (pmain s)) + last_retry s"

text \<open>A useful move: any move but the two of a retry that must be repeated.\<close>

definition useful :: "sem_user \<Rightarrow> posix_sem \<Rightarrow> bool" where
  "useful u s \<longleftrightarrow> (case upc s u of
       U_None \<Rightarrow> False | U_Done \<Rightarrow> False
     | U_Wait \<Rightarrow> 0 < sem s | U_Try \<Rightarrow> 0 < sem s
     | U_Again \<Rightarrow> upc s U0 = U_Done \<and> upc s U1 = U_Done
     | _ \<Rightarrow> True)"

lemma useful_moves:
  assumes "useful u s" and "posix_ctl s" shows "\<exists>s'. user_thread u s = Some s'"
  using assms by (cases "upc s u")
    (auto simp: useful_def posix_ctl_def user_thread_def sem_wait_def)

lemma try_after_all:
  assumes "sem_count s" and "upc s U0 = U_Done" and "upc s U1 = U_Done" and "upc s U2 = U_Try"
  shows "0 < sem s"
proof -
  have "upc s U0 \<noteq> U_None" using assms(2) by simp
  with assms show ?thesis by (auto simp: sem_count_def inside_def)
qed

lemma user_work:
  assumes st: "user_thread u s = Some s'" and c: "sem_count s"
  shows "posix_work s' \<le> posix_work s" and "useful u s \<Longrightarrow> posix_work s' < posix_work s"
    and "\<not> useful u s \<Longrightarrow> u = U2 \<and> sem s' = sem s \<and> posix_work s' = posix_work s"
proof -
  have fr: "upc s' w = upc s w" if "w \<noteq> u" for w using user_frame(1) [OF st that] .
  have m: "pmain s' = pmain s" by (rule user_frame(3) [OF st])
  have lr: "last_retry s' \<le> 1" by (simp add: last_retry_def)
  have drop: "posix_work s' < posix_work s" if "user_rank (upc s' u) < user_rank (upc s u)"
    using that fr m lr by (cases u) (auto simp: posix_work_def)
  from st have "posix_work s' \<le> posix_work s \<and> (useful u s \<longrightarrow> posix_work s' < posix_work s) \<and>
    (\<not> useful u s \<longrightarrow> u = U2 \<and> sem s' = sem s \<and> posix_work s' = posix_work s)"
  proof (cases rule: user_cases)
    case busy
    then have "\<not> (upc s U0 = U_Done \<and> upc s U1 = U_Done)" using try_after_all [OF c] by auto
    with busy fr [of U0] fr [of U1] m show ?thesis
      by (auto simp: posix_work_def last_retry_def useful_def)
  next
    case again
    with fr [of U0] fr [of U1] m show ?thesis
      by (auto simp: posix_work_def last_retry_def useful_def)
  qed (use drop in \<open>auto simp: useful_def split: if_splits\<close>)
  then show "posix_work s' \<le> posix_work s" "useful u s \<Longrightarrow> posix_work s' < posix_work s"
    "\<not> useful u s \<Longrightarrow> u = U2 \<and> sem s' = sem s \<and> posix_work s' = posix_work s"
    by blast+
qed

lemma posix_main_work:
  assumes "posix_main (pmain s) s = Some s'" and "posix_ctl s"
  shows "posix_work s' < posix_work s"
proof -
  have "last_retry s' \<le> last_retry s"
    using assms
    by (cases "pmain s"; auto simp: last_retry_def posix_ctl_def posix_over_def created_def goto_u_def say_def user_all after_create_def after_join_def
      split: if_splits)
  moreover have "user_rank (upc s' U0) + user_rank (upc s' U1) + user_rank (upc s' U2) +
      posix_main_rank (pmain s') < user_rank (upc s U0) + user_rank (upc s U1) +
      user_rank (upc s U2) + posix_main_rank (pmain s)"
    using assms
    by (cases "pmain s"; auto simp: posix_ctl_def posix_over_def created_def goto_u_def say_def user_all after_create_def after_join_def
      split: if_splits sem_user.splits)
  ultimately show ?thesis by (simp add: posix_work_def)
qed

lemma no_thread_work:
  assumes "pmain s = M_Create u" shows "posix_work (s\<lparr>pmain := after_create u\<rparr>) < posix_work s"
  using assms by (cases u) (simp_all add: posix_work_def last_retry_def after_create_def)

lemma some_useful:
  assumes inv: "posix_inv s" and ne: "\<not> posix_over s" and blocked: "posix_main (pmain s) s = None"
  shows "\<exists>u. useful u s"
proof -
  have c: "sem_count s" and main: "\<And>u. joined (pmain s) u \<Longrightarrow> upc s u = U_Done"
    and only2: "\<And>u. upc s u = U_Again \<Longrightarrow> u = U2"
    using inv by (auto simp: posix_inv_def posix_ctl_def main_ok_def)
  obtain v where v: "pmain s = M_Join v" "upc s v \<noteq> U_Done" "upc s v \<noteq> U_None"
    using blocked ne by (cases "pmain s") (auto simp: posix_over_def split: if_splits)
  show ?thesis
  proof (cases "\<exists>u. in_section (upc s u)")
    case True
    then obtain u where "in_section (upc s u)" by blast
    then have "useful u s" by (cases "upc s u") (auto simp: useful_def)
    then show ?thesis by blast
  next
    case False
    then have free: "0 < sem s" using sem_count_alive [OF c _ ne] v(1) by (simp add: inside_def)
    show ?thesis
    proof (cases "upc s v = U_Again")
      case True
      with only2 have "v = U2" by blast
      with main [of U0] main [of U1] v(1) True have "useful v s" by (simp add: useful_def)
      then show ?thesis by blast
    next
      case no: False
      with v(2,3) free have "useful v s" by (cases "upc s v") (auto simp: useful_def)
      then show ?thesis by blast
    qed
  qed
qed

lemma posix_finished_stable: "posix_over s \<Longrightarrow> posix_step a s = Some t \<Longrightarrow> posix_over t"
  by (cases a; cases "pmain s") (auto simp: posix_over_def split: if_splits)

lemma posix_never_up:
  assumes r: "reach posix_step posix_init s" and "posix_step a s = Some t"
  shows "posix_over t \<or> posix_work t \<le> posix_work s"
proof -
  have inv: "posix_ctl s" "sem_count s" using posix.inv_reach [OF r] by (auto simp: posix_inv_def)
  from \<open>posix_step a s = Some t\<close> show "posix_over t \<or> posix_work t \<le> posix_work s"
  proof (cases rule: posix_step_cases)
    case main
    with posix_main_work inv show ?thesis by (auto intro: less_imp_le)
  next
    case (user u)
    with user_work(1) inv show ?thesis by blast
  next
    case fails
    then show ?thesis by (simp add: posix_over_def)
  next
    case (no_thread u)
    with no_thread_work [of s u] show ?thesis by simp
  qed
qed

lemma posix_helpful:
  assumes r: "reach posix_step posix_init s" and ne: "\<not> posix_over s"
  shows "\<exists>a\<in>{Posix_Main, User U0, User U1, User U2}. \<exists>t. posix_step a s = Some t \<and>
    (posix_over t \<or> posix_work t < posix_work s)"
proof -
  have inv: "posix_inv s" by (rule posix.inv_reach [OF r])
  then have i: "posix_ctl s" "sem_count s" by (auto simp: posix_inv_def)
  show "\<exists>a\<in>{Posix_Main, User U0, User U1, User U2}. \<exists>t. posix_step a s = Some t \<and>
      (posix_over t \<or> posix_work t < posix_work s)"
  proof (cases "posix_main (pmain s) s")
    case None
    then obtain u where u: "useful u s" using some_useful [OF inv ne] by blast
    obtain t where t: "user_thread u s = Some t" using useful_moves [OF u i(1)] by blast
    have "posix_work t < posix_work s" by (rule user_work(2) [OF t i(2) u])
    with t ne have "posix_step (User u) s = Some t \<and> (posix_over t \<or> posix_work t < posix_work s)"
      by simp
    then show ?thesis by (cases u) auto
  next
    case (Some t)
    with posix_main_work [OF Some i(1)] show ?thesis by auto
  qed
qed

text \<open>A move that does not lower the measure is one of the third thread, and leaves the others as useful.\<close>

lemma idle_move:
  assumes r: "reach posix_step posix_init s" and ne: "\<not> posix_over s"
    and st2: "posix_step b s = Some t2" and ne2: "\<not> posix_over t2" and eq: "posix_work t2 = posix_work s"
  shows "b = User U2 \<and> sem t2 = sem s \<and> upc s U2 \<noteq> U_Done \<and> upc s U2 \<noteq> U_None \<and> (\<forall>w. w \<noteq> U2 \<longrightarrow> upc t2 w = upc s w) \<and> pmain t2 = pmain s"
proof -
  have i: "posix_ctl s" "sem_count s" using posix.inv_reach [OF r] by (auto simp: posix_inv_def)
  from st2 obtain u where u: "b = User u" "user_thread u s = Some t2" "\<not> useful u s"
  proof (cases rule: posix_step_cases)
    case main
    with posix_main_work [OF main(2) i(1)] eq show ?thesis by simp
  next
    case (user u)
    have "\<not> useful u s" using user_work(2) [OF user(3) i(2)] eq by auto
    then show ?thesis by (rule that [OF user(1,3)])
  next
    case fails
    with ne2 show ?thesis by (simp add: posix_over_def)
  next
    case (no_thread u)
    with no_thread_work [of s u] eq show ?thesis by simp
  qed
  with user_work(3) [OF u(2) i(2)] have u2: "u = U2" "sem t2 = sem s" by auto
  have nd: "upc s U2 \<noteq> U_Done" "upc s U2 \<noteq> U_None" using u(2) u2 by (auto simp: user_thread_def)
  have fr: "upc t2 w = upc s w" if "w \<noteq> U2" for w using user_frame(1) [OF u(2)] that u2 by simp
  have m: "pmain t2 = pmain s" by (rule user_frame(3) [OF u(2)])
  show ?thesis using u(1) u2 nd fr m by blast
qed

lemma posix_persists:
  assumes r: "reach posix_step posix_init s" and ne: "\<not> posix_over s"
    and a: "a \<in> {Posix_Main, User U0, User U1, User U2}" and st: "posix_step a s = Some t"
    and low: "posix_over t \<or> posix_work t < posix_work s" and st2: "posix_step b s = Some t2"
    and ba: "b \<noteq> a" and ne2: "\<not> posix_over t2" and eq: "posix_work t2 = posix_work s"
  shows "\<exists>t'. posix_step a t2 = Some t' \<and> (posix_over t' \<or> posix_work t' < posix_work t2)"
proof -
  have i: "posix_ctl s" "sem_count s" using posix.inv_reach [OF r] by (auto simp: posix_inv_def)
  have i2: "posix_ctl t2" "sem_count t2"
    using posix.inv_reach [OF reach_step [OF r st2]] by (auto simp: posix_inv_def)
  have u: "b = User U2" "sem t2 = sem s" and nd: "upc s U2 \<noteq> U_Done" "upc s U2 \<noteq> U_None" and m: "pmain t2 = pmain s"
    using idle_move [OF r ne st2 ne2 eq] by blast+
  have fr: "upc t2 w = upc s w" if "w \<noteq> U2" for w
    using idle_move [OF r ne st2 ne2 eq] that by blast
  show "\<exists>t'. posix_step a t2 = Some t' \<and> (posix_over t' \<or> posix_work t' < posix_work t2)"
  proof (cases "a = Posix_Main")
    case True
    then have "posix_main (pmain s) s = Some t" using st by simp
    then have "upc s v = U_Done \<or> upc s v = U_None" if "pmain s = M_Join v" for v using that by (simp split: if_splits)
    then have "upc t2 v = U_Done \<or> upc t2 v = U_None" if "pmain t2 = M_Join v" for v
      using that m fr nd by metis
    moreover have "pmain t2 \<noteq> M_Exited code" "pmain t2 \<noteq> M_Undefined" for code using ne m by (auto simp: posix_over_def)
    ultimately have "posix_main (pmain t2) t2 \<noteq> None" by (cases "pmain t2") auto
    then obtain t' where t': "posix_main (pmain t2) t2 = Some t'" by blast
    from posix_main_work [OF t' i2(1)] t' True show ?thesis by auto
  next
    case False
    with a ba u(1) obtain w where w: "a = User w" "w \<noteq> U2" by auto
    with st ne have tw: "user_thread w s = Some t" by simp
    from user_frame(3) [OF this] ne low have "posix_work t < posix_work s"
      by (simp add: posix_over_def)
    with user_work(3) [OF tw i(2)] have "useful w s" by auto
    moreover have "upc s w \<noteq> U_Again" using i(1) w(2) by (auto simp: posix_ctl_def)
    ultimately have uw: "useful w t2" using fr [OF w(2)] u(2) by (auto simp: useful_def split: user_pc.splits)
    obtain t' where t': "user_thread w t2 = Some t'" using useful_moves [OF uw i2(1)] by blast
    from user_work(2) [OF t' i2(2) uw] t' ne2 w(1) show ?thesis by auto
  qed
qed

interpretation posix_fair: fair_termination posix_step posix_init
  "{Posix_Main, User U0, User U1, User U2}" posix_work posix_over
proof (unfold_locales, goal_cases)
  case 1
  then show ?case using posix_finished_stable by blast
next
  case 2
  then show ?case using posix_never_up by blast
next
  case 3
  then show ?case by (rule posix_helpful)
next
  case 4
  then show ?case by (rule posix_persists)
qed

text \<open>The end is undefined only where a creation has failed.\<close>

definition all_made :: "posix_sem \<Rightarrow> bool" where
  "all_made s \<longleftrightarrow> pmain s \<noteq> M_Undefined \<and> (\<forall>u. created (pmain s) u \<longrightarrow> upc s u \<noteq> U_None \<or> posix_over s)"

lemma all_made_step:
  assumes m: "all_made s" and "posix_step a s = Some s'" and "a \<noteq> Create_Fails" shows "all_made s'"
  using assms(2)
proof (cases rule: posix_step_cases)
  case main
  with m show ?thesis
    by (cases "pmain s") (auto simp: all_made_def created_def posix_over_def goto_u_def say_def after_create_def after_join_def user_all
        split: sem_user.splits if_splits, metis sem_user.exhaust)
next
  case (user u)
  have "upc s v \<noteq> U_None \<Longrightarrow> upc s' v \<noteq> U_None" for v
    using user_frame(1,5) [OF user(3)] by (cases "v = u") simp_all
  with m user_frame(3) [OF user(3)] show ?thesis unfolding all_made_def posix_over_def by metis
next
  case fails
  then show ?thesis by (simp add: all_made_def posix_over_def)
qed (use assms(3) in simp)

lemma all_made_run:
  assumes "Create_Fails \<notin> set as" shows "all_made (run_schedule posix_step as posix_init)"
proof (rule run_schedule_keeps)
  show "all_made posix_init" by (simp add: all_made_def posix_init_def created_def)
qed (use assms all_made_step in blast)

section \<open>Properties\<close>

definition posix_schedule :: "posix_actor list" where
  "posix_schedule = replicate 4 Posix_Main @ [User U1, User U1, User U2, User U2, User U2] @
     replicate 3 (User U1) @ replicate 5 (User U2) @ replicate 5 (User U0) @ replicate 5 Posix_Main"

text \<open>
  At most one of the three threads is between a successful \<open>sem_wait\<close> or
  \<open>sem_trywait\<close> and the end of \<open>sem_post\<close>, and then the semaphore is zero.
\<close>

theorem posix_exclusion:
  assumes "reach posix_step posix_init s" and "in_section (upc s u)"
  shows "sem s = 0 \<and> (\<forall>v. in_section (upc s v) \<longrightarrow> v = u)"
proof (intro conjI allI impI)
  have c: "sem_count s" using posix.inv_reach [OF assms(1)] by (simp add: posix_inv_def)
  with assms(2) show "sem s = 0"
    by (cases u) (auto simp: sem_count_def inside_def split: if_splits)
  show "v = u" if "in_section (upc s v)" for v by (rule only_one_inside [OF c that assms(2)])
qed

theorem posix_exclusion_witness:
  "sem (run_schedule posix_step (take 9 posix_schedule) posix_init) = 0"
proof -
  have "in_section (upc (run_schedule posix_step (take 9 posix_schedule) posix_init) U1)" by code_simp
  with posix_exclusion [OF reach_run_schedule [OF reach_init]] show ?thesis by blast
qed

text \<open>
  C19: the \<open>goto retry\<close> loop does not starve the program: any 61 rounds of scheduling in which
  \<open>main\<close> and each thread get a turn end the process, although the loop alone could be
  repeated for ever; only where a creation of a thread has failed, the end is the undefined join.
\<close>

theorem posix_terminates:
  assumes "\<forall>r\<in>set rounds. {Posix_Main, User U0, User U1, User U2} \<subseteq> set r" and "61 \<le> length rounds"
    and "s = run_schedule posix_step (concat rounds) posix_init"
  shows "(\<exists>code. pmain s = M_Exited code) \<or> pmain s = M_Undefined \<and> Create_Fails \<in> set (concat rounds)"
proof -
  have "posix_work posix_init = 60" by (simp add: posix_work_def last_retry_def posix_init_def)
  with assms(2) have "posix_over s" unfolding assms(3)
    by (intro posix_fair.fair_rounds_finish [OF reach_init assms(1)]) simp
  moreover have "pmain s \<noteq> M_Undefined \<or> Create_Fails \<in> set (concat rounds)"
    using all_made_run [of "concat rounds"] assms(3) by (auto simp: all_made_def)
  ultimately show ?thesis by (auto simp: posix_over_def split: posix_main_pc.splits)
qed

theorem posix_terminates_witness:
  "\<exists>code. pmain (run_schedule posix_step
     (concat (replicate 61 [User U2, User U2, User U2, User U1, User U0, Posix_Main])) posix_init) = M_Exited code"
  using posix_terminates [of "replicate 61 [User U2, User U2, User U2, User U1, User U0, Posix_Main]", OF _ _ refl]
  by auto

end
