(* ===== verification/Semaphore_Visits.thy ===== *)
theory Semaphore_Visits
  imports Posix_Semaphore
begin

text \<open>
  What \<open>POSIX/sem_posix_example.c\<close> promises: a visit of the critical section is one step on the list of
  the texts printed there. The program refines this, and its result follows.
\<close>

section \<open>The specification\<close>

fun is_section_text :: "sem_text \<Rightarrow> bool" where
  "is_section_text (Acquired i) = True"
| "is_section_text (Acquired_by_try i) = True"
| "is_section_text (Returned i) = True"
| "is_section_text _ = False"

definition entry_text :: "sem_user \<Rightarrow> sem_text" where
  "entry_text u = (if u = U2 then Acquired_by_try 2 else Acquired (user_arg u))"

definition visit :: "sem_user \<Rightarrow> sem_text list" where
  "visit u = [entry_text u, Returned (user_arg u)]"

definition visits :: "sem_user \<Rightarrow> sem_text list \<Rightarrow> sem_text list \<Rightarrow> bool" where
  "visits u xs ys \<longleftrightarrow> ys = xs @ visit u"

lemma visits_in_turn: "in_turn visits us xs ys \<longleftrightarrow> ys = xs @ concat (map visit us)"
  by (induction us arbitrary: xs) (auto simp: visits_def)

section \<open>The program as seen from outside the sections\<close>

text \<open>
  A visit takes effect with its last text. Before, the first text of the thread that is inside is
  hidden.
\<close>

definition left :: "posix_sem \<Rightarrow> sem_user \<Rightarrow> bool" where
  "left s u \<longleftrightarrow> upc s u = U_Post \<or> upc s u = U_Done"

definition section_texts :: "posix_sem \<Rightarrow> sem_text list" where
  "section_texts s = filter is_section_text (pout s)"

definition visit_sim :: "posix_sem \<Rightarrow> sem_user set \<times> sem_text list \<Rightarrow> bool" where
  "visit_sim s V \<longleftrightarrow> fst V = {u. left s u} \<and>
     ((\<forall>u. upc s u \<noteq> U_Leave) \<longrightarrow> section_texts s = snd V) \<and>
     (\<forall>u. upc s u = U_Leave \<longrightarrow> section_texts s = snd V @ [entry_text u])"

lemma visit_sim_same:
  assumes "visit_sim s V" and "section_texts s' = section_texts s"
    and "\<And>u. (upc s' u = U_Leave) = (upc s u = U_Leave)" and "\<And>u. left s' u = left s u"
  shows "visit_sim s' V"
  using assms(1) unfolding visit_sim_def assms(2-4) .

lemma visit_sim_enter:
  assumes v: "visit_sim s V" and c: "sem_count s" and fr: "\<And>w. w \<noteq> u \<Longrightarrow> upc s' w = upc s w"
    and pc: "upc s u = U_Enter" "upc s' u = U_Leave" and out: "pout s' = pout s @ [entry_text u]"
  shows "visit_sim s' V"
proof -
  have nl: "upc s w \<noteq> U_Leave" for w using only_one_inside [OF c, of w u] pc by auto
  then have "section_texts s' = snd V @ [entry_text u]"
    using v out by (simp add: visit_sim_def section_texts_def entry_text_def)
  moreover have "upc s' w = U_Leave \<longleftrightarrow> w = u" for w using fr [of w] nl [of w] pc(2) by (cases "w = u") simp_all
  moreover have "left s' w = left s w" for w using fr [of w] pc by (cases "w = u") (simp_all add: left_def)
  ultimately show ?thesis using v by (simp add: visit_sim_def)
qed

lemma visit_sim_leave:
  assumes v: "visit_sim s V" and c: "sem_count s" and fr: "\<And>w. w \<noteq> u \<Longrightarrow> upc s' w = upc s w"
    and pc: "upc s u = U_Leave" "upc s' u = U_Post" and out: "pout s' = pout s @ [Returned (user_arg u)]"
  shows "\<exists>W. once visits V W \<and> visit_sim s' W"
proof -
  obtain T xs where V: "V = (T, xs)" by (cases V)
  have nl: "upc s' w \<noteq> U_Leave" for w
    using only_one_inside [OF c, of w u] fr [of w] pc by (cases "w = u") auto
  have "left s' w \<longleftrightarrow> w = u \<or> left s w" for w using fr [of w] pc by (cases "w = u") (simp_all add: left_def)
  moreover have "section_texts s' = xs @ visit u"
    using v pc out by (simp add: visit_sim_def section_texts_def visit_def V)
  ultimately have "visit_sim s' (insert u T, xs @ visit u)" using v nl by (auto simp: visit_sim_def V)
  moreover have "u \<notin> T" using v pc by (simp add: visit_sim_def V left_def)
  ultimately show ?thesis using once.acts [of u T visits xs "xs @ visit u"] V by (auto simp: visits_def)
qed

lemma user_start_out:
  assumes "user_thread u s = Some s'" and "upc s u = U_Start"
  shows "section_texts s' = section_texts s"
  using assms by (auto simp: section_texts_def user_thread_def goto_u_def say_def split: if_splits)

lemma posix_main_out:
  "posix_main (pmain s) s = Some s' \<Longrightarrow> section_texts s' = section_texts s"
  by (cases "pmain s") (auto simp: section_texts_def goto_u_def say_def split: if_splits)

lemma visit_sim_user:
  assumes v: "visit_sim s V" and c: "sem_count s" and t: "tidx_ok s" and st: "user_thread u s = Some s'"
  shows "visit_sim s' V \<or> (\<exists>W. once visits V W \<and> visit_sim s' W)"
proof -
  have fr: "upc s' w = upc s w" if "w \<noteq> u" for w using user_frame(1) [OF st that] .
  have quiet: "visit_sim s' V" if "section_texts s' = section_texts s"
      "(upc s' u = U_Leave) = (upc s u = U_Leave)" "left s' u = left s u"
    by (rule visit_sim_same [OF v that(1)]) (use that(2,3) fr in \<open>metis left_def\<close>)+
  have i: "my_tidx s u = user_arg u" if "upc s u = U_Enter \<or> upc s u = U_Leave"
    using t that by (auto simp: tidx_ok_def)
  from st show ?thesis
  proof (cases rule: user_cases)
    case start
    then show ?thesis using user_start_out [OF st] by (intro disjI1 quiet) (auto simp: left_def split: if_splits)
  next
    case enter
    then have "pout s' = pout s @ [entry_text u]" using i by (auto simp: entry_text_def user_arg_def)
    with visit_sim_enter [OF v c _ enter(1,2)] fr show ?thesis by blast
  next
    case leave
    then have "pout s' = pout s @ [Returned (user_arg u)]" using i by simp
    with visit_sim_leave [OF v c _ leave(1,2)] fr show ?thesis by blast
  qed (intro disjI1 quiet; simp add: section_texts_def left_def split: if_splits)+
qed

lemma visit_sim_kept:
  assumes "visit_sim s V" and "section_texts s' = section_texts s"
    and "\<And>u. upc s' u = upc s u \<or> upc s u = U_None \<and> upc s' u = U_Start"
  shows "visit_sim s' V"
  by (rule visit_sim_same [OF assms(1,2)]) (use assms(3) in \<open>metis user_pc.distinct left_def\<close>)+

interpretation posix_serial: serial_sections posix_step posix_init visits "[]" visit_sim
proof unfold_locales
  show "visit_sim posix_init ({}, [])" by (simp add: visit_sim_def posix_init_def left_def section_texts_def)
next
  fix s V a s'
  assume r: "reach posix_step posix_init s" and v: "visit_sim s V" and st: "posix_step a s = Some s'"
  have i: "posix_ctl s" "sem_count s" "tidx_ok s" using posix.inv_reach [OF r] by (simp_all add: posix_inv_def)
  from st show "visit_sim s' V \<or> (\<exists>W. once visits V W \<and> visit_sim s' W)"
  proof (cases rule: posix_step_cases)
    case main
    with visit_sim_kept [OF v posix_main_out posix_main_frame(1) [OF _ i(1)]] show ?thesis by blast
  next
    case (user u)
    with visit_sim_user [OF v i(2,3)] show ?thesis by blast
  qed (use visit_sim_kept [OF v] in \<open>simp_all add: section_texts_def\<close>)
qed

section \<open>Properties\<close>

text \<open>
  C4: whatever is scheduled and whatever fails, the visits of the critical section take effect one
  after the other: the states of a run are related, one by one, to those of a run of the
  specification. When \<open>main\<close> has returned 0, the texts printed there are three unmixed visits, one
  per thread in some order (with the \<open>tidx\<close> of the thread), and the last line reports the end.
\<close>

theorem posix_visits:
  assumes "s = run_schedule posix_step as posix_init"
  shows "(\<exists>vs. list_all2 visit_sim (run_states posix_step as posix_init) vs \<and> spec_run (once visits)\<^sup>=\<^sup>= ({}, []) vs) \<and>
   (pmain s = M_Exited 0 \<longrightarrow> (\<exists>order. distinct order \<and> set order = {U0, U1, U2} \<and>
      filter is_section_text (pout s) = concat (map visit order) \<and> last (pout s) = All_finished))"
proof (intro conjI impI)
  show "\<exists>vs. list_all2 visit_sim (run_states posix_step as posix_init) vs \<and> spec_run (once visits)\<^sup>=\<^sup>= ({}, []) vs"
    by (rule posix_serial.run_followed)
next
  assume e: "pmain s = M_Exited 0"
  have r: "reach posix_step posix_init s" unfolding assms by (rule reach_run_schedule [OF reach_init])
  have m: "main_ok s" using posix.inv_reach [OF r] by (simp add: posix_inv_def)
  with e have dn: "upc s u = U_Done" for u by (simp add: main_ok_def)
  obtain us xs where "distinct us" "in_turn visits us [] xs" "visit_sim s (set us, xs)"
    using posix_serial.reach_serial [OF r] by blast
  moreover from this dn have "set us = {U0, U1, U2}"
    using sem_user.exhaust by (auto simp: visit_sim_def left_def)
  ultimately show "\<exists>order. distinct order \<and> set order = {U0, U1, U2} \<and>
      filter is_section_text (pout s) = concat (map visit order) \<and> last (pout s) = All_finished"
    using m e dn by (intro exI [of _ us]) (auto simp: visit_sim_def section_texts_def visits_in_turn main_ok_def)
qed

theorem posix_visits_witness:
  "\<exists>order. set order = {U0, U1, U2} \<and>
     filter is_section_text (pout (run_schedule posix_step posix_schedule posix_init)) =
       concat (map visit order)"
proof -
  have "pmain (run_schedule posix_step posix_schedule posix_init) = M_Exited 0" by code_simp
  with posix_visits [OF refl, of posix_schedule] show ?thesis by blast
qed

end
