(* ===== verification/Console.thy ===== *)
theory Console
  imports C_Library "HOL-Library.Monad_Syntax"
begin

text \<open>
  Standard input, output and error of a program that runs alone, and the conversions of
  scanf the programs use. A program is a function on a record that extends \<open>console\<close>;
  printf and perror append to it, scanf consumes \<open>inp\<close>.
\<close>

section \<open>Streams\<close>

record console =
  inp :: bytes
  out :: string
  err :: string

definition print :: "string \<Rightarrow> 'a console_scheme \<Rightarrow> 'a console_scheme" where
  "print t c = c\<lparr>out := out c @ t\<rparr>"

definition perror :: "string \<Rightarrow> string \<Rightarrow> 'a console_scheme \<Rightarrow> 'a console_scheme" where
  "perror msg e c = c\<lparr>err := err c @ perror_text msg e\<rparr>"

definition line_of :: "string \<Rightarrow> string" where
  "line_of t = t @ [nl]"

lemma print_simps [simp]:
  "out (print t c) = out c @ t" "inp (print t c) = inp c" "err (print t c) = err c"
  by (simp_all add: print_def)

lemma perror_simps [simp]:
  "out (perror msg e c) = out c" "inp (perror msg e c) = inp c"
  "err (perror msg e c) = err c @ perror_text msg e"
  by (simp_all add: perror_def)

lemma print_print [io_simps]: "print t (print u c) = print (u @ t) c"
  by (simp add: print_def)

lemma print_inp [io_simps]: "print t (c\<lparr>inp := i\<rparr>) = (print t c)\<lparr>inp := i\<rparr>"
  by (simp add: print_def)

section \<open>scanf\<close>

text \<open>\<open>%s\<close>: skip white space, then the longest non-empty run of other bytes.\<close>

definition scan_s :: "bytes \<Rightarrow> (string \<times> bytes) option" where
  "scan_s s = (let t = dropWhile is_space s in
     if t = [] then None
     else Some (takeWhile (\<lambda>c. \<not> is_space c) t, dropWhile (\<lambda>c. \<not> is_space c) t))"

text \<open>
  \<open>%d\<close>: skip white space, an optional sign, digits. The result is \<open>None\<close> and the target
  unchanged when there is no digit; a sign that was read is gone in any case.
\<close>

definition scan_d :: "bytes \<Rightarrow> int option \<times> bytes" where
  "scan_d s = (let t = dropWhile is_space s;
       u = (case t of [] \<Rightarrow> [] | c # cs \<Rightarrow> if c = CHR ''-'' \<or> c = CHR ''+'' then cs else t)
     in (if takeWhile is_digit u = [] then None else Some (to_int32 (clamp64 (scan_long t))),
         dropWhile is_digit u))"

definition token :: "string \<Rightarrow> bool" where
  "token t \<longleftrightarrow> t \<noteq> [] \<and> (\<forall>c\<in>set t. \<not> is_space c \<and> c \<noteq> NUL)"

definition token_end :: "bytes \<Rightarrow> bool" where
  "token_end s \<longleftrightarrow> (case s of [] \<Rightarrow> True | c # _ \<Rightarrow> is_space c)"

lemma is_space_nl [simp]: "is_space nl"
  by (simp add: is_space_def)

lemma token_end_simps [simp]: "token_end []" "token_end (c # s) = is_space c"
  by (simp_all add: token_end_def)

lemma token_c_string: "token t \<Longrightarrow> c_string t"
  by (auto simp: token_def c_string_def)

lemma scan_s_token:
  assumes "token t" and "token_end rest" shows "scan_s (nl # t @ rest) = Some (t, rest)"
proof -
  obtain c cs where t: "t = c # cs" "\<not> is_space c" using assms(1) by (cases t) (auto simp: token_def)
  have ns: "\<forall>x\<in>set t. \<not> is_space x" using assms(1) by (auto simp: token_def)
  have "takeWhile (\<lambda>c. \<not> is_space c) (t @ rest) = t" "dropWhile (\<lambda>c. \<not> is_space c) (t @ rest) = rest"
    using ns assms(2) by (auto simp: token_end_def split: list.splits)
  then show ?thesis by (simp add: scan_s_def Let_def t)
qed

lemma is_space_not_digit: "is_space c \<Longrightarrow> \<not> is_digit c"
  using is_digit_not_space by blast

lemma takeWhile_dec_nat: "token_end rest \<Longrightarrow> takeWhile is_digit (dec_nat n @ rest) = dec_nat n"
  using dec_nat_digits [of n] is_space_not_digit
  by (auto simp: list_all_iff token_end_def split: list.splits)

lemma dropWhile_dec_nat: "token_end rest \<Longrightarrow> dropWhile is_digit (dec_nat n @ rest) = rest"
  using dec_nat_digits [of n] is_space_not_digit
  by (auto simp: list_all_iff token_end_def split: list.splits)

lemma scan_d_dec:
  assumes "int32 i" and "0 \<le> i" and "token_end rest" and "\<forall>c\<in>set ws. is_space c"
  shows "scan_d (ws @ dec i @ rest) = (Some i, rest)"
proof -
  obtain c cs where dn: "dec_nat (nat i) = c # cs" and c: "is_digit c" using dec_nat_Cons by blast
  have d: "dec i = c # cs" using assms(2) by (simp add: dec_def dn)
  have tw: "takeWhile is_digit (c # cs @ rest) = c # cs"
    using takeWhile_dec_nat [OF assms(3), of "nat i"] by (simp add: dn)
  have dw: "dropWhile is_digit (c # cs @ rest) = rest"
    using dropWhile_dec_nat [OF assms(3), of "nat i"] by (simp add: dn)
  have v: "digits_val (c # cs) = nat i" using digits_val_dec_nat [of "nat i"] by (simp add: dn)
  have drop_ws: "dropWhile is_space (ws @ c # cs @ rest) = c # cs @ rest"
    using assms(4) is_digit_not_space [OF c] by (simp add: dropWhile_append)
  have "scan_long (c # cs @ rest) = i"
    using is_digit_not_space [OF c] is_digit_not_sign [OF c] tw v assms(2)
    by (simp add: scan_long_def)
  moreover have "clamp64 i = i" using assms(1) by (auto simp: clamp64_def int32_def)
  ultimately show ?thesis
    using drop_ws is_digit_not_sign [OF c] tw dw c to_int32_id [OF assms(1)]
    by (simp add: scan_d_def Let_def d)
qed

end
