(* ===== verification/Address_Book.thy ===== *)
theory Address_Book
  imports Console
begin

text \<open>
  \<open>malloc_example.c\<close>: the address book. The heap block \<open>addr\<close> is a list of entries and an
  entry is the 228 bytes of \<open>struct information\<close>, so that memcmp, memmove and memset act on
  bytes as in the source. What C leaves undefined ends the run without a result (\<open>None\<close>):
  a word too long for its array, the use of a variable that scanf did not set, signed overflow,
  printing an array without a NUL. The results of the two allocations are parameters: an error
  description, or success; \<open>junk k\<close> is what realloc leaves in entry \<open>k\<close> of the added part.
\<close>

section \<open>The layout of an entry\<close>

definition info_size :: nat where "info_size = 228"

definition name_at :: nat where "name_at = 4"
definition phone_at :: nat where "phone_at = 36"
definition mobile_at :: nat where "mobile_at = 68"
definition address_at :: nat where "address_at = 100"

lemmas layout = info_size_def name_at_def phone_at_def mobile_at_def address_at_def

definition zero_info :: bytes where
  "zero_info = replicate info_size NUL"

section \<open>input_person_information and print_person_information\<close>

definition read_field :: "nat \<Rightarrow> nat \<Rightarrow> string \<Rightarrow> bytes \<Rightarrow> console \<Rightarrow> (bytes \<times> console) option" where
  "read_field at sz prompt e c =
     (case scan_s (inp c) of
        None \<Rightarrow> Some (e, (print prompt c)\<lparr>inp := []\<rparr>)
      | Some (t, rest) \<Rightarrow>
          if length t < sz then Some (overwrite e at (t @ [NUL]), (print prompt c)\<lparr>inp := rest\<rparr>)
          else None)"

definition input_header :: "int \<Rightarrow> string" where
  "input_header i = [nl] @ ''Input '' @ dec i @ '' person's information.'' @ [nl]"

fun input_person_information ::
    "bytes list \<Rightarrow> nat \<Rightarrow> int \<Rightarrow> nat \<Rightarrow> console \<Rightarrow> (bytes list \<times> console) option" where
  "input_person_information book memidx pidx 0 c = Some (book, c)"
| "input_person_information book memidx pidx (Suc pnum) c =
     (if memidx < length book then do {
        let e = overwrite (book ! memidx) 0 (int_bytes pidx);
        (e, c) \<leftarrow> read_field name_at 32 ''Input name: '' e (print (input_header pidx) c);
        (e, c) \<leftarrow> read_field phone_at 32 ''Input phone number: '' e c;
        (e, c) \<leftarrow> read_field mobile_at 32 ''Input mobile number: '' e c;
        (e, c) \<leftarrow> read_field address_at 128 ''Input address: '' e c;
        input_person_information (book[memidx := e]) (Suc memidx) (pidx + 1) pnum c
      } else None)"

definition tab :: char where "tab = CHR 0x09"

definition show_field :: "nat \<Rightarrow> nat \<Rightarrow> string \<Rightarrow> bytes \<Rightarrow> console \<Rightarrow> console option" where
  "show_field at sz label e c =
     (if NUL \<in> set (take sz (drop at e))
      then Some (print (tab # label @ cstr (drop at e) @ [nl]) c) else None)"

fun print_person_information :: "bytes list \<Rightarrow> console \<Rightarrow> console option" where
  "print_person_information [] c = Some c"
| "print_person_information (e # es) c = do {
     let c = print (''['' @ dec (bytes_int e) @ '']'' @ [nl]) c;
     c \<leftarrow> show_field name_at 32 ''Name: '' e c;
     c \<leftarrow> show_field phone_at 32 ''Phone: '' e c;
     c \<leftarrow> show_field mobile_at 32 ''Mobile: '' e c;
     c \<leftarrow> show_field address_at 128 ''Address: '' e c;
     print_person_information es c
   }"

section \<open>main\<close>

definition prompt_total :: string where "prompt_total = ''Input total number of person: ''"
definition prompt_more :: string where "prompt_more = [nl] @ ''anyone else? [y/n] ''"
definition prompt_add :: string where "prompt_add = ''Input add number of person: ''"
definition prompt_change :: string where "prompt_change = [nl] @ ''anyone change? [y/n] ''"
definition listing_title :: string where
  "listing_title = [nl] @ ''< print original address book >'' @ [nl]"

definition prompt_index :: string where "prompt_index = ''Input change index: ''"
definition change_title :: string where
  "change_title = [nl] @ ''< change first person's information >'' @ [nl]"
definition new_title :: string where "new_title = [nl] @ ''< print new address book >'' @ [nl]"
definition same_text :: string where "same_text = [nl] @ ''The information is same!'' @ [nl]"
definition finish_text :: string where "finish_text = ''finish!'' @ [nl]"

text \<open>\<open>scanf("%s",yn)\<close> into two bytes; an empty list stands for a \<open>yn\<close> that was never set.\<close>

definition read_yn :: "bytes \<Rightarrow> console \<Rightarrow> (bytes \<times> console) option" where
  "read_yn yn c =
     (case scan_s (inp c) of
        None \<Rightarrow> if yn = [] then None else Some (yn, c\<lparr>inp := []\<rparr>)
      | Some (t, rest) \<Rightarrow> if length t < 2 then Some (t @ [NUL], c\<lparr>inp := rest\<rparr>) else None)"

definition read_int :: "console \<Rightarrow> (int \<times> console) option" where
  "read_int c = (case scan_d (inp c) of
     (None, rest) \<Rightarrow> None
   | (Some i, rest) \<Rightarrow> Some (i, c\<lparr>inp := rest\<rparr>))"

text \<open>STEP 2: the first question. The left result is a return of \<open>main\<close>.\<close>

definition book_step2 ::
    "string option \<Rightarrow> (nat \<Rightarrow> bytes) \<Rightarrow> bytes list \<Rightarrow> console \<Rightarrow> (bytes \<times> (int + bytes list) \<times> console) option" where
  "book_step2 realloc_error junk addr c = do {
     (yn, c) \<leftarrow> read_yn [] (print prompt_more c);
     if yn ! 0 = CHR ''y'' \<or> yn ! 1 = CHR ''Y'' then do {
       (addnum, c) \<leftarrow> read_int (print prompt_add c);
       if 0 < addnum then
         (if int (length addr) + addnum < 2 ^ 31 then
            (case realloc_error of
               Some e \<Rightarrow> Some (yn, Inl (- 1), perror ''realloc error: '' e c)
             | None \<Rightarrow> do {
                 let grown = addr @ map junk [length addr..<length addr + nat addnum];
                 (addr, c) \<leftarrow> input_person_information grown (length addr) (int (length addr) + 1)
                   (nat addnum) c;
                 Some (yn, Inr addr, c)
               })
          else None)
       else Some (yn, Inr addr, c)
     } else Some (yn, Inr addr, c)
   }"

text \<open>STEP 3: the change of one entry.\<close>

definition book_step3 :: "bytes \<Rightarrow> bytes list \<Rightarrow> console \<Rightarrow> (int \<times> bytes list \<times> console) option" where
  "book_step3 yn addr c = do {
     (yn, c) \<leftarrow> read_yn yn (print prompt_change c);
     if yn ! 0 = CHR ''y'' \<or> yn ! 0 = CHR ''Y'' then do {
       (cidx, c) \<leftarrow> read_int (print prompt_index c);
       if cidx \<le> 0 \<or> int (length addr) < cidx then
         Some (0, addr, print (''There's only '' @ dec (int (length addr)) @ '' persons'' @ [nl]) c)
       else do {
         let c = print change_title c;
         (new, c) \<leftarrow> input_person_information [zero_info] 0 cidx 1 c;
         let at = nat (cidx - 1);
         let newaddr = new ! 0;
         if addr ! at \<noteq> newaddr then do {
           let addr = addr[at := newaddr];
           c \<leftarrow> print_person_information addr (print new_title c);
           Some (0, addr, print finish_text c)
         } else Some (0, addr, print finish_text (print same_text c))
       }
     } else Some (0, addr, print finish_text c)
   }"

definition book_main :: "string option \<Rightarrow> string option \<Rightarrow> (nat \<Rightarrow> bytes) \<Rightarrow> console \<Rightarrow>
    (int \<times> bytes list \<times> console) option" where
  "book_main calloc_error realloc_error junk c = do {
     (nperson, c) \<leftarrow> read_int (print prompt_total c);
     if nperson \<le> 0 then Some (0, [], print (''Please input at least one person!'' @ [nl]) c)
     else (case calloc_error of
       Some e \<Rightarrow> Some (- 1, [], perror ''calloc error: '' e c)
     | None \<Rightarrow> do {
         (addr, c) \<leftarrow> input_person_information (replicate (nat nperson) zero_info) 0 1 (nat nperson) c;
         (yn, r, c) \<leftarrow> book_step2 realloc_error junk addr c;
         (case r of
            Inl code \<Rightarrow> Some (code, [], c)
          | Inr addr \<Rightarrow> do {
              c \<leftarrow> print_person_information addr (print listing_title c);
              book_step3 yn addr c
            })
       })
   }"

section \<open>Entries as persons\<close>

record person =
  pname :: string
  pphone :: string
  pmobile :: string
  paddress :: string

definition person_ok :: "person \<Rightarrow> bool" where
  "person_ok p \<longleftrightarrow> token (pname p) \<and> length (pname p) < 32 \<and> token (pphone p) \<and> length (pphone p) < 32 \<and>
     token (pmobile p) \<and> length (pmobile p) < 32 \<and> token (paddress p) \<and> length (paddress p) < 128"

text \<open>What is typed for a person, and how the entry of a person looks in memory over old bytes.\<close>

definition typed :: "person \<Rightarrow> bytes" where
  "typed p = nl # pname p @ nl # pphone p @ nl # pmobile p @ nl # paddress p"

definition entry :: "int \<Rightarrow> person \<Rightarrow> bytes \<Rightarrow> bytes" where
  "entry i p old = overwrite (overwrite (overwrite (overwrite (overwrite old 0 (int_bytes i))
     name_at (pname p @ [NUL])) phone_at (pphone p @ [NUL])) mobile_at (pmobile p @ [NUL]))
     address_at (paddress p @ [NUL])"

definition input_dialogue :: "int \<Rightarrow> string" where
  "input_dialogue i = input_header i @ ''Input name: '' @ ''Input phone number: '' @
     ''Input mobile number: '' @ ''Input address: ''"

definition shown :: "int \<Rightarrow> person \<Rightarrow> string" where
  "shown i p = ''['' @ dec i @ '']'' @ [nl] @ (tab # ''Name: '' @ pname p @ [nl]) @
     (tab # ''Phone: '' @ pphone p @ [nl]) @ (tab # ''Mobile: '' @ pmobile p @ [nl]) @
     (tab # ''Address: '' @ paddress p @ [nl])"

lemma read_field_token:
  assumes "token t" and "length t < sz" and "token_end rest" and "inp c = nl # t @ rest"
  shows "read_field at sz prompt e c =
    Some (overwrite e at (t @ [NUL]), (print prompt c)\<lparr>inp := rest\<rparr>)"
  using scan_s_token [OF assms(1,3)] assms(2,4) by (simp add: read_field_def)

lemma token_end_typed: "token_end (typed p @ rest)"
  by (simp add: typed_def)

lemma input_person_typed:
  assumes "person_ok p" and "token_end rest" and "k < length book"
    and "inp c = typed p @ rest"
  shows "input_person_information book k i (Suc n) c =
    input_person_information (book[k := entry i p (book ! k)]) (Suc k) (i + 1) n
      ((print (input_dialogue i) c)\<lparr>inp := rest\<rparr>)"
proof -
  let ?r3 = "nl # paddress p @ rest"
  let ?r2 = "nl # pmobile p @ ?r3"
  let ?r1 = "nl # pphone p @ ?r2"
  have ok: "token (pname p)" "length (pname p) < 32" "token (pphone p)" "length (pphone p) < 32"
    "token (pmobile p)" "length (pmobile p) < 32" "token (paddress p)" "length (paddress p) < 128"
    using assms(1) by (simp_all add: person_ok_def)
  have te: "token_end ?r1" "token_end ?r2" "token_end ?r3" by simp_all
  have c: "inp c = nl # pname p @ ?r1" using assms(4) by (simp add: typed_def)
  show ?thesis
    using assms(3)
    by (simp add: read_field_token [OF ok(1,2) te(1)] read_field_token [OF ok(3,4) te(2)]
        read_field_token [OF ok(5,6) te(3)] read_field_token [OF ok(7,8) assms(2)] c
        entry_def input_dialogue_def print_print print_inp)
qed

text \<open>A list of persons typed one after the other fills consecutive entries.\<close>

fun entries :: "int \<Rightarrow> person list \<Rightarrow> bytes list \<Rightarrow> bytes list" where
  "entries i (p # ps) (old # olds) = entry i p old # entries (i + 1) ps olds"
| "entries i [] olds = []"
| "entries i ps [] = []"

lemma length_entries [simp]: "length ps = length olds \<Longrightarrow> length (entries i ps olds) = length ps"
  by (induction i ps olds rule: entries.induct) auto

fun dialogues :: "int \<Rightarrow> person list \<Rightarrow> string" where
  "dialogues i [] = []"
| "dialogues i (p # ps) = input_dialogue i @ dialogues (i + 1) ps"

lemma token_end_typed_list: "token_end rest \<Longrightarrow> token_end (concat (map typed ps) @ rest)"
  by (cases ps) (simp_all add: typed_def)

lemma input_persons_typed:
  assumes "list_all person_ok ps" and "token_end rest" and "length olds = length ps"
    and "inp c = concat (map typed ps) @ rest"
  shows "input_person_information (pre @ olds) (length pre) i (length ps) c =
    Some (pre @ entries i ps olds, (print (dialogues i ps) c)\<lparr>inp := rest\<rparr>)"
  using assms
proof (induction ps arbitrary: pre olds i c)
  case Nil
  then show ?case by (cases c) (simp add: print_def)
next
  case (Cons p ps)
  then obtain old olds' where olds: "olds = old # olds'" by (cases olds) auto
  have ok: "person_ok p" using Cons.prems by simp
  let ?c = "(print (input_dialogue i) c)\<lparr>inp := concat (map typed ps) @ rest\<rparr>"
  have "input_person_information (pre @ olds) (length pre) i (length (p # ps)) c =
      input_person_information ((pre @ [entry i p old]) @ olds') (length (pre @ [entry i p old]))
        (i + 1) (length ps) ?c"
    using input_person_typed [OF ok token_end_typed_list [OF Cons.prems(2)], of "length pre"
        "pre @ olds" c ps i "length ps"] Cons.prems(4)
    by (simp add: olds)
  also have "\<dots> = Some ((pre @ [entry i p old]) @ entries (i + 1) ps olds',
      (print (dialogues (i + 1) ps) ?c)\<lparr>inp := rest\<rparr>)"
    by (rule Cons.IH) (use Cons.prems olds in simp_all)
  finally show ?case by (simp add: olds print_print print_inp)
qed

section \<open>Reading an entry back\<close>

text \<open>A field of an entry: the word, its NUL, what was there before.\<close>

definition field :: "string \<Rightarrow> bytes \<Rightarrow> bytes" where
  "field t old = (t @ [NUL]) @ drop (length (t @ [NUL])) old"

lemma length_field [simp]: "length t < length old \<Longrightarrow> length (field t old) = length old"
  by (simp add: field_def)

lemma five_parts:
  assumes "length old = info_size"
  obtains i n p m a where "old = i @ n @ p @ m @ a" "length i = 4" "length n = 32" "length p = 32"
    "length m = 32" "length a = 128"
proof -
  have "old = take 4 old @ take 32 (drop 4 old) @ take 32 (drop 36 old) @ take 32 (drop 68 old) @ drop 100 old"
    using append_take_drop_id [of 32 "drop 4 old"] append_take_drop_id [of 32 "drop 36 old"]
      append_take_drop_id [of 32 "drop 68 old"]
    by simp
  then show thesis
    by (rule that) (use assms in \<open>auto simp: info_size_def\<close>)
qed

lemma entry_parts:
  assumes "person_ok p" and "length i = 4" "length n = 32" "length ph = 32" "length m = 32" "length a = 128"
  shows "entry k p (i @ n @ ph @ m @ a) =
    int_bytes k @ field (pname p) n @ field (pphone p) ph @ field (pmobile p) m @ field (paddress p) a"
proof -
  have len: "length (pname p) < 32" "length (pphone p) < 32" "length (pmobile p) < 32"
    "length (paddress p) < 128" using assms(1) by (simp_all add: person_ok_def)
  have e0: "overwrite (i @ n @ ph @ m @ a) 0 (int_bytes k) = int_bytes k @ n @ ph @ m @ a"
    using assms(2) by (simp add: overwrite_start)
  have e1: "overwrite (int_bytes k @ n @ ph @ m @ a) name_at (pname p @ [NUL]) =
      int_bytes k @ field (pname p) n @ ph @ m @ a"
    unfolding field_def by (rule overwrite_middle) (use assms(3) len in \<open>simp_all add: layout\<close>)
  have e2: "overwrite (int_bytes k @ field (pname p) n @ ph @ m @ a) phone_at (pphone p @ [NUL]) =
      (int_bytes k @ field (pname p) n) @ field (pphone p) ph @ m @ a"
    unfolding field_def [of "pphone p"] append_assoc [of "int_bytes k", symmetric]
    by (rule overwrite_middle) (use assms len in \<open>simp_all add: layout\<close>)
  have e3: "overwrite ((int_bytes k @ field (pname p) n) @ field (pphone p) ph @ m @ a) mobile_at (pmobile p @ [NUL]) =
      ((int_bytes k @ field (pname p) n) @ field (pphone p) ph) @ field (pmobile p) m @ a"
    unfolding field_def [of "pmobile p"] append_assoc [of "int_bytes k @ field (pname p) n", symmetric]
    by (rule overwrite_middle) (use assms len in \<open>simp_all add: layout\<close>)
  have e4: "overwrite (((int_bytes k @ field (pname p) n) @ field (pphone p) ph) @ field (pmobile p) m @ a @ [])
        address_at (paddress p @ [NUL]) =
      (((int_bytes k @ field (pname p) n) @ field (pphone p) ph) @ field (pmobile p) m) @ field (paddress p) a @ []"
    unfolding field_def [of "paddress p"] append_assoc [of "(int_bytes k @ field (pname p) n) @ field (pphone p) ph", symmetric]
    by (rule overwrite_middle) (use assms len in \<open>simp_all add: layout\<close>)
  show ?thesis using e0 e1 e2 e3 e4 by (simp add: entry_def)
qed

lemma field_read:
  assumes "token t" and "length t < length old"
  shows "cstr (field t old @ rest) = t" and "NUL \<in> set (take (length old) (field t old @ rest))"
proof -
  show "cstr (field t old @ rest) = t"
    using cstr_terminated [OF token_c_string [OF assms(1)]] by (simp add: field_def)
  show "NUL \<in> set (take (length old) (field t old @ rest))"
    using assms(2) by (cases "length old - length t") (simp_all add: field_def)
qed

lemma show_field_read:
  assumes "drop at e = field t old @ rest" and "token t" and "length t < length old"
    and "length old = sz"
  shows "show_field at sz label e c = Some (print (tab # label @ t @ [nl]) c)"
  using field_read [OF assms(2,3), of rest] assms(1,4) by (simp add: show_field_def)

lemma print_entry:
  assumes ok: "person_ok p" and l: "length old = info_size" and i: "int32 i"
  shows "print_person_information (entry i p old # es) c =
    print_person_information es (print (shown i p) c)"
proof -
  obtain x n ph m a where old: "old = x @ n @ ph @ m @ a" and len: "length x = 4" "length n = 32"
    "length ph = 32" "length m = 32" "length a = 128" using five_parts [OF l] .
  let ?e = "entry i p old"
  note e = entry_parts [OF ok len, of i]
  have t: "token (pname p)" "length (pname p) < length n" "token (pphone p)" "length (pphone p) < length ph"
    "token (pmobile p)" "length (pmobile p) < length m" "token (paddress p)" "length (paddress p) < length a"
    using ok len by (simp_all add: person_ok_def)
  have d: "drop name_at ?e = field (pname p) n @ field (pphone p) ph @ field (pmobile p) m @ field (paddress p) a"
    "drop phone_at ?e = field (pphone p) ph @ field (pmobile p) m @ field (paddress p) a"
    "drop mobile_at ?e = field (pmobile p) m @ field (paddress p) a"
    "drop address_at ?e = field (paddress p) a @ []"
    unfolding old e using t len by (simp_all add: layout)
  have "bytes_int ?e = i" unfolding old e by (rule bytes_int_int_bytes [OF i])
  then show ?thesis
    by (simp add: show_field_read [OF d(1) t(1,2) len(2)] show_field_read [OF d(2) t(3,4) len(3)]
        show_field_read [OF d(3) t(5,6) len(4)] show_field_read [OF d(4) t(7,8) len(5)]
        print_print shown_def)
qed

fun shown_all :: "int \<Rightarrow> person list \<Rightarrow> string" where
  "shown_all i [] = []"
| "shown_all i (p # ps) = shown i p @ shown_all (i + 1) ps"

lemma print_entries:
  assumes "list_all person_ok ps" and "length olds = length ps" and "\<forall>b\<in>set olds. length b = info_size"
    and "int32 i" and "i + int (length ps) < 2 ^ 31"
  shows "print_person_information (entries i ps olds @ es) c =
    print_person_information es (print (shown_all i ps) c)"
  using assms
proof (induction i ps olds arbitrary: c rule: entries.induct)
  case (1 i p ps old olds)
  then have "int32 (i + 1)" by (simp add: int32_def)
  with 1 show ?case
    by (simp add: print_entry print_print del: print_person_information.simps)
qed (simp_all add: print_def)

lemma entry_inj:
  assumes "entry i p old = entry i q old" and "person_ok p" and "person_ok q" and l: "length old = info_size"
  shows "p = q"
proof -
  obtain x n ph m a where old: "old = x @ n @ ph @ m @ a" and len: "length x = 4" "length n = 32"
    "length ph = 32" "length m = 32" "length a = 128" using five_parts [OF l] .
  have lens: "length (field (pname r) n) = 32" "length (field (pphone r) ph) = 32"
    "length (field (pmobile r) m) = 32" if "person_ok r" for r
    using that len by (simp_all add: person_ok_def)
  have eq: "field (pname p) n = field (pname q) n" "field (pphone p) ph = field (pphone q) ph"
    "field (pmobile p) m = field (pmobile q) m" "field (paddress p) a = field (paddress q) a"
    using assms(1) lens [OF assms(2)] lens [OF assms(3)]
    unfolding old entry_parts [OF assms(2) len] entry_parts [OF assms(3) len] by auto
  have inj: "s = t" if "field s o' = field t o'" "token s" "token t" "length s < length o'" "length t < length o'"
    for s t o'
    using field_read(1) [OF that(2,4), of "[]"] field_read(1) [OF that(3,5), of "[]"] that(1) by simp
  show ?thesis
    using inj [OF eq(1)] inj [OF eq(2)] inj [OF eq(3)] inj [OF eq(4)] assms(2,3) len
    by (simp add: person_ok_def person.equality)
qed

lemma length_entry: "person_ok p \<Longrightarrow> length old = info_size \<Longrightarrow> length (entry i p old) = info_size"
  by (simp add: entry_def layout person_ok_def)

section \<open>Whole runs\<close>

definition zeros :: "nat \<Rightarrow> bytes list" where
  "zeros n = replicate n zero_info"

lemma print_id: "(print t c)\<lparr>inp := inp c\<rparr> = print t c"
  by (simp add: print_def)

lemma read_yn_token:
  assumes "inp c = nl # [a] @ rest" and "\<not> is_space a" and "a \<noteq> NUL" and "token_end rest"
  shows "read_yn yn c = Some ([a, NUL], c\<lparr>inp := rest\<rparr>)"
  using scan_s_token [of "[a]" rest] assms by (simp add: read_yn_def token_def)

lemma read_int_dec:
  assumes "inp c = ws @ dec i @ rest" and "int32 i" and "0 \<le> i" and "token_end rest"
    and "\<forall>x\<in>set ws. is_space x"
  shows "read_int c = Some (i, c\<lparr>inp := rest\<rparr>)"
  using scan_d_dec [OF assms(2-5)] assms(1) by (simp add: read_int_def)

lemma answers_not_space [simp]: "\<not> is_space CHR ''y''" "\<not> is_space CHR ''n''" "\<not> is_space CHR ''Y''"
  by (simp_all add: is_space_def)

lemma step3_no:
  assumes "inp c = nl # [CHR ''n''] @ rest" and "token_end rest"
  shows "book_step3 yn addr c =
    Some (0, addr, (print (prompt_change @ finish_text) c)\<lparr>inp := rest\<rparr>)"
  using assms
  by (simp add: book_step3_def read_yn_token [where rest = rest] print_print print_inp)

lemma step2_yes:
  assumes "list_all person_ok qs" and "qs \<noteq> []" and "int (length addr + length qs) < 2 ^ 31"
    and "inp c = nl # [CHR ''y''] @ nl # dec (int (length qs)) @ concat (map typed qs) @ rest"
    and "token_end rest"
  shows "book_step2 None junk addr c = Some ([CHR ''y'', NUL],
    Inr (addr @ entries (int (length addr) + 1) qs (map junk [length addr..<length addr + length qs])),
    (print (prompt_more @ prompt_add @ dialogues (int (length addr) + 1) qs) c)\<lparr>inp := rest\<rparr>)"
proof -
  let ?i = "concat (map typed qs) @ rest"
  let ?c1 = "(print prompt_more c)\<lparr>inp := nl # dec (int (length qs)) @ ?i\<rparr>"
  let ?c2 = "(print (prompt_more @ prompt_add) c)\<lparr>inp := ?i\<rparr>"
  have te: "token_end ?i" by (rule token_end_typed_list [OF assms(5)])
  have r1: "read_yn [] (print prompt_more c) = Some ([CHR ''y'', NUL], ?c1)"
    by (rule read_yn_token) (use assms(4) in simp_all)
  have i32: "int32 (int (length qs))" using assms(3) by (simp add: int32_def)
  have r2: "read_int (print prompt_add ?c1) = Some (int (length qs), ?c2)"
    by (subst read_int_dec [where ws = "[nl]" and i = "int (length qs)" and rest = ?i])
      (use i32 te in \<open>simp_all add: print_inp print_print\<close>)
  have r3: "input_person_information (addr @ map junk [length addr..<length addr + length qs]) (length addr)
      (int (length addr) + 1) (length qs) ?c2 =
    Some (addr @ entries (int (length addr) + 1) qs (map junk [length addr..<length addr + length qs]),
      (print (dialogues (int (length addr) + 1) qs) ?c2)\<lparr>inp := rest\<rparr>)"
    by (rule input_persons_typed [OF assms(1,5)]) simp_all
  show ?thesis
    using assms(2,3) r1 r2 r3
    by (simp add: book_step2_def print_inp print_print)
qed

text \<open>Persons typed, more added, nothing changed.\<close>

lemma print_two_parts:
  assumes "list_all person_ok ps" and "list_all person_ok qs" and "\<forall>b\<in>set olds. length b = info_size"
    and "\<forall>b\<in>set olds'. length b = info_size" and "length olds = length ps" and "length olds' = length qs"
    and "int (length ps + length qs) < 2 ^ 31 - 1"
  shows "print_person_information (entries 1 ps olds @ entries (int (length ps) + 1) qs olds') d =
    Some (print (shown_all (int (length ps) + 1) qs) (print (shown_all 1 ps) d))"
proof -
  let ?e2 = "entries (int (length ps) + 1) qs olds'"
  have "print_person_information (entries 1 ps olds @ ?e2) d = print_person_information (?e2 @ []) (print (shown_all 1 ps) d)"
    using print_entries [OF assms(1), of olds 1 ?e2 d] assms(3,5,7) by (simp add: int32_def)
  also have "\<dots> = Some (print (shown_all (int (length ps) + 1) qs) (print (shown_all 1 ps) d))"
    using assms(4,6,7) by (subst print_entries [OF assms(2)]) (simp_all add: int32_def)
  finally show ?thesis .
qed

lemma run_listed:
  assumes "list_all person_ok ps" and "ps \<noteq> []" and "list_all person_ok qs" and "qs \<noteq> []"
    and "int (length ps + length qs) < 2 ^ 31 - 1" and "\<forall>k. length (junk k) = info_size"
    and "inp c = dec (int (length ps)) @ concat (map typed ps) @ nl # [CHR ''y''] @
      nl # dec (int (length qs)) @ concat (map typed qs) @ nl # [CHR ''n''] @ rest"
    and "token_end rest"
  shows "book_main None None junk c = Some (0,
    entries 1 ps (zeros (length ps)) @
      entries (int (length ps) + 1) qs (map junk [length ps..<length ps + length qs]),
    (print (prompt_total @ dialogues 1 ps @ prompt_more @ prompt_add @
      dialogues (int (length ps) + 1) qs @ listing_title @ shown_all 1 ps @
      shown_all (int (length ps) + 1) qs @ prompt_change @ finish_text) c)\<lparr>inp := rest\<rparr>)"
proof -
  let ?n = "int (length ps)"
  let ?r3 = "nl # [CHR ''n''] @ rest"
  let ?r2 = "nl # [CHR ''y''] @ nl # dec (int (length qs)) @ concat (map typed qs) @ ?r3"
  let ?i = "concat (map typed ps) @ ?r2"
  let ?c1 = "(print prompt_total c)\<lparr>inp := ?i\<rparr>"
  let ?e1 = "entries 1 ps (zeros (length ps))"
  let ?e2 = "entries (?n + 1) qs (map junk [length ps..<length ps + length qs])"
  have "int32 ?n" using assms(5) by (simp add: int32_def)
  then have r1: "read_int (print prompt_total c) = Some (?n, ?c1)"
    by (subst read_int_dec [where ws = "[]" and i = ?n and rest = ?i])
      (use assms(7) token_end_typed_list [of ?r2 ps] in simp_all)
  have r2: "input_person_information (zeros (length ps)) 0 1 (length ps) ?c1 =
      Some (?e1, (print (dialogues 1 ps) ?c1)\<lparr>inp := ?r2\<rparr>)"
    using input_persons_typed [OF assms(1), where pre = "[]" and rest = ?r2 and c = ?c1
        and olds = "zeros (length ps)" and i = 1]
    by (simp add: zeros_def)
  let ?c2 = "(print (dialogues 1 ps) ?c1)\<lparr>inp := ?r2\<rparr>"
  have l1: "length ?e1 = length ps" by (simp add: zeros_def)
  have r3: "book_step2 None junk ?e1 ?c2 = Some ([CHR ''y'', NUL], Inr (?e1 @ ?e2),
      (print (prompt_more @ prompt_add @ dialogues (?n + 1) qs) ?c2)\<lparr>inp := ?r3\<rparr>)"
    using step2_yes [OF assms(3,4), where addr = ?e1 and junk = junk and c = ?c2 and rest = ?r3] assms(5) l1
    by simp
  have p1: "print_person_information (?e1 @ ?e2) d = Some (print (shown_all (?n + 1) qs)
      (print (shown_all 1 ps) d))" for d
    using assms(5,6) by (intro print_two_parts [OF assms(1,3)]) (auto simp: zeros_def zero_info_def)
  show ?thesis
    using assms(2) r1 r2 r3 p1 step3_no [where rest = rest] assms(8)
    by (simp add: book_main_def zeros_def print_inp print_print)
qed

text \<open>
  C8: typing a book of any persons (words that fit their arrays), adding more at the first
  question and changing nothing lists exactly the typed persons, in order and numbered from 1,
  and the memory holds the entry of each of them.
\<close>

theorem book_run:
  assumes "list_all person_ok ps" and "ps \<noteq> []" and "list_all person_ok qs" and "qs \<noteq> []"
    and "int (length ps + length qs) < 2 ^ 31 - 1" and "\<forall>k. length (junk k) = info_size"
    and "inp c = dec (int (length ps)) @ concat (map typed ps) @ nl # [CHR ''y''] @
      nl # dec (int (length qs)) @ concat (map typed qs) @ nl # [CHR ''n''] @ rest"
    and "token_end rest"
  shows "book_main None None junk c = Some (0,
    entries 1 ps (zeros (length ps)) @
      entries (int (length ps) + 1) qs (map junk [length ps..<length ps + length qs]),
    (print (prompt_total @ dialogues 1 ps @ prompt_more @ prompt_add @
      dialogues (int (length ps) + 1) qs @ listing_title @ shown_all 1 ps @
      shown_all (int (length ps) + 1) qs @ prompt_change @ finish_text) c)\<lparr>inp := rest\<rparr>)"
  using assms by (rule run_listed)

definition sample_person :: "string \<Rightarrow> person" where
  "sample_person n = \<lparr>pname = n, pphone = ''02-123'', pmobile = ''010-9'', paddress = ''Seoul''\<rparr>"

definition typing :: "bytes \<Rightarrow> console" where
  "typing i = \<lparr>inp = i, out = [], err = []\<rparr>"

lemma sample_person_ok: "n \<in> {''Kim'', ''Lee'', ''Park''} \<Longrightarrow> person_ok (sample_person n)"
  by (auto simp: sample_person_def person_ok_def token_def is_space_def)

theorem book_run_witness:
  "\<exists>c. book_main None None (\<lambda>_. replicate 228 CHR ''z'')
     (typing (dec 1 @ typed (sample_person ''Kim'') @ nl # ''y'' @ nl # dec 1 @
        typed (sample_person ''Lee'') @ nl # ''n'' @ [nl])) =
     Some (0, [entry 1 (sample_person ''Kim'') zero_info,
       entry 2 (sample_person ''Lee'') (replicate 228 CHR ''z'')], c)"
  using book_run [of "[sample_person ''Kim'']" "[sample_person ''Lee'']" "\<lambda>_. replicate 228 CHR ''z''"
      "typing (dec 1 @ typed (sample_person ''Kim'') @ nl # ''y'' @ nl # dec 1 @
        typed (sample_person ''Lee'') @ nl # ''n'' @ [nl])" "[nl]"]
  by (simp add: sample_person_ok typing_def info_size_def zeros_def)

section \<open>Changing an entry\<close>

lemma entries_nth:
  "j < length ps \<Longrightarrow> length olds = length ps \<Longrightarrow>
   entries i ps olds ! j = entry (i + int j) (ps ! j) (olds ! j)"
proof (induction i ps olds arbitrary: j rule: entries.induct)
  case (1 i p ps old olds)
  then show ?case by (cases j) (auto simp: algebra_simps)
qed auto

lemma entries_update:
  "j < length ps \<Longrightarrow> length olds = length ps \<Longrightarrow>
   (entries i ps olds)[j := entry (i + int j) q b] = entries i (ps[j := q]) (olds[j := b])"
proof (induction i ps olds arbitrary: j rule: entries.induct)
  case (1 i p ps old olds)
  then show ?case by (cases j) (auto simp: algebra_simps)
qed auto

text \<open>The change of one entry, with the comparison on the bytes of the entries.\<close>

lemma print_changed:
  assumes "list_all person_ok ps" and "length olds = length ps" and "\<forall>b\<in>set olds. length b = info_size"
    and "int (length ps) < 2 ^ 31 - 1" and "k < length ps" and "person_ok q"
  shows "print_person_information ((entries 1 ps olds)[k := entry (int k + 1) q zero_info]) d =
    Some (print (shown_all 1 (ps[k := q])) d)"
proof -
  have upd: "(entries 1 ps olds)[k := entry (int k + 1) q zero_info] = entries 1 (ps[k := q]) (olds[k := zero_info])"
    using entries_update [OF assms(5,2), of 1 q zero_info] by (simp add: add.commute)
  have "list_all person_ok (ps[k := q])"
    using assms(1,6) set_update_subset_insert [of ps k q] by (auto simp: list_all_iff)
  moreover have "\<forall>b\<in>set (olds[k := zero_info]). length b = info_size"
    using assms(3) set_update_subset_insert [of olds k zero_info] by (auto simp: zero_info_def)
  ultimately show ?thesis
    using print_entries [of "ps[k := q]" "olds[k := zero_info]" 1 "[]" d] assms(2,4)
    unfolding upd by (simp add: int32_def)
qed

lemma step3_change:
  assumes "list_all person_ok ps" and "length olds = length ps" and "\<forall>b\<in>set olds. length b = info_size"
    and "int (length ps) < 2 ^ 31 - 1" and "k < length ps"
    and "person_ok q" and "a = CHR ''y'' \<or> a = CHR ''Y''"
    and "inp c = nl # [a] @ nl # dec (int k + 1) @ typed q @ rest" and "token_end rest"
  shows "book_step3 yn (entries 1 ps olds) c =
    Some (0, (entries 1 ps olds)[k := entry (int k + 1) q zero_info],
      (print (prompt_change @ prompt_index @ change_title @ input_dialogue (int k + 1) @
        (if entries 1 ps olds ! k = entry (int k + 1) q zero_info then same_text else new_title @ shown_all 1 (ps[k := q])) @ finish_text) c)
      \<lparr>inp := rest\<rparr>)"
proof -
  let ?c1 = "(print prompt_change c)\<lparr>inp := nl # dec (int k + 1) @ typed q @ rest\<rparr>"
  let ?c2 = "(print (prompt_change @ prompt_index) c)\<lparr>inp := typed q @ rest\<rparr>"
  let ?c3 = "(print (prompt_change @ prompt_index @ change_title @ input_dialogue (int k + 1)) c)\<lparr>inp := rest\<rparr>"
  let ?new = "entry (int k + 1) q zero_info" and ?es = "entries 1 ps olds"
  have len: "length ?es = length ps" using assms(2) by simp
  have a: "\<not> is_space a" "a \<noteq> NUL" using assms(7) by auto
  have r1: "read_yn yn (print prompt_change c) = Some ([a, NUL], ?c1)"
    by (rule read_yn_token) (use a assms(8) in simp_all)
  have i32: "int32 (int k + 1)" using assms(4,5) by (simp add: int32_def)
  have r2: "read_int (print prompt_index ?c1) = Some (int k + 1, ?c2)"
    by (subst read_int_dec [where ws = "[nl]" and i = "int k + 1" and rest = "typed q @ rest"])
      (use i32 token_end_typed in \<open>simp_all add: print_inp print_print\<close>)
  have r3: "input_person_information [zero_info] 0 (int k + 1) 1 (print change_title ?c2) = Some ([?new], ?c3)"
    using input_person_typed [OF assms(6,9), of 0 "[zero_info]" "print change_title ?c2" "int k + 1" 0]
    by (simp add: print_inp print_print)
  note pr = print_changed [OF assms(1-6)]
  have upd_same: "?es[k := ?new] = ?es" if "?es ! k = ?new" by (metis that list_update_id)
  have cond: "\<not> (int k + 1 \<le> 0 \<or> int (length ?es) < int k + 1)" using assms(5) len by simp
  have yn: "([a, NUL] ! 0 = CHR ''y'' \<or> [a, NUL] ! 0 = CHR ''Y'') = True" using assms(7) by simp
  have "book_step3 yn ?es c = (if ?es ! k \<noteq> ?new
      then print_person_information (?es[k := ?new]) (print new_title ?c3) \<bind>
        (\<lambda>c. Some (0, ?es[k := ?new], print finish_text c))
      else Some (0, ?es, print finish_text (print same_text ?c3)))"
    unfolding book_step3_def r1 bind.bind_lunit prod.case yn if_True r2 if_not_P [OF cond] Let_def r3
    by simp
  also have "\<dots> = Some (0, ?es[k := ?new], (print (prompt_change @ prompt_index @ change_title @
      input_dialogue (int k + 1) @
      (if entries 1 ps olds ! k = entry (int k + 1) q zero_info then same_text else new_title @ shown_all 1 (ps[k := q])) @ finish_text) c)\<lparr>inp := rest\<rparr>)"
    unfolding pr using upd_same by (simp add: print_inp print_print)
  finally show ?thesis .
qed

text \<open>
  C9: a change at the second question (answer y or Y) of a person whose entry came from calloc:
  the program finds the information the same exactly when the same words were typed; in both
  cases the memory then holds the typed person at that index and every other entry unchanged,
  and a changed book is listed with the new person.
\<close>

theorem book_change:
  assumes "list_all person_ok ps" and "length olds = length ps" and "\<forall>b\<in>set olds. length b = info_size"
    and "int (length ps) < 2 ^ 31 - 1" and "k < length ps" and "olds ! k = zero_info"
    and "person_ok q" and "a = CHR ''y'' \<or> a = CHR ''Y''"
    and "inp c = nl # [a] @ nl # dec (int k + 1) @ typed q @ rest" and "token_end rest"
  shows "book_step3 yn (entries 1 ps olds) c =
    Some (0, (entries 1 ps olds)[k := entry (int k + 1) q zero_info],
      (print (prompt_change @ prompt_index @ change_title @ input_dialogue (int k + 1) @
        (if q = ps ! k then same_text else new_title @ shown_all 1 (ps[k := q])) @ finish_text) c)
      \<lparr>inp := rest\<rparr>)"
proof -
  have nth: "entries 1 ps olds ! k = entry (int k + 1) (ps ! k) zero_info"
    using entries_nth [OF assms(5,2), of 1] assms(6) by (simp add: add.commute)
  have pk: "person_ok (ps ! k)" using assms(1,5) by (simp add: list_all_length)
  have "(entries 1 ps olds ! k = entry (int k + 1) q zero_info) = (q = ps ! k)"
    using entry_inj [OF _ pk assms(7), of "int k + 1" zero_info] nth by (auto simp: zero_info_def)
  with step3_change [OF assms(1-5,7-10)] show ?thesis by simp
qed

theorem book_change_witness:
  "book_step3 [] [entry 1 (sample_person ''Kim'') zero_info]
     (typing (nl # ''Y'' @ nl # dec 1 @ typed (sample_person ''Lee''))) =
   Some (0, [entry 1 (sample_person ''Lee'') zero_info],
     (print (prompt_change @ prompt_index @ change_title @ input_dialogue 1 @ new_title @
       shown_all 1 [sample_person ''Lee''] @ finish_text)
       (typing (nl # ''Y'' @ nl # dec 1 @ typed (sample_person ''Lee''))))\<lparr>inp := []\<rparr>)"
proof -
  have "sample_person ''Lee'' \<noteq> sample_person ''Kim''" by (simp add: sample_person_def)
  then show ?thesis
    using book_change [of "[sample_person ''Kim'']" "[zero_info]" 0 "sample_person ''Lee''"
        "CHR ''Y''" "typing (nl # ''Y'' @ nl # dec 1 @ typed (sample_person ''Lee''))" "[]" "[]"]
    by (simp add: sample_person_ok typing_def zero_info_def)
qed

text \<open>
  The first question does not accept the answer Y that its source compares with: the
  comparison looks at \<open>yn[1]\<close>, which is the NUL after a one-letter answer, so for every
  answer other than y nothing is added, whatever is typed after it.
\<close>

theorem book_first_question_upper_case:
  assumes "inp c = nl # [a] @ rest" and "\<not> is_space a" and "a \<noteq> NUL" and "a \<noteq> CHR ''y''"
    and "token_end rest"
  shows "book_step2 realloc_error junk addr c =
    Some ([a, NUL], Inr addr, (print prompt_more c)\<lparr>inp := rest\<rparr>)"
proof -
  have "read_yn [] (print prompt_more c) = Some ([a, NUL], (print prompt_more c)\<lparr>inp := rest\<rparr>)"
    by (rule read_yn_token) (use assms in simp_all)
  with assms(4) show ?thesis by (simp add: book_step2_def)
qed

theorem book_first_question_upper_case_witness:
  "book_step2 None (\<lambda>_. []) [zero_info] (typing (nl # ''Y'' @ nl # dec 2)) =
    Some ([CHR ''Y'', NUL], Inr [zero_info], (print prompt_more (typing (nl # ''Y'' @ nl # dec 2)))\<lparr>inp := nl # dec 2\<rparr>)"
  by (rule book_first_question_upper_case) (simp_all add: typing_def)

lemma same_words_differ:
  assumes "person_ok p" and "length old = info_size" and "old ! (info_size - 1) \<noteq> NUL"
    and "length (paddress p) < 127"
  shows "entry i p old \<noteq> entry i p zero_info"
proof -
  have len: "length (entry i p b) = info_size" if "length b = info_size" for b
    using length_entry [OF assms(1) that] .
  have last: "entry i p b ! 227 = b ! 227" if lb: "length b = info_size" for b
  proof -
    obtain x n ph m a where b: "b = x @ n @ ph @ m @ a" and l: "length x = 4" "length n = 32"
      "length ph = 32" "length m = 32" "length a = 128" using five_parts [OF lb] .
    have f: "length (field (pname p) n) = 32" "length (field (pphone p) ph) = 32"
      "length (field (pmobile p) m) = 32"
      using assms(1) l by (simp_all add: person_ok_def)
    have "entry i p b ! 227 = field (paddress p) a ! 127"
      unfolding b entry_parts [OF assms(1) l] using f by (simp add: nth_append)
    also have "\<dots> = a ! 127" using assms(4) l(5) by (simp add: field_def nth_append)
    also have "\<dots> = b ! 227" unfolding b using l by (simp add: nth_append)
    finally show ?thesis .
  qed
  have "zero_info ! 227 = NUL" by (simp add: zero_info_def info_size_def)
  with last [OF assms(2)] last [of zero_info] assms(3) show ?thesis
    by (auto simp: zero_info_def info_size_def)
qed

text \<open>
  For a person in the part that realloc added, comparing bytes is not comparing the
  words: with other bytes than zeros after a word's NUL, retyping the very same words counts
  as a change: the book is listed as new and never reported the same.
\<close>

theorem book_same_words_differ:
  assumes "list_all person_ok ps" and "length olds = length ps" and "\<forall>b\<in>set olds. length b = info_size"
    and "int (length ps) < 2 ^ 31 - 1" and "k < length ps"
    and "olds ! k ! (info_size - 1) \<noteq> NUL" and "length (paddress (ps ! k)) < 127"
    and "inp c = nl # ''y'' @ nl # dec (int k + 1) @ typed (ps ! k) @ rest" and "token_end rest"
  shows "\<exists>addr. book_step3 yn (entries 1 ps olds) c =
    Some (0, addr, (print (prompt_change @ prompt_index @ change_title @ input_dialogue (int k + 1) @
      new_title @ shown_all 1 ps @ finish_text) c)\<lparr>inp := rest\<rparr>)"
proof -
  have pk: "person_ok (ps ! k)" using assms(1,5) by (simp add: list_all_length)
  have "length (olds ! k) = info_size" using assms(2,3,5) by simp
  then have "entries 1 ps olds ! k \<noteq> entry (int k + 1) (ps ! k) zero_info"
    using same_words_differ [OF pk _ assms(6,7)] entries_nth [OF assms(5,2), of 1] by (simp add: add.commute)
  with step3_change [OF assms(1-5) pk, of "CHR ''y''" c rest yn] assms(8,9) show ?thesis by simp
qed

theorem book_same_words_differ_witness:
  "\<exists>addr c. book_step3 [] [entry 1 (sample_person ''Kim'') (replicate 228 CHR ''z'')]
     (typing (nl # ''y'' @ nl # dec 1 @ typed (sample_person ''Kim''))) = Some (0, addr, c) \<and>
     out c = prompt_change @ prompt_index @ change_title @ input_dialogue 1 @
       new_title @ shown_all 1 [sample_person ''Kim''] @ finish_text"
proof -
  have "length (paddress (sample_person ''Kim'')) < 127" by (simp add: sample_person_def)
  then show ?thesis
    using book_same_words_differ [of "[sample_person ''Kim'']" "[replicate 228 CHR ''z'']" 0
        "typing (nl # ''y'' @ nl # dec 1 @ typed (sample_person ''Kim''))" "[]" "[]"]
    by (fastforce simp: sample_person_ok typing_def info_size_def)
qed

section \<open>The memory is well formed in every run\<close>

text \<open>An entry that carries its number and whose four arrays hold strings.\<close>

definition terminated_at :: "bytes \<Rightarrow> nat \<Rightarrow> nat \<Rightarrow> bool" where
  "terminated_at e at sz \<longleftrightarrow> NUL \<in> set (take sz (drop at e))"

definition entry_ok :: "int \<Rightarrow> bytes \<Rightarrow> bool" where
  "entry_ok i e \<longleftrightarrow> length e = info_size \<and> bytes_int e = i \<and> terminated_at e name_at 32 \<and>
     terminated_at e phone_at 32 \<and> terminated_at e mobile_at 32 \<and> terminated_at e address_at 128"

lemma show_field_Some: "show_field at sz l e c = Some c' \<Longrightarrow> terminated_at e at sz"
  by (simp add: show_field_def terminated_at_def split: if_splits)

lemma print_terminated:
  "print_person_information es c = Some c' \<Longrightarrow> e \<in> set es \<Longrightarrow> terminated_at e name_at 32 \<and>
     terminated_at e phone_at 32 \<and> terminated_at e mobile_at 32 \<and> terminated_at e address_at 128"
proof (induction es arbitrary: c)
  case (Cons f es)
  from Cons.prems(1) obtain c1 c2 c3 c4 c5 where "show_field name_at 32 ''Name: '' f c1 = Some c2"
    "show_field phone_at 32 ''Phone: '' f c2 = Some c3" "show_field mobile_at 32 ''Mobile: '' f c3 = Some c4"
    "show_field address_at 128 ''Address: '' f c4 = Some c5" and r: "print_person_information es c5 = Some c'"
    by (auto simp: Let_def split: Option.bind_splits)
  then show ?case using Cons.IH [OF r] Cons.prems(2) show_field_Some by (metis set_ConsD)
qed simp

lemma bytes_int_take: "4 \<le> length e \<Longrightarrow> bytes_int e = bytes_int (take 4 e)"
  by (simp add: bytes_int_def bytes_nat_def nth_take)

lemma read_field_keeps:
  assumes "read_field at sz p e c = Some (e', c')" and "4 \<le> at" and "at + sz \<le> length e"
  shows "length e' = length e" and "take 4 e' = take 4 e"
  using assms by (auto simp: read_field_def take_overwrite_before split: option.splits if_splits)

text \<open>One person: the entry keeps its size and gets its number.\<close>

lemma input_one:
  assumes "input_person_information book m i (Suc n) c = Some (book', c')"
    and "\<forall>e\<in>set book. length e = info_size" and "int32 i"
  obtains e c1 where "m < length book" "length e = info_size" "bytes_int e = i"
    "input_person_information (book[m := e]) (Suc m) (i + 1) n c1 = Some (book', c')"
proof -
  from assms(1) obtain e1 e2 e3 e4 c0 c1 c2 c3 c4 where m: "m < length book"
    and r: "read_field name_at 32 ''Input name: '' (overwrite (book ! m) 0 (int_bytes i)) c0 = Some (e1, c1)"
    "read_field phone_at 32 ''Input phone number: '' e1 c1 = Some (e2, c2)"
    "read_field mobile_at 32 ''Input mobile number: '' e2 c2 = Some (e3, c3)"
    "read_field address_at 128 ''Input address: '' e3 c3 = Some (e4, c4)"
    and rest: "input_person_information (book[m := e4]) (Suc m) (i + 1) n c4 = Some (book', c')"
    by (auto simp: Let_def split: Option.bind_splits if_splits)
  have l: "length (book ! m) = info_size" using assms(2) m by simp
  then have l0: "length (overwrite (book ! m) 0 (int_bytes i)) = info_size" by (simp add: info_size_def)
  have l1: "length e1 = info_size" "take 4 e1 = int_bytes i"
    using read_field_keeps [OF r(1)] l0 by (simp_all add: layout overwrite_start)
  have l2: "length e2 = info_size" "take 4 e2 = int_bytes i"
    using read_field_keeps [OF r(2)] l1 by (simp_all add: layout)
  have l3: "length e3 = info_size" "take 4 e3 = int_bytes i"
    using read_field_keeps [OF r(3)] l2 by (simp_all add: layout)
  have l4: "length e4 = info_size" "take 4 e4 = int_bytes i"
    using read_field_keeps [OF r(4)] l3 by (simp_all add: layout)
  have "bytes_int e4 = i"
    using bytes_int_take [of e4] l4 bytes_int_int_bytes [OF assms(3), of "[]"] by (simp add: info_size_def)
  with that m l4(1) rest show thesis by blast
qed

definition numbered :: "int \<Rightarrow> bytes list \<Rightarrow> bool" where
  "numbered i es \<longleftrightarrow> (\<forall>k<length es. length (es ! k) = info_size \<and> bytes_int (es ! k) = i + int k)"

lemma all_less_add: "(\<forall>k<m + n. P k) \<longleftrightarrow> (\<forall>k<m. P k) \<and> (\<forall>k<n. P (m + k))" for m n :: nat
proof safe
  fix k assume "\<forall>k<m. P k" "\<forall>k<n. P (m + k)" "k < m + n"
  then show "P k" by (cases "k < m") (auto dest: spec [of _ "k - m"])
qed simp_all

lemma all_less_two: "(\<forall>k<Suc (Suc 0). P k) \<longleftrightarrow> P 0 \<and> P (Suc 0)"
  by (auto simp: All_less_Suc)

lemma numbered_append: "numbered i (xs @ ys) \<longleftrightarrow> numbered i xs \<and> numbered (i + int (length xs)) ys"
  by (simp add: numbered_def all_less_add nth_append algebra_simps)

lemma input_numbered:
  assumes "input_person_information (pre @ olds) (length pre) i (length olds) c = Some (book, c')"
    and "numbered 1 pre" and "\<forall>e\<in>set olds. length e = info_size"
    and "i = int (length pre) + 1" and "int (length pre) + int (length olds) < 2 ^ 31"
  shows "length book = length pre + length olds \<and> numbered 1 book"
  using assms
proof (induction olds arbitrary: pre i c)
  case Nil
  then show ?case by simp
next
  case (Cons old olds)
  have "\<forall>e\<in>set pre. length e = info_size" using Cons.prems(2) by (auto simp: numbered_def in_set_conv_nth)
  then have sz: "\<forall>e\<in>set (pre @ old # olds). length e = info_size" using Cons.prems(3) by auto
  have "int32 i" using Cons.prems(4,5) by (simp add: int32_def)
  then obtain e c1 where e: "length e = info_size" "bytes_int e = i"
    and r: "input_person_information ((pre @ old # olds)[length pre := e]) (Suc (length pre)) (i + 1) (length olds) c1 = Some (book, c')"
    using input_one [of "pre @ old # olds" "length pre" i "length olds" c book c'] Cons.prems(1) sz by auto
  have "numbered 1 (pre @ [e])"
    using Cons.prems(2,4) e by (simp add: numbered_append) (simp add: numbered_def)
  moreover have "input_person_information ((pre @ [e]) @ olds) (length (pre @ [e])) (i + 1) (length olds) c1 = Some (book, c')"
    using r by simp
  ultimately have "length book = length (pre @ [e]) + length olds \<and> numbered 1 book"
    using Cons.prems(3-5) by (intro Cons.IH) auto
  then show ?case by simp
qed

lemma read_int_range: "read_int c = Some (i, c') \<Longrightarrow> int32 i"
  using to_int32_range by (auto simp: read_int_def scan_d_def Let_def split: option.splits prod.splits if_splits)

lemma step2_numbered:
  assumes "book_step2 re junk addr c = Some (yn, Inr addr', c')" and "numbered 1 addr"
    and "\<forall>k. length (junk k) = info_size" and "int (length addr) < 2 ^ 31"
  shows "numbered 1 addr' \<and> int (length addr') < 2 ^ 31"
proof (cases "addr' = addr")
  case False
  with assms(1) obtain n c1 c2 where n: "0 < n" "int (length addr) + n < 2 ^ 31"
    and r: "input_person_information (addr @ map junk [length addr..<length addr + nat n]) (length addr)
      (int (length addr) + 1) (nat n) c1 = Some (addr', c2)"
    by (auto simp: book_step2_def Let_def split: Option.bind_splits if_splits option.splits)
  let ?olds = "map junk [length addr..<length addr + nat n]"
  have l: "length ?olds = nat n" by simp
  have z: "\<forall>e\<in>set ?olds. length e = info_size" using assms(3) by simp
  have "length addr' = length addr + length ?olds \<and> numbered 1 addr'"
    by (rule input_numbered [OF _ assms(2) z], unfold l, rule r) (use n in simp_all)
  then show ?thesis using n l by simp
qed (use assms in simp)

lemma step3_ok:
  assumes "book_step3 yn addr c = Some (code, addr', c')" and "numbered 1 addr" and "int (length addr) < 2 ^ 31"
    and "print_person_information addr d = Some d'"
  shows "numbered 1 addr' \<and> (\<exists>d d'. print_person_information addr' d = Some d')"
proof (cases "addr' = addr")
  case False
  with assms(1) obtain i new c1 c2 c3 c4 where i: "0 < i" "i \<le> int (length addr)"
    and new: "input_person_information [zero_info] 0 i 1 c1 = Some (new, c2)"
    and a: "addr' = addr[nat (i - 1) := new ! 0]" and pr: "print_person_information addr' c3 = Some c4"
    by (auto simp: book_step3_def Let_def not_le simp del: input_person_information.simps split: Option.bind_splits if_splits)
  have i32: "int32 i" using i assms(3) by (simp add: int32_def)
  obtain e where "length e = info_size" "bytes_int e = i" "new = [e]"
    by (rule input_one [OF new [unfolded One_nat_def] _ i32]) (auto simp: zero_info_def)
  then have "numbered 1 addr'"
    using assms(2) i unfolding a by (auto simp: numbered_def nth_list_update)
  with pr show ?thesis by blast
qed (use assms in auto)

text \<open>
  C21: whatever is typed, if a run has no undefined behaviour, then the memory it leaves is well
  formed: each entry has its 228 bytes, carries its position as its number, and its four arrays
  hold terminated strings.
\<close>
theorem book_well_formed:
  assumes "book_main calloc_error realloc_error junk c = Some (code, addr, c')" and "\<forall>k. length (junk k) = info_size"
  shows "\<forall>k<length addr. entry_ok (int k + 1) (addr ! k)"
proof (cases "addr = []")
  case False
  with assms(1) obtain n book yn addr0 d d' c1 c2 c3 c4 c5 c6 where n: "0 < n" "read_int c1 = Some (n, c2)"
    and i: "input_person_information (replicate (nat n) zero_info) 0 1 (nat n) c2 = Some (book, c3)"
    and s2: "book_step2 realloc_error junk book c3 = Some (yn, Inr addr0, c4)"
    and p: "print_person_information addr0 c5 = Some c6" and s3: "book_step3 yn addr0 c6 = Some (code, addr, c')"
    by (auto simp: book_main_def Let_def not_le split: Option.bind_splits if_splits option.splits sum.splits)
  have "n < 2 ^ 31" using read_int_range [OF n(2)] by (simp add: int32_def)
  then have "length book = nat n \<and> numbered 1 book"
    using input_numbered [of "[]" "replicate (nat n) zero_info" 1 c2 book c3] i n(1)
    by (simp add: numbered_def zero_info_def)
  with \<open>n < 2 ^ 31\<close> n(1) have a0: "numbered 1 addr0 \<and> int (length addr0) < 2 ^ 31"
    using step2_numbered [OF s2 _ assms(2)] by simp
  then have "numbered 1 addr" "\<exists>d d'. print_person_information addr d = Some d'"
    using step3_ok [OF s3 _ _ p] by blast+
  then show ?thesis using print_terminated unfolding entry_ok_def numbered_def by (metis nth_mem add.commute)
qed simp

theorem book_well_formed_witness:
  "entry_ok 1 (entry 1 (sample_person ''Kim'') zero_info) \<and> entry_ok 2 (entry 2 (sample_person ''Lee'') (replicate 228 CHR ''z''))"
proof -
  obtain c where "book_main None None (\<lambda>_. replicate 228 CHR ''z'')
     (typing (dec 1 @ typed (sample_person ''Kim'') @ nl # ''y'' @ nl # dec 1 @
        typed (sample_person ''Lee'') @ nl # ''n'' @ [nl])) =
     Some (0, [entry 1 (sample_person ''Kim'') zero_info,
       entry 2 (sample_person ''Lee'') (replicate 228 CHR ''z'')], c)"
    using run_listed [of "[sample_person ''Kim'']" "[sample_person ''Lee'']" "\<lambda>_. replicate 228 CHR ''z''"
      "typing (dec 1 @ typed (sample_person ''Kim'') @ nl # ''y'' @ nl # dec 1 @
        typed (sample_person ''Lee'') @ nl # ''n'' @ [nl])" "[nl]"]
    by (simp add: sample_person_ok typing_def info_size_def zeros_def)
  from book_well_formed [OF this] show ?thesis by (simp add: info_size_def all_less_two)
qed

end
