(* ===== verification/Shared_Memory.thy ===== *)
theory Shared_Memory
  imports Console
begin

text \<open>
  The shared memory programs: \<open>SysV/shm_write.c\<close> and \<open>SysV/shm_read.c\<close>, which meet at the
  segment of an IPC key, and \<open>POSIX/posix_shm_write.c\<close> and \<open>POSIX/posix_shm_read.c\<close>, which meet
  at the object "shmtest". The kernel's segments and objects live on between the runs; the
  programs run one after the other on one terminal. What the System V programs have in
  common with the POSIX ones is the interface \<open>text_exchange\<close>.
\<close>

section \<open>Kernel state\<close>

datatype ending = Exit int | Crash \<comment> \<open>an access to memory that is not mapped\<close>

record shm_world = console +
  segments :: "int \<Rightarrow> bytes option" \<comment> \<open>by key\<close>
  objects :: "string \<Rightarrow> bytes option"

definition SHM_SIZE :: nat where "SHM_SIZE = 1024"
definition PAGE :: nat where "PAGE = 4096"

text \<open>
  The string at the start of a mapping: the bytes after the end of the object up to the next
  page boundary read as zero; behind them nothing is mapped.
\<close>

definition padded :: "bytes \<Rightarrow> bytes" where
  "padded b = b @ replicate ((PAGE - length b mod PAGE) mod PAGE) NUL"

definition mapped_string :: "bytes \<Rightarrow> string option" where
  "mapped_string m = (if NUL \<in> set m then Some (cstr m) else None)"

section \<open>System V\<close>

text \<open>
  \<open>shmget(key, 1024, IPC_CREAT|0666)\<close>: an existing smaller segment is an error, \<open>IPC_PRIVATE\<close> (0)
  is always a new one. \<open>refused\<close>: the kernel fails the call for another reason (permissions,
  limits). The programs check neither this result nor those of ftok and shmat, so after a failure
  the string pointer is \<open>(void *) -1\<close> and its first use ends the process.
\<close>

definition shmget :: "bool \<Rightarrow> int \<Rightarrow> shm_world \<Rightarrow> bytes option" where
  "shmget refused key w =
     (if refused then None
      else if key = 0 then Some (replicate SHM_SIZE NUL)
      else case segments w key of
        None \<Rightarrow> Some (replicate SHM_SIZE NUL)
      | Some b \<Rightarrow> if length b < SHM_SIZE then None else Some b)"

definition put_segment :: "int \<Rightarrow> bytes option \<Rightarrow> shm_world \<Rightarrow> shm_world" where
  "put_segment key b w = (if key = 0 then w else w\<lparr>segments := (segments w)(key := b)\<rparr>)"

definition sysv_shm_write :: "string \<Rightarrow> bool \<Rightarrow> int \<Rightarrow> shm_world \<Rightarrow> ending \<times> shm_world" where
  "sysv_shm_write e refused key w =
     (case shmget refused key w of
        None \<Rightarrow> (Crash, w)
      | Some str \<Rightarrow>
          (let w = put_segment key (Some str) (print ''input data: '' w) in
           case fgets SHM_SIZE (inp w) of
             None \<Rightarrow> (Exit 1, perror ''fgets erro: '' e w)
           | Some (line, rest) \<Rightarrow>
               (let str = store_line str line in
                (Exit 0, print (''Written data: '' @ cstr str @ [nl])
                   (put_segment key (Some str) (w\<lparr>inp := rest\<rparr>))))))"

definition sysv_shm_read :: "bool \<Rightarrow> int \<Rightarrow> shm_world \<Rightarrow> ending \<times> shm_world" where
  "sysv_shm_read refused key w =
     (case shmget refused key w of
        None \<Rightarrow> (Crash, w)
      | Some str \<Rightarrow>
          (case mapped_string (padded str) of
             None \<Rightarrow> (Crash, put_segment key (Some str) w)
           | Some t \<Rightarrow> (Exit 0, put_segment key None (print (''read data: '' @ t @ [nl]) w))))"

section \<open>POSIX\<close>

definition shm_name :: string where "shm_name = ''shmtest''"

text \<open>The results of the calls before the mapping is used: an error description or success.\<close>

record shm_faults =
  shm_open_error :: "string option"
  ftruncate_error :: "string option"
  mmap_error :: "string option"

definition ftruncate :: "nat \<Rightarrow> bytes \<Rightarrow> bytes" where
  "ftruncate n b = take n b @ replicate (n - length b) NUL"

definition put_object :: "bytes option \<Rightarrow> shm_world \<Rightarrow> shm_world" where
  "put_object b w = w\<lparr>objects := (objects w)(shm_name := b)\<rparr>"

definition posix_shm_write :: "string \<Rightarrow> shm_faults \<Rightarrow> shm_world \<Rightarrow> ending \<times> shm_world" where
  "posix_shm_write e f w =
     (case shm_open_error f of
        Some er \<Rightarrow> (Exit 1, perror ''shm_open error: '' er w)
      | None \<Rightarrow>
          (let b = (case objects w shm_name of None \<Rightarrow> [] | Some b \<Rightarrow> b);
               w = put_object (Some b) w
           in case ftruncate_error f of
                Some er \<Rightarrow> (Exit 1, perror ''ftruncate error: '' er w)
              | None \<Rightarrow>
                  (let b = ftruncate SHM_SIZE b; w = put_object (Some b) w
                   in case mmap_error f of
                        Some er \<Rightarrow> (Exit 1, perror ''mmap error: '' er w)
                      | None \<Rightarrow>
                          (let w = print ''Input data: '' w in
                           case fgets SHM_SIZE (inp w) of
                             None \<Rightarrow> (Exit 1, perror ''fgets erro: '' e w)
                           | Some (line, rest) \<Rightarrow>
                               (let b = store_line b line in
                                (Exit 0, print (''Written data: '' @ cstr b @ [nl])
                                   (put_object (Some b) (w\<lparr>inp := rest\<rparr>))))))))"

text \<open>The reader maps one page; of an empty object nothing can be read.\<close>

definition posix_shm_read :: "shm_faults \<Rightarrow> shm_world \<Rightarrow> ending \<times> shm_world" where
  "posix_shm_read f w =
     (case (shm_open_error f, objects w shm_name) of
        (Some er, _) \<Rightarrow> (Exit 1, perror ''shm_open error: '' er w)
      | (None, None) \<Rightarrow> (Exit 1, perror ''shm_open error: '' ''No such file or directory'' w)
      | (None, Some b) \<Rightarrow>
          (case mmap_error f of
             Some er \<Rightarrow> (Exit 1, perror ''mmap error: '' er w)
           | None \<Rightarrow>
               (case mapped_string (take PAGE (padded b)) of
                  None \<Rightarrow> (Crash, w)
                | Some t \<Rightarrow> (Exit 0, put_object None (print (''data: '' @ t) w)))))"

section \<open>The interface\<close>

text \<open>
  \<open>ready\<close>: the kernel will let the programs meet; \<open>object w\<close>: the shared bytes;
  \<open>asks\<close>, \<open>label\<close>: what the two programs print around the text.
\<close>

locale text_exchange =
  fixes writer reader :: "shm_world \<Rightarrow> ending \<times> shm_world" and ready :: "shm_world \<Rightarrow> bool"
    and object :: "shm_world \<Rightarrow> bytes option" and asks :: string and label :: "string \<Rightarrow> string"
  assumes writer_law: "ready w \<Longrightarrow> fgets SHM_SIZE (inp w) = Some (line, rest) \<Longrightarrow> c_string line \<Longrightarrow>
      \<exists>w' b. writer w = (Exit 0, w') \<and> inp w' = rest \<and> err w' = err w \<and>
        out w' = out w @ asks @ ''Written data: '' @ line @ [nl] \<and>
        object w' = Some (line @ NUL # b) \<and> SHM_SIZE \<le> length (line @ NUL # b)"
    and reader_law: "object w = Some (line @ NUL # b) \<Longrightarrow> SHM_SIZE \<le> length (line @ NUL # b) \<Longrightarrow>
      length line < SHM_SIZE \<Longrightarrow> c_string line \<Longrightarrow>
      \<exists>w'. reader w = (Exit 0, w') \<and> inp w' = inp w \<and> err w' = err w \<and>
        out w' = out w @ label line \<and> object w' = None"
begin

text \<open>What the writer read is what the reader shows, and the reader leaves nothing behind.\<close>

lemma exchange:
  assumes "ready w" and "fgets SHM_SIZE (inp w) = Some (line, rest)" and "c_string line"
  shows "\<exists>w1 w2. writer w = (Exit 0, w1) \<and> reader w1 = (Exit 0, w2) \<and> inp w2 = rest \<and>
    out w2 = out w @ asks @ ''Written data: '' @ line @ [nl] @ label line \<and> err w2 = err w \<and>
    object w2 = None"
proof -
  obtain w1 b where w1: "writer w = (Exit 0, w1)" "inp w1 = rest" "err w1 = err w"
      "out w1 = out w @ asks @ ''Written data: '' @ line @ [nl]"
      "object w1 = Some (line @ NUL # b)" "SHM_SIZE \<le> length (line @ NUL # b)"
    using writer_law [OF assms] by blast
  have "length line \<le> SHM_SIZE - 1" using fgets_Some [OF assms(2)] by blast
  then have "length line < SHM_SIZE" by (simp add: SHM_SIZE_def)
  from reader_law [OF w1(5,6) this assms(3)] w1 show ?thesis by auto
qed

end

section \<open>The two implementations\<close>

lemma store_line_split:
  assumes "length line < length b" shows "store_line b line = line @ NUL # drop (Suc (length line)) b"
  using assms by (simp add: store_line_def overwrite_start)

lemma mapped_string_text [simp]: "c_string t \<Longrightarrow> mapped_string (t @ NUL # rest) = Some t"
  by (simp add: mapped_string_def)

definition sysv_ready :: "int \<Rightarrow> shm_world \<Rightarrow> bool" where
  "sysv_ready key w \<longleftrightarrow> key \<noteq> 0 \<and> (\<forall>b. segments w key = Some b \<longrightarrow> SHM_SIZE \<le> length b)"

lemma shmget_ready:
  assumes "sysv_ready key w" obtains b where "shmget False key w = Some b" "SHM_SIZE \<le> length b"
  using assms by (cases "segments w key") (auto simp: sysv_ready_def shmget_def)

lemma console_put [simp]:
  "inp (put_segment key b w) = inp w" "out (put_segment key b w) = out w"
  "err (put_segment key b w) = err w" "inp (put_object c w) = inp w" "out (put_object c w) = out w"
  "err (put_object c w) = err w" "objects (put_object c w) = (objects w)(shm_name := c)"
  "key \<noteq> 0 \<Longrightarrow> segments (put_segment key b w) = (segments w)(key := b)"
  "segments (print t w) = segments w" "objects (print t w) = objects w"
  "segments (perror t u w) = segments w" "objects (perror t u w) = objects w"
  by (simp_all add: put_segment_def put_object_def print_def perror_def)

interpretation sysv_shm: text_exchange "sysv_shm_write e False key" "sysv_shm_read False key"
  "sysv_ready key" "\<lambda>w. if key = 0 then None else segments w key" "''input data: ''"
  "\<lambda>t. ''read data: '' @ t @ [nl]" for e key
proof unfold_locales
  fix w line rest
  assume r: "sysv_ready key w" and f: "fgets SHM_SIZE (inp w) = Some (line, rest)" and c: "c_string line"
  have k: "key \<noteq> 0" using r by (simp add: sysv_ready_def)
  obtain b where b: "shmget False key w = Some b" "SHM_SIZE \<le> length b" using shmget_ready [OF r] .
  have "length line \<le> SHM_SIZE - 1" using fgets_Some [OF f] by blast
  then have l: "length line < length b" using b(2) by (simp add: SHM_SIZE_def)
  show "\<exists>w' b. sysv_shm_write e False key w = (Exit 0, w') \<and> inp w' = rest \<and> err w' = err w \<and>
      out w' = out w @ ''input data: '' @ ''Written data: '' @ line @ [nl] \<and>
      (if key = 0 then None else segments w' key) = Some (line @ NUL # b) \<and>
      SHM_SIZE \<le> length (line @ NUL # b)"
    using b f c k l by (simp add: sysv_shm_write_def Let_def store_line_split)
next
  fix w :: shm_world and line b
  assume o: "(if key = 0 then None else segments w key) = Some (line @ NUL # b)"
    and l: "SHM_SIZE \<le> length (line @ NUL # b)" and c: "c_string line"
  then have k: "key \<noteq> 0" and s: "shmget False key w = Some (line @ NUL # b)"
    by (auto simp: shmget_def split: if_splits)
  have "mapped_string (padded (line @ NUL # b)) = Some line"
    using mapped_string_text [OF c] by (simp add: padded_def)
  with k s show "\<exists>w'. sysv_shm_read False key w = (Exit 0, w') \<and> inp w' = inp w \<and> err w' = err w \<and>
      out w' = out w @ ''read data: '' @ line @ [nl] \<and> (if key = 0 then None else segments w' key) = None"
    by (simp add: sysv_shm_read_def)
qed

definition no_shm_faults :: shm_faults where
  "no_shm_faults = \<lparr>shm_open_error = None, ftruncate_error = None, mmap_error = None\<rparr>"

lemma length_ftruncate [simp]: "length (ftruncate n b) = n"
  by (simp add: ftruncate_def)

interpretation posix_shm: text_exchange "posix_shm_write e no_shm_faults" "posix_shm_read no_shm_faults"
  "\<lambda>w. True" "\<lambda>w. objects w shm_name" "''Input data: ''" "\<lambda>t. ''data: '' @ t" for e
proof unfold_locales
  fix w :: shm_world and line rest
  assume f: "fgets SHM_SIZE (inp w) = Some (line, rest)" and c: "c_string line"
  have "length line \<le> SHM_SIZE - 1" using fgets_Some [OF f] by blast
  then have l: "length line < SHM_SIZE" by (simp add: SHM_SIZE_def)
  show "\<exists>w' b. posix_shm_write e no_shm_faults w = (Exit 0, w') \<and> inp w' = rest \<and> err w' = err w \<and>
      out w' = out w @ ''Input data: '' @ ''Written data: '' @ line @ [nl] \<and>
      objects w' shm_name = Some (line @ NUL # b) \<and> SHM_SIZE \<le> length (line @ NUL # b)"
    using f c l by (simp add: posix_shm_write_def no_shm_faults_def Let_def store_line_split)
next
  fix w :: shm_world and line b
  assume o: "objects w shm_name = Some (line @ NUL # b)" and l: "length line < SHM_SIZE"
    and c: "c_string line"
  have "mapped_string (take PAGE (padded (line @ NUL # b))) = Some line"
  proof -
    obtain k where k: "PAGE - length line = Suc k"
      using l by (cases "PAGE - length line") (auto simp: PAGE_def SHM_SIZE_def)
    have "take PAGE (padded (line @ NUL # b)) = line @ NUL # take k (b @ replicate ((PAGE - length (line @ NUL # b) mod PAGE) mod PAGE) NUL)"
      using k by (simp add: padded_def)
    then show ?thesis using c by (simp only: mapped_string_text)
  qed
  with o show "\<exists>w'. posix_shm_read no_shm_faults w = (Exit 0, w') \<and> inp w' = inp w \<and> err w' = err w \<and>
      out w' = out w @ ''data: '' @ line \<and> objects w' shm_name = None"
    by (simp add: posix_shm_read_def no_shm_faults_def)
qed

section \<open>Properties\<close>

text \<open>
  C26: the System V pair: for a usable key, the writer stores and echoes the line typed, the
  reader then prints exactly this line and removes the segment, so that a second reader
  prints an empty line.
\<close>

theorem sysv_exchange:
  assumes "sysv_ready key w" and "fgets SHM_SIZE (inp w) = Some (line, rest)" and "c_string line"
  shows "\<exists>w1 w2 w3. sysv_shm_write e False key w = (Exit 0, w1) \<and> sysv_shm_read False key w1 = (Exit 0, w2) \<and>
    out w2 = out w @ ''input data: '' @ ''Written data: '' @ line @ [nl] @ ''read data: '' @ line @ [nl] \<and>
    segments w2 key = None \<and> sysv_shm_read False key w2 = (Exit 0, w3) \<and>
    out w3 = out w2 @ ''read data: '' @ [nl]"
proof -
  have k: "key \<noteq> 0" using assms(1) by (simp add: sysv_ready_def)
  obtain w1 w2 where w: "sysv_shm_write e False key w = (Exit 0, w1)" "sysv_shm_read False key w1 = (Exit 0, w2)"
    "out w2 = out w @ ''input data: '' @ ''Written data: '' @ line @ [nl] @ ''read data: '' @ line @ [nl]"
    "(if key = 0 then None else segments w2 key) = None"
    using sysv_shm.exchange [OF assms, where e = e] by blast
  from w(4) k have gone: "segments w2 key = None" by simp
  have "mapped_string (padded (replicate SHM_SIZE NUL)) = Some []"
    by (simp add: mapped_string_def padded_def cstr_def SHM_SIZE_def)
  with gone k have "\<exists>w3. sysv_shm_read False key w2 = (Exit 0, w3) \<and> out w3 = out w2 @ ''read data: '' @ [nl]"
    by (simp add: sysv_shm_read_def shmget_def)
  with w gone show ?thesis by blast
qed

definition typed_line :: shm_world where
  "typed_line = \<lparr>inp = ''hello'' @ [nl], out = [], err = [], segments = (\<lambda>_. None), objects = (\<lambda>_. None)\<rparr>"

lemma typed_line_fgets: "fgets SHM_SIZE (inp typed_line) = Some (''hello'' @ [nl], [])"
  using take_line_whole_line [of "''hello''" 1023 "[]"] by (simp add: fgets_def typed_line_def SHM_SIZE_def)

theorem sysv_exchange_witness:
  "\<exists>w1 w2. sysv_shm_write ''Success'' False 1234 typed_line = (Exit 0, w1) \<and>
     sysv_shm_read False 1234 w1 = (Exit 0, w2) \<and>
     out w2 = ''input data: Written data: hello'' @ [nl, nl] @ ''read data: hello'' @ [nl, nl]"
proof -
  have "sysv_ready 1234 typed_line" by (simp add: sysv_ready_def typed_line_def)
  from sysv_exchange [OF this typed_line_fgets, of "''Success''"] show ?thesis
    by (auto simp: typed_line_def)
qed

text \<open>
  C27: the POSIX pair: whatever the object held before, the reader prints the line that was
  typed into the writer and unlinks the object; another reader then fails in \<open>shm_open\<close>.
\<close>

theorem posix_exchange:
  assumes "fgets SHM_SIZE (inp w) = Some (line, rest)" and "c_string line"
  shows "\<exists>w1 w2. posix_shm_write e no_shm_faults w = (Exit 0, w1) \<and>
    posix_shm_read no_shm_faults w1 = (Exit 0, w2) \<and>
    out w2 = out w @ ''Input data: '' @ ''Written data: '' @ line @ [nl] @ ''data: '' @ line \<and>
    objects w2 shm_name = None \<and>
    posix_shm_read no_shm_faults w2 = (Exit 1, perror ''shm_open error: '' ''No such file or directory'' w2)"
proof -
  obtain w1 w2 where w: "posix_shm_write e no_shm_faults w = (Exit 0, w1)"
    "posix_shm_read no_shm_faults w1 = (Exit 0, w2)"
    "out w2 = out w @ ''Input data: '' @ ''Written data: '' @ line @ [nl] @ ''data: '' @ line"
    "objects w2 shm_name = None"
    using posix_shm.exchange [OF TrueI assms] by blast
  from w(4) have "posix_shm_read no_shm_faults w2 =
      (Exit 1, perror ''shm_open error: '' ''No such file or directory'' w2)"
    by (simp add: posix_shm_read_def no_shm_faults_def)
  with w show ?thesis by blast
qed

theorem posix_exchange_witness:
  "\<exists>w1 w2. posix_shm_write ''Success'' no_shm_faults typed_line = (Exit 0, w1) \<and>
     posix_shm_read no_shm_faults w1 = (Exit 0, w2) \<and>
     out w2 = ''Input data: Written data: hello'' @ [nl, nl] @ ''data: hello'' @ [nl]"
  using posix_exchange [OF typed_line_fgets, of "''Success''"] by (auto simp: typed_line_def)

text \<open>
  An unusable System V key is not noticed: when the kernel refuses the segment, or one of
  that key exists that is too small, both programs access the address -1.
\<close>

theorem sysv_unchecked:
  assumes "refused \<or> key \<noteq> 0 \<and> (\<exists>b. segments w key = Some b \<and> length b < SHM_SIZE)"
  shows "fst (sysv_shm_write e refused key w) = Crash \<and> fst (sysv_shm_read refused key w) = Crash"
  using assms by (auto simp: sysv_shm_write_def sysv_shm_read_def shmget_def)

theorem sysv_unchecked_witness:
  "fst (sysv_shm_read False 5 (typed_line\<lparr>segments := [5 \<mapsto> replicate 10 NUL]\<rparr>)) = Crash"
  using sysv_unchecked [of False 5 "typed_line\<lparr>segments := [5 \<mapsto> replicate 10 NUL]\<rparr>" "[]"]
  by (simp add: SHM_SIZE_def)

end
