(* ===== verification/Sysv_Queue.thy ===== *)
theory Sysv_Queue
  imports Console
begin

text \<open>
  \<open>SysV/sysv_mq_example.c\<close>: a program that sends or receives one message of a System V
  queue, with its getopt loop. A run is a function of the command line, the time, the stack
  bytes of \<open>msg\<close> and the kernel's queues, which live on between runs. The interface
  \<open>typed_queue\<close> states what a queue with message types is: one first-in-first-out queue
  for each type.
\<close>

section \<open>getopt\<close>

datatype opt = Flag char | With_arg char string | Missing char | Unknown char

definition takes_arg :: "char \<Rightarrow> bool" where
  "takes_arg c \<longleftrightarrow> c = CHR ''t'' \<or> c = CHR ''k''"

definition is_flag :: "char \<Rightarrow> bool" where
  "is_flag c \<longleftrightarrow> c = CHR ''s'' \<or> c = CHR ''r''"

text \<open>
  The results of repeated calls of \<open>getopt(argc, argv, "srt:k:")\<close>: the first argument is what
  is left of the current cluster of options, the second the arguments after it. Arguments
  that are not options are passed over, "--" ends the options.
\<close>

function getopt :: "string \<Rightarrow> string list \<Rightarrow> opt list" where
  "getopt [] [] = []"
| "getopt [] (a # as) =
     (if a = ''--'' then []
      else if 1 < length a \<and> a ! 0 = CHR ''-'' then getopt (tl a) as
      else getopt [] as)"
| "getopt (c # cs) as =
     (if is_flag c then Flag c # getopt cs as
      else if takes_arg c then
        (if cs \<noteq> [] then With_arg c cs # getopt [] as
         else (case as of [] \<Rightarrow> [Missing c] | x # xs \<Rightarrow> With_arg c x # getopt [] xs))
      else Unknown c # getopt cs as)"
  by pat_completeness auto
termination
  by (relation "measure (\<lambda>(c, as). length c + sum_list (map (\<lambda>a. length a + 1) as))") auto

section \<open>usage and the option loop\<close>

definition usage :: "string \<Rightarrow> string \<Rightarrow> string" where
  "usage prog_name msg = msg @ ''Usage: '' @ prog_name @ '' [options]'' @ [nl] @
     ''Options are:'' @ [nl] @
     ''-s        send message using msgsnd()'' @ [nl] @
     ''-r        read message using msgrcv()'' @ [nl] @
     ''-t        message type (default is 1)'' @ [nl] @
     ''-k        message queue key (default is 1234)'' @ [nl]"

definition getopt_message :: "string \<Rightarrow> opt \<Rightarrow> string" where
  "getopt_message prog o' = (case o' of
     Missing c \<Rightarrow> prog @ '': option requires an argument -- '' @ [CHR 0x27, c, CHR 0x27, nl]
   | Unknown c \<Rightarrow> prog @ '': invalid option -- '' @ [CHR 0x27, c, CHR 0x27, nl]
   | _ \<Rightarrow> [])"

record settings =
  mode :: int
  msgtype :: int
  msgkey :: int

definition default_settings :: settings where
  "default_settings = \<lparr>mode = 0, msgtype = 1, msgkey = 1234\<rparr>"

text \<open>The while loop over getopt; the left result is what an exit by \<open>usage\<close> wrote to stderr.\<close>

fun option_loop :: "string \<Rightarrow> opt list \<Rightarrow> settings \<Rightarrow> string + settings" where
  "option_loop prog [] s = Inr s"
| "option_loop prog (Flag c # os) s =
     option_loop prog os (if c = CHR ''s'' then s\<lparr>mode := 1\<rparr> else s\<lparr>mode := 2\<rparr>)"
| "option_loop prog (With_arg c a # os) s =
     (if c = CHR ''t'' then
        (if atoi a \<le> 0 then Inl (usage prog (''-t option must be greater than 0'' @ [nl]))
         else option_loop prog os (s\<lparr>msgtype := atoi a\<rparr>))
      else option_loop prog os (s\<lparr>msgkey := atoi a\<rparr>))"
| "option_loop prog (Missing c # os) s =
     Inl (getopt_message prog (Missing c) @ usage prog (''Unrecognized option'' @ [nl]))"
| "option_loop prog (Unknown c # os) s =
     Inl (getopt_message prog (Unknown c) @ usage prog (''Unrecognized option'' @ [nl]))"

section \<open>The kernel's queues\<close>

type_synonym queue = "(int \<times> bytes) list"

record mq_world = console +
  queues :: "int \<Rightarrow> queue option"

definition MTEXT :: nat where "MTEXT = 80"

text \<open>The number of bytes a queue may hold (\<open>msg_qbytes\<close>) is a parameter.\<close>

definition queue_bytes :: "queue \<Rightarrow> nat" where
  "queue_bytes q = sum_list (map (length \<circ> snd) q)"

definition msgsnd :: "nat \<Rightarrow> int \<Rightarrow> bytes \<Rightarrow> queue \<Rightarrow> string + queue" where
  "msgsnd qbytes ty b q =
     (if queue_bytes q + length b \<le> qbytes then Inr (q @ [(ty, b)])
      else Inl ''Resource temporarily unavailable'')"

fun msgrcv :: "int \<Rightarrow> queue \<Rightarrow> (bytes \<times> queue) option" where
  "msgrcv ty [] = None"
| "msgrcv ty ((ty', b) # q) =
     (if ty' = ty then Some (b, q)
      else map_option (\<lambda>(m, r). (m, (ty', b) # r)) (msgrcv ty q))"

section \<open>send_msg, get_msg and main\<close>

record mq_env =
  now :: string \<comment> \<open>the result of ctime\<close>
  stack_bytes :: bytes \<comment> \<open>the uninitialised \<open>msg.mtext\<close>\<close>
  qbytes :: nat
  get_error :: "string option"
  send_error :: "string option" \<comment> \<open>an error of msgsnd other than a full queue\<close>
  recv_error :: "string option" \<comment> \<open>an error of msgrcv other than \<open>ENOMSG\<close>\<close>

definition snprintf :: "nat \<Rightarrow> bytes \<Rightarrow> string \<Rightarrow> bytes" where
  "snprintf n buf t = overwrite buf 0 (take (n - 1) t @ [NUL])"

definition put_queue :: "int \<Rightarrow> queue \<Rightarrow> mq_world \<Rightarrow> mq_world" where
  "put_queue key q w = (if key = 0 then w else w\<lparr>queues := (queues w)(key := Some q)\<rparr>)"

text \<open>The bytes of \<open>msg.mtext\<close>: the text cut to 79 bytes, its NUL, and what was on the stack.\<close>

definition message_bytes :: "mq_env \<Rightarrow> bytes" where
  "message_bytes v = snprintf MTEXT (stack_bytes v) (''a message at '' @ now v)"

definition send_msg :: "mq_env \<Rightarrow> int \<Rightarrow> queue \<Rightarrow> int \<Rightarrow> mq_world \<Rightarrow> int \<times> mq_world" where
  "send_msg v key q ty w =
     (let mtext = message_bytes v in
      case (send_error v, msgsnd (qbytes v) ty mtext q) of
        (Some e, _) \<Rightarrow> (1, perror ''msgsnd error'' e w)
      | (None, Inl e) \<Rightarrow> (1, perror ''msgsnd error'' e w)
      | (None, Inr q) \<Rightarrow> (0, print (''sent: '' @ cstr mtext @ [nl]) (put_queue key q w)))"

definition get_msg :: "mq_env \<Rightarrow> int \<Rightarrow> queue \<Rightarrow> int \<Rightarrow> mq_world \<Rightarrow> int \<times> mq_world" where
  "get_msg v key q ty w =
     (case (recv_error v, msgrcv ty q) of
        (Some e, _) \<Rightarrow> (1, perror ''msgrcv'' e w)
      | (None, None) \<Rightarrow> (0, print (''No message available for msgrcv()'' @ [nl]) w)
      | (None, Some (b, q)) \<Rightarrow>
          (0, print (''message received: '' @ cstr (take MTEXT b) @ [nl]) (put_queue key q w)))"

text \<open>Key 0 is \<open>IPC_PRIVATE\<close>: a new queue that no other run can find.\<close>

definition mq_main :: "mq_env \<Rightarrow> string list \<Rightarrow> mq_world \<Rightarrow> int \<times> mq_world" where
  "mq_main v argv w =
     (case option_loop (argv ! 0) (getopt [] (tl argv)) default_settings of
        Inl t \<Rightarrow> (1, w\<lparr>err := err w @ t\<rparr>)
      | Inr s \<Rightarrow>
          (if mode s = 0
           then (1, w\<lparr>err := err w @ usage (argv ! 0) (''must use either -s or -r option'' @ [nl])\<rparr>)
           else case get_error v of
             Some e \<Rightarrow> (1, perror ''msgget'' e w)
           | None \<Rightarrow>
               (let q = (if msgkey s = 0 then [] else case queues w (msgkey s) of None \<Rightarrow> [] | Some q \<Rightarrow> q);
                    w = put_queue (msgkey s) q w
                in if mode s = 2 then get_msg v (msgkey s) q (msgtype s) w
                   else send_msg v (msgkey s) q (msgtype s) w)))"

section \<open>The interface of a queue with types\<close>

locale typed_queue =
  fixes snd_q :: "'t \<Rightarrow> 'm \<Rightarrow> 'q \<Rightarrow> 'q" and rcv_q :: "'t \<Rightarrow> 'q \<Rightarrow> ('m \<times> 'q) option"
    and view :: "'t \<Rightarrow> 'q \<Rightarrow> 'm list"
  assumes view_snd: "view t (snd_q t' m q) = (if t = t' then view t q @ [m] else view t q)"
    and view_rcv_None: "rcv_q t q = None \<longleftrightarrow> view t q = []"
    and view_rcv: "rcv_q t q = Some (m, q') \<Longrightarrow> view t q = m # view t q' \<and> (t' \<noteq> t \<longrightarrow> view t' q' = view t' q)"
begin

fun rcv_all :: "'t \<Rightarrow> nat \<Rightarrow> 'q \<Rightarrow> ('m list \<times> 'q) option" where
  "rcv_all t 0 q = Some ([], q)"
| "rcv_all t (Suc n) q = (case rcv_q t q of None \<Rightarrow> None
     | Some (m, q') \<Rightarrow> map_option (\<lambda>(ms, r). (m # ms, r)) (rcv_all t n q'))"

definition snd_all :: "('t \<times> 'm) list \<Rightarrow> 'q \<Rightarrow> 'q" where
  "snd_all ms q = foldl (\<lambda>q (t, m). snd_q t m q) q ms"

lemma view_snd_all: "view t (snd_all ms q) = view t q @ map snd (filter (\<lambda>(t', m). t' = t) ms)"
  by (induction ms arbitrary: q) (auto simp: snd_all_def view_snd)

lemma rcv_all_view:
  "n \<le> length (view t q) \<Longrightarrow> \<exists>q'. rcv_all t n q = Some (take n (view t q), q') \<and>
     view t q' = drop n (view t q) \<and> (\<forall>t'. t' \<noteq> t \<longrightarrow> view t' q' = view t' q)"
proof (induction n arbitrary: q)
  case (Suc n)
  then obtain m q1 where r: "rcv_q t q = Some (m, q1)"
    using view_rcv_None [of t q] by (cases "rcv_q t q") auto
  have v: "view t q = m # view t q1" "\<And>t'. t' \<noteq> t \<Longrightarrow> view t' q1 = view t' q"
    using view_rcv [OF r] by auto
  with Suc.prems Suc.IH [of q1] obtain q' where "rcv_all t n q1 = Some (take n (view t q1), q')"
      "view t q' = drop n (view t q1)" "\<forall>t'. t' \<noteq> t \<longrightarrow> view t' q' = view t' q1"
    by auto
  with r v show ?case by auto
qed auto

text \<open>Each type is first-in-first-out, however messages of other types are mixed in.\<close>

lemma fifo:
  assumes "view t q = []" and "n \<le> length (filter (\<lambda>(t', m). t' = t) ms)"
  shows "\<exists>q'. rcv_all t n (snd_all ms q) = Some (take n (map snd (filter (\<lambda>(t', m). t' = t) ms)), q')"
proof -
  have "view t (snd_all ms q) = map snd (filter (\<lambda>(t', m). t' = t) ms)"
    using view_snd_all assms(1) by simp
  with rcv_all_view [of n t "snd_all ms q"] assms(2) show ?thesis by auto
qed

end

definition of_type :: "int \<Rightarrow> queue \<Rightarrow> bytes list" where
  "of_type ty q = map snd (filter (\<lambda>(ty', b). ty' = ty) q)"

lemma msgrcv_view:
  "msgrcv ty q = Some (b, q') \<Longrightarrow>
   of_type ty q = b # of_type ty q' \<and> (ty' \<noteq> ty \<longrightarrow> of_type ty' q' = of_type ty' q)"
  by (induction ty q arbitrary: q' rule: msgrcv.induct)
    (auto simp: of_type_def split: if_splits option.splits)

interpretation sysv_queue: typed_queue "\<lambda>ty b q. q @ [(ty, b)]" msgrcv of_type
proof unfold_locales
  fix ty q show "(msgrcv ty q = None) = (of_type ty q = [])"
    by (induction ty q rule: msgrcv.induct) (auto simp: of_type_def)
qed (use msgrcv_view in \<open>auto simp: of_type_def\<close>)

section \<open>Runs of the program\<close>

definition send_args :: "string \<Rightarrow> int \<Rightarrow> int \<Rightarrow> string list" where
  "send_args prog ty key = [prog, ''-s'', ''-t'', dec ty, ''-k'', dec key]"

definition recv_args :: "string \<Rightarrow> int \<Rightarrow> int \<Rightarrow> string list" where
  "recv_args prog ty key = [prog, ''-r'', ''-k'', dec key, ''-t'', dec ty]"

lemma parse_send:
  assumes "int32 ty" and "0 < ty" and "int32 key"
  shows "option_loop (send_args prog ty key ! 0) (getopt [] (tl (send_args prog ty key))) default_settings =
    Inr \<lparr>mode = 1, msgtype = ty, msgkey = key\<rparr>"
  using assms by (simp add: send_args_def is_flag_def takes_arg_def default_settings_def atoi_dec)

lemma parse_recv:
  assumes "int32 ty" and "0 < ty" and "int32 key"
  shows "option_loop (recv_args prog ty key ! 0) (getopt [] (tl (recv_args prog ty key))) default_settings =
    Inr \<lparr>mode = 2, msgtype = ty, msgkey = key\<rparr>"
  using assms by (simp add: recv_args_def is_flag_def takes_arg_def default_settings_def atoi_dec)

definition calm :: "mq_env \<Rightarrow> bool" where
  "calm v \<longleftrightarrow> get_error v = None \<and> send_error v = None \<and> recv_error v = None \<and>
     length (stack_bytes v) = MTEXT \<and> c_string (now v)"

definition message :: "mq_env \<Rightarrow> string" where
  "message v = take (MTEXT - 1) (''a message at '' @ now v)"

lemma message_bytes_text: "calm v \<Longrightarrow> cstr (message_bytes v) = message v"
proof -
  assume v: "calm v"
  have "c_string (''a message at '' @ now v)" using v by (simp add: calm_def)
  then have "c_string (message v)" unfolding message_def by (rule c_string_take)
  then show ?thesis unfolding message_bytes_def snprintf_def message_def [symmetric] by (rule cstr_overwrite)
qed

lemma length_message_bytes: "calm v \<Longrightarrow> length (message_bytes v) = MTEXT"
  by (simp add: message_bytes_def snprintf_def calm_def MTEXT_def)

definition contents :: "int \<Rightarrow> mq_world \<Rightarrow> queue" where
  "contents key w = (case queues w key of None \<Rightarrow> [] | Some q \<Rightarrow> q)"

lemma contents_simps [simp]:
  "key \<noteq> 0 \<Longrightarrow> contents key (put_queue key q w) = q" "out (put_queue key q w) = out w"
  "contents key (print t w) = contents key w" "contents key (perror t e w) = contents key w"
  "put_queue key q (put_queue key p w) = put_queue key q w"
  by (simp_all add: contents_def put_queue_def print_def perror_def)

lemma one_send:
  assumes "calm v" and "int32 ty" and "0 < ty" and "int32 key" and "key \<noteq> 0"
    and "queue_bytes (contents key w) + MTEXT \<le> qbytes v"
  shows "mq_main v (send_args prog ty key) w = (0, print (''sent: '' @ message v @ [nl])
    (put_queue key (contents key w @ [(ty, message_bytes v)]) w))"
  using assms(1,5,6) parse_send [OF assms(2-4), of prog] message_bytes_text [OF assms(1)]
    length_message_bytes [OF assms(1)]
  by (simp add: mq_main_def send_msg_def msgsnd_def calm_def contents_def Let_def)

lemma one_recv:
  assumes "calm v" and "int32 ty" and "0 < ty" and "int32 key" and "key \<noteq> 0"
    and "msgrcv ty (contents key w) = Some (b, q)"
  shows "mq_main v (recv_args prog ty key) w =
    (0, print (''message received: '' @ cstr (take MTEXT b) @ [nl]) (put_queue key q w))"
  using assms(1,5,6) parse_recv [OF assms(2-4), of prog]
  by (simp add: mq_main_def get_msg_def calm_def contents_def Let_def)

fun run_mq :: "(mq_env \<times> string list) list \<Rightarrow> mq_world \<Rightarrow> mq_world" where
  "run_mq [] w = w"
| "run_mq ((v, a) # rs) w = run_mq rs (snd (mq_main v a w))"

lemma run_mq_append: "run_mq (rs @ rs') w = run_mq rs' (run_mq rs w)"
  by (induction rs w rule: run_mq.induct) auto

definition sent_line :: "mq_env \<Rightarrow> string" where
  "sent_line v = ''sent: '' @ message v @ [nl]"

definition received_line :: "string \<Rightarrow> string" where
  "received_line t = ''message received: '' @ t @ [nl]"

lemma all_sends:
  assumes "\<forall>(v, ty)\<in>set xs. calm v \<and> int32 ty \<and> 0 < ty \<and>
      queue_bytes (contents key w) + MTEXT * length xs \<le> qbytes v"
    and "int32 key" and "key \<noteq> 0"
  shows "contents key (run_mq (map (\<lambda>(v, ty). (v, send_args prog ty key)) xs) w) =
      contents key w @ map (\<lambda>(v, ty). (ty, message_bytes v)) xs \<and>
    out (run_mq (map (\<lambda>(v, ty). (v, send_args prog ty key)) xs) w) =
      out w @ concat (map (\<lambda>(v, ty). sent_line v) xs)"
  using assms(1)
proof (induction xs arbitrary: w)
  case (Cons x xs)
  obtain v ty where x: "x = (v, ty)" by (cases x)
  let ?w = "print (sent_line v) (put_queue key (contents key w @ [(ty, message_bytes v)]) w)"
  have v: "calm v" "int32 ty" "0 < ty" "queue_bytes (contents key w) + MTEXT \<le> qbytes v"
    using Cons.prems by (auto simp: x)
  have s: "mq_main v (send_args prog ty key) w = (0, ?w)"
    using one_send [OF v(1-3) assms(2,3) v(4)] by (simp add: sent_line_def)
  have c: "contents key ?w = contents key w @ [(ty, message_bytes v)]" using assms(3) by simp
  have "queue_bytes (contents key ?w) = queue_bytes (contents key w) + MTEXT"
    unfolding c by (simp add: queue_bytes_def length_message_bytes [OF v(1)])
  then have p: "\<forall>(v, ty)\<in>set xs. calm v \<and> int32 ty \<and> 0 < ty \<and>
      queue_bytes (contents key ?w) + MTEXT * length xs \<le> qbytes v"
    using Cons.prems by auto
  show ?case using Cons.IH [OF p] s c by (simp add: x)
qed simp

lemma all_recvs:
  assumes "calm v" and "int32 ty" and "0 < ty" and "int32 key" and "key \<noteq> 0"
    and "sysv_queue.rcv_all ty n (contents key w) = Some (bs, q)"
  shows "out (run_mq (replicate n (v, recv_args prog ty key)) w) =
    out w @ concat (map (\<lambda>b. received_line (cstr (take MTEXT b))) bs)"
  using assms(6)
proof (induction n arbitrary: w bs)
  case (Suc n)
  obtain b q1 bs' where r: "msgrcv ty (contents key w) = Some (b, q1)"
      "sysv_queue.rcv_all ty n q1 = Some (bs', q)" "bs = b # bs'"
    using Suc.prems by (auto split: option.splits)
  let ?w = "print (received_line (cstr (take MTEXT b))) (put_queue key q1 w)"
  have "mq_main v (recv_args prog ty key) w = (0, ?w)"
    using one_recv [OF assms(1-5) r(1)] by (simp add: received_line_def)
  moreover have "contents key ?w = q1" using assms(5) by simp
  ultimately show ?case using Suc.IH [of ?w bs'] r by simp
qed simp

section \<open>Properties\<close>

text \<open>
  C10: runs that send messages of any types to one queue, then runs that receive type \<open>ty\<close>
  from it: while the queue has room, every sender reports its message, and the receivers print
  exactly the messages of their type, oldest first, whatever other types are mixed in.
\<close>

theorem mq_fifo:
  assumes "\<forall>(v, ty)\<in>set xs. calm v \<and> int32 ty \<and> 0 < ty \<and>
      queue_bytes (contents key w) + MTEXT * length xs \<le> qbytes v"
    and "calm v'" and "int32 ty" and "0 < ty" and "int32 key" and "key \<noteq> 0"
    and "of_type ty (contents key w) = []" and "n \<le> length (filter (\<lambda>(v, t). t = ty) xs)"
  shows "out (run_mq (map (\<lambda>(v, t). (v, send_args prog t key)) xs @
      replicate n (v', recv_args prog ty key)) w) =
    out w @ concat (map (\<lambda>(v, t). sent_line v) xs) @
      concat (map (\<lambda>(v, t). received_line (message v)) (take n (filter (\<lambda>(v, t). t = ty) xs)))"
proof -
  let ?ms = "map (\<lambda>(v, t). (t, message_bytes v)) xs"
  let ?w = "run_mq (map (\<lambda>(v, t). (v, send_args prog t key)) xs) w"
  have c: "contents key ?w = contents key w @ ?ms" and o': "out ?w = out w @ concat (map (\<lambda>(v, t). sent_line v) xs)"
    using all_sends [OF assms(1,5,6)] by blast+
  have snd_all: "sysv_queue.snd_all ms q = q @ ms" for ms q
    by (induction ms arbitrary: q) (auto simp: sysv_queue.snd_all_def)
  have flt: "map snd (filter (\<lambda>(t', m). t' = ty) ?ms) =
      map (\<lambda>(v, t). message_bytes v) (filter (\<lambda>(v, t). t = ty) xs)"
    by (induction xs) auto
  have "n \<le> length (filter (\<lambda>(t', m). t' = ty) ?ms)" using assms(8) arg_cong [OF flt, of length] by simp
  from sysv_queue.fifo [OF assms(7) this] obtain q' where
    "sysv_queue.rcv_all ty n (contents key ?w) =
      Some (take n (map (\<lambda>(v, t). message_bytes v) (filter (\<lambda>(v, t). t = ty) xs)), q')"
    unfolding snd_all flt c by blast
  from all_recvs [OF assms(2-6) this, of prog]
  have "out (run_mq (replicate n (v', recv_args prog ty key)) ?w) =
      out ?w @ concat (map (\<lambda>b. received_line (cstr (take MTEXT b)))
        (take n (map (\<lambda>(v, t). message_bytes v) (filter (\<lambda>(v, t). t = ty) xs))))" .
  also have "map (\<lambda>b. received_line (cstr (take MTEXT b)))
        (take n (map (\<lambda>(v, t). message_bytes v) (filter (\<lambda>(v, t). t = ty) xs))) =
      map (\<lambda>(v, t). received_line (message v)) (take n (filter (\<lambda>(v, t). t = ty) xs))"
    unfolding take_map map_map
  proof (rule map_cong [OF refl])
    fix x assume "x \<in> set (take n (filter (\<lambda>(v, t). t = ty) xs))"
    then have "x \<in> set xs" by (meson in_set_takeD filter_is_subset subsetD)
    then have "calm (fst x)" using assms(1) by auto
    then show "((\<lambda>b. received_line (cstr (take MTEXT b))) \<circ> (\<lambda>(v, t). message_bytes v)) x =
        (\<lambda>(v, t). received_line (message v)) x"
      using message_bytes_text length_message_bytes by (cases x) simp
  qed
  finally show ?thesis by (simp add: run_mq_append o')
qed

definition sample_env :: "string \<Rightarrow> mq_env" where
  "sample_env t = \<lparr>now = t, stack_bytes = replicate 80 CHR ''?'', qbytes = 16384,
     get_error = None, send_error = None, recv_error = None\<rparr>"

definition empty_mq :: mq_world where
  "empty_mq = \<lparr>inp = [], out = [], err = [], queues = (\<lambda>_. None)\<rparr>"

theorem mq_fifo_witness:
  "out (run_mq (map (\<lambda>(v, t). (v, send_args ''mq'' t 1234))
        [(sample_env ''noon'', 5), (sample_env ''one'', 7), (sample_env ''two'', 5)] @
      replicate 2 (sample_env ''ten'', recv_args ''mq'' 5 1234)) empty_mq) =
    out empty_mq @ concat (map (\<lambda>(v, t). sent_line v)
        [(sample_env ''noon'', 5::int), (sample_env ''one'', 7), (sample_env ''two'', 5)]) @
      received_line ''a message at noon'' @ received_line ''a message at two''"
proof -
  let ?xs = "[(sample_env ''noon'', 5::int), (sample_env ''one'', 7), (sample_env ''two'', 5)]"
  have "message (sample_env ''noon'') = ''a message at noon''" "message (sample_env ''two'') = ''a message at two''"
    by (simp_all add: message_def sample_env_def MTEXT_def)
  moreover have "calm (sample_env t)" if "c_string t" for t
    using that by (simp add: calm_def sample_env_def MTEXT_def)
  moreover have "qbytes (sample_env t) = 16384" for t by (simp add: sample_env_def)
  moreover have "contents 1234 empty_mq = []" by (simp add: contents_def empty_mq_def)
  ultimately show ?thesis
    using mq_fifo [of ?xs 1234 empty_mq "sample_env ''ten''" 5 2 "''mq''"]
    by (simp add: int32_def MTEXT_def queue_bytes_def of_type_def)
qed

lemma send_fails:
  "send_msg v k q ty w = (1, w') \<Longrightarrow> out w' = out w \<and> contents key w' = contents key w"
  by (auto simp: send_msg_def Let_def split: option.splits sum.splits)

lemma get_fails:
  "get_msg v k q ty w = (1, w') \<Longrightarrow> out w' = out w \<and> contents key w' = contents key w"
  by (auto simp: get_msg_def split: option.splits)

text \<open>
  A run that ends with a failure status, for whatever command line and whichever call
  fails, prints nothing to stdout and changes no message of any queue.
\<close>

theorem mq_failure_harmless:
  assumes "mq_main v argv w = (1, w')"
  shows "out w' = out w \<and> contents key w' = contents key w"
proof (cases "option_loop (argv ! 0) (getopt [] (tl argv)) default_settings")
  case (Inl t)
  with assms show ?thesis by (auto simp: mq_main_def contents_def)
next
  case (Inr s)
  let ?q = "if msgkey s = 0 then [] else case queues w (msgkey s) of None \<Rightarrow> [] | Some q \<Rightarrow> q"
  let ?w = "put_queue (msgkey s) ?q w"
  have p: "contents key ?w = contents key w"
    by (auto simp: contents_def put_queue_def split: option.splits)
  show ?thesis
  proof (cases "mode s = 0 \<or> get_error v \<noteq> None")
    case True
    with assms Inr show ?thesis
      by (auto simp: mq_main_def contents_def perror_def split: if_splits)
  next
    case False
    then consider "get_msg v (msgkey s) ?q (msgtype s) ?w = (1, w')" | "send_msg v (msgkey s) ?q (msgtype s) ?w = (1, w')"
      using assms Inr by (auto simp: mq_main_def Let_def split: if_splits)
    then have "out w' = out ?w \<and> contents key w' = contents key ?w"
      using get_fails send_fails by cases blast+
    with p show ?thesis by simp
  qed
qed

theorem mq_failure_harmless_witness:
  "out (snd (mq_main (sample_env ''noon'') [''mq'', ''-st0''] empty_mq)) = []"
proof -
  have "fst (mq_main (sample_env ''noon'') [''mq'', ''-st0''] empty_mq) = 1" by code_simp
  then have "mq_main (sample_env ''noon'') [''mq'', ''-st0''] empty_mq =
      (1, snd (mq_main (sample_env ''noon'') [''mq'', ''-st0''] empty_mq))"
    by (metis prod.collapse)
  from mq_failure_harmless [OF this] show ?thesis by (simp add: empty_mq_def)
qed

end
