(* ===== verification/Posix_Queue.thy ===== *)
theory Posix_Queue
  imports C_Library Interleaving
begin

text \<open>
  \<open>POSIX/posix_mq_receiver.c\<close> and \<open>POSIX/posix_mq_sender.c\<close>: one receiver, which registers for
  a notification and pauses, the thread \<open>tfunc\<close> the notification starts, and any number of
  senders, as processes whose moves are their system calls. The kernel notifies only when a
  message arrives at an empty queue. Failing calls are moves of their own.
\<close>

section \<open>State\<close>

record mqueue =
  mq_maxmsg :: nat
  mq_msgsize :: nat
  mq_messages :: "bytes list"

datatype rx_pc = RX_Args | RX_Open | RX_Notify | RX_Pause | RX_Exited int
datatype tf_pc = TF_None | TF_Getattr | TF_Malloc | TF_Receive | TF_Print bytes
datatype tx_pc = TX_Args | TX_Open | TX_Send | TX_Exited int

record mq_state =
  mqueues :: "string \<Rightarrow> mqueue option"
  registered :: bool \<comment> \<open>the receiver's \<open>mq_notify\<close> is pending\<close>
  rx_argv :: "string list"
  rx :: rx_pc
  tf :: tf_pc
  rx_out :: string
  rx_err :: string
  tx_argv :: "nat \<Rightarrow> string list"
  tx :: "nat \<Rightarrow> tx_pc"
  tx_err :: "nat \<Rightarrow> string"

datatype mq_actor = Receiver | Tfunc | Sender nat
  | Receiver_Fails string | Tfunc_Fails string | Sender_Fails nat string

definition hello :: bytes where
  "hello = ''Hello, World!'' @ [NUL]"

definition new_queue :: mqueue where
  "new_queue = \<lparr>mq_maxmsg = 2, mq_msgsize = 1024, mq_messages = []\<rparr>"

definition mq_start :: "(string \<Rightarrow> mqueue option) \<Rightarrow> string list \<Rightarrow> (nat \<Rightarrow> string list) \<Rightarrow> mq_state" where
  "mq_start qs rargs targs = \<lparr>mqueues = qs, registered = False, rx_argv = rargs, rx = RX_Args,
     tf = TF_None, rx_out = [], rx_err = [], tx_argv = targs, tx = (\<lambda>_. TX_Args), tx_err = (\<lambda>_. [])\<rparr>"

section \<open>Arguments\<close>

text \<open>The checks both programs make first; the result is the error text or the name.\<close>

definition mq_args :: "string list \<Rightarrow> string + string" where
  "mq_args argv =
     (if length argv \<noteq> 2 then Inl (''Usage: '' @ argv ! 0 @ '' <mq-name>'' @ [nl])
      else if argv ! 1 = [] \<or> hd (argv ! 1) \<noteq> CHR ''/''
      then Inl (''mq-name('' @ argv ! 1 @ '') must start with slash(/)'' @ [nl])
      else Inr (argv ! 1))"

definition rx_fail :: "string \<Rightarrow> mq_state \<Rightarrow> mq_state" where
  "rx_fail t s = s\<lparr>rx_err := rx_err s @ t, rx := RX_Exited 1, registered := False\<rparr>"

definition tx_fail :: "nat \<Rightarrow> string \<Rightarrow> mq_state \<Rightarrow> mq_state" where
  "tx_fail k t s = s\<lparr>tx_err := (tx_err s)(k := tx_err s k @ t), tx := (tx s)(k := TX_Exited 1)\<rparr>"

section \<open>The receiver\<close>

fun rx_main :: "rx_pc \<Rightarrow> mq_state \<Rightarrow> mq_state option" where
  "rx_main RX_Args s = Some (case mq_args (rx_argv s) of
     Inl t \<Rightarrow> rx_fail t s | Inr name \<Rightarrow> s\<lparr>rx := RX_Open\<rparr>)"
| "rx_main RX_Open s = Some (
     let name = rx_argv s ! 1 in
     s\<lparr>mqueues := (mqueues s)(name := Some (case mqueues s name of None \<Rightarrow> new_queue | Some q \<Rightarrow> q)),
       rx := RX_Notify\<rparr>)"
| "rx_main RX_Notify s = Some (s\<lparr>registered := True, rx := RX_Pause\<rparr>)"
| "rx_main RX_Pause s = None"
| "rx_main (RX_Exited code) s = None"

text \<open>\<open>mq_receive\<close> waits for a message; the program ends in \<open>tfunc\<close>.\<close>

fun tfunc :: "tf_pc \<Rightarrow> mq_state \<Rightarrow> mq_state option" where
  "tfunc TF_None s = None"
| "tfunc TF_Getattr s = Some (s\<lparr>tf := TF_Malloc\<rparr>)"
| "tfunc TF_Malloc s = Some (s\<lparr>tf := TF_Receive\<rparr>)"
| "tfunc TF_Receive s =
     (case mqueues s (rx_argv s ! 1) of None \<Rightarrow> None
      | Some q \<Rightarrow> (case mq_messages q of [] \<Rightarrow> None
          | m # ms \<Rightarrow> Some (s\<lparr>mqueues := (mqueues s)(rx_argv s ! 1 := Some (q\<lparr>mq_messages := ms\<rparr>)),
              tf := TF_Print m\<rparr>)))"
| "tfunc (TF_Print m) s =
     Some (s\<lparr>rx_out := rx_out s @ ''Read '' @ dec (int (length m)) @ '' bytes from MQ'' @ [nl] @
       ''message: '' @ cstr m @ [nl], rx := RX_Exited 0, registered := False\<rparr>)"

fun tfunc_error :: "tf_pc \<Rightarrow> string option" where
  "tfunc_error TF_Getattr = Some ''mq_getattr''"
| "tfunc_error TF_Malloc = Some ''malloc''"
| "tfunc_error TF_Receive = Some ''mq_receive''"
| "tfunc_error _ = None"

fun rx_error :: "rx_pc \<Rightarrow> string option" where
  "rx_error RX_Open = Some ''mq_open''"
| "rx_error RX_Notify = Some ''mq_notify''"
| "rx_error _ = None"

section \<open>The sender\<close>

definition enqueue :: "string \<Rightarrow> mqueue \<Rightarrow> bytes \<Rightarrow> mq_state \<Rightarrow> mq_state" where
  "enqueue name q m s =
     (let notify = registered s \<and> name = rx_argv s ! 1 \<and> mq_messages q = []
      in s\<lparr>mqueues := (mqueues s)(name := Some (q\<lparr>mq_messages := mq_messages q @ [m]\<rparr>)),
           registered := registered s \<and> \<not> notify, tf := (if notify then TF_Getattr else tf s)\<rparr>)"

fun tx_main :: "tx_pc \<Rightarrow> nat \<Rightarrow> mq_state \<Rightarrow> mq_state option" where
  "tx_main TX_Args k s = Some (case mq_args (tx_argv s k) of
     Inl t \<Rightarrow> tx_fail k t s | Inr name \<Rightarrow> s\<lparr>tx := (tx s)(k := TX_Open)\<rparr>)"
| "tx_main TX_Open k s = Some (case mqueues s (tx_argv s k ! 1) of
     None \<Rightarrow> tx_fail k (perror_text ''mq_open'' ''No such file or directory'') s
   | Some q \<Rightarrow> s\<lparr>tx := (tx s)(k := TX_Send)\<rparr>)"
| "tx_main TX_Send k s = (case mqueues s (tx_argv s k ! 1) of
     None \<Rightarrow> None
   | Some q \<Rightarrow>
       if mq_msgsize q < length hello
       then Some (tx_fail k (perror_text ''mq_send'' ''Message too long'') s)
       else if mq_maxmsg q \<le> length (mq_messages q) then None
       else Some (enqueue (tx_argv s k ! 1) q hello (s\<lparr>tx := (tx s)(k := TX_Exited 0)\<rparr>)))"
| "tx_main (TX_Exited code) k s = None"

fun tx_error :: "tx_pc \<Rightarrow> string option" where
  "tx_error TX_Open = Some ''mq_open''"
| "tx_error TX_Send = Some ''mq_send''"
| "tx_error _ = None"

definition rx_exited :: "mq_state \<Rightarrow> bool" where
  "rx_exited s \<longleftrightarrow> (case rx s of RX_Exited _ \<Rightarrow> True | _ \<Rightarrow> False)"

fun mq_step :: "mq_actor \<Rightarrow> mq_state \<Rightarrow> mq_state option" where
  "mq_step Receiver s = rx_main (rx s) s"
| "mq_step Tfunc s = (if rx_exited s then None else tfunc (tf s) s)"
| "mq_step (Sender k) s = tx_main (tx s k) k s"
| "mq_step (Receiver_Fails e) s = map_option (\<lambda>msg. rx_fail (perror_text msg e) s) (rx_error (rx s))"
| "mq_step (Tfunc_Fails e) s =
     (if rx_exited s then None else map_option (\<lambda>msg. rx_fail (perror_text msg e) s) (tfunc_error (tf s)))"
| "mq_step (Sender_Fails k e) s = map_option (\<lambda>msg. tx_fail k (perror_text msg e) s) (tx_error (tx s k))"

section \<open>What the receiver prints\<close>

definition the_report :: string where
  "the_report = ''Read 14 bytes from MQ'' @ [nl] @ ''message: Hello, World!'' @ [nl]"

definition only_hello :: "mq_state \<Rightarrow> bool" where
  "only_hello s \<longleftrightarrow>
     (\<forall>q. mqueues s (rx_argv s ! 1) = Some q \<longrightarrow> (\<forall>m\<in>set (mq_messages q). m = hello)) \<and>
     (\<forall>m. tf s = TF_Print m \<longrightarrow> m = hello) \<and>
     (if rx s = RX_Exited 0 then rx_out s = the_report else rx_out s = [])"

lemma report_hello: "''Read '' @ dec (int (length hello)) @ '' bytes from MQ'' @ [nl] @
    ''message: '' @ cstr hello @ [nl] = the_report"
proof -
  have "dec (int (length hello)) = ''14''" by code_simp
  moreover have "cstr hello = ''Hello, World!''" by (simp add: hello_def cstr_def)
  ultimately show ?thesis by (simp add: the_report_def)
qed

lemma only_hello_step: "only_hello s \<Longrightarrow> mq_step a s = Some t \<Longrightarrow> only_hello t"
proof (cases a)
  case Receiver
  assume "only_hello s" "mq_step a s = Some t"
  with Receiver show ?thesis
    by (cases "rx s") (auto simp: only_hello_def rx_fail_def new_queue_def Let_def
        split: sum.splits option.splits)
next
  case Tfunc
  assume o': "only_hello s" and "mq_step a s = Some t"
  with Tfunc have ne: "\<not> rx_exited s" and st: "tfunc (tf s) s = Some t" by (auto split: if_splits)
  show ?thesis
  proof (cases "tf s")
    case (TF_Print m)
    with o' ne st report_hello show ?thesis
      by (auto simp: only_hello_def rx_exited_def split: if_splits)
  next
    case TF_Receive
    with st obtain q m ms where q: "mqueues s (rx_argv s ! 1) = Some q" "mq_messages q = m # ms"
      "t = s\<lparr>mqueues := (mqueues s)(rx_argv s ! 1 := Some (q\<lparr>mq_messages := ms\<rparr>)), tf := TF_Print m\<rparr>"
      by (auto split: option.splits list.splits)
    with o' have "\<forall>x\<in>set (m # ms). x = hello" unfolding only_hello_def by metis
    with o' ne q(3) show ?thesis by (auto simp: only_hello_def rx_exited_def)
  qed (use o' ne st in \<open>auto simp: only_hello_def rx_exited_def\<close>)
next
  case (Sender k)
  assume "only_hello s" "mq_step a s = Some t"
  with Sender show ?thesis
    by (cases "tx s k") (auto simp: only_hello_def tx_fail_def enqueue_def Let_def
        split: sum.splits option.splits if_splits)
qed (auto simp: only_hello_def rx_fail_def tx_fail_def rx_exited_def split: if_splits)

text \<open>A queue that no message is in, or that does not exist yet.\<close>

definition no_message :: "(string \<Rightarrow> mqueue option) \<Rightarrow> string \<Rightarrow> bool" where
  "no_message qs name \<longleftrightarrow> (case qs name of None \<Rightarrow> True | Some q \<Rightarrow> mq_messages q = [])"

lemma only_hello_start: "no_message qs (rargs ! 1) \<Longrightarrow> only_hello (mq_start qs rargs targs)"
  by (auto simp: only_hello_def mq_start_def no_message_def)

lemma only_hello_reach:
  assumes "no_message qs (rargs ! 1)" and "reach mq_step (mq_start qs rargs targs) s"
  shows "only_hello s"
proof -
  have i: "inductive_invariant mq_step (mq_start qs rargs targs) only_hello"
    by unfold_locales (use only_hello_start [OF assms(1)] only_hello_step in auto)
  show ?thesis by (rule inductive_invariant.inv_reach [OF i assms(2)])
qed

section \<open>The notification that does not come\<close>

text \<open>
  A message that is in the queue before \<open>mq_notify\<close> blocks the notification for ever: nobody
  takes it out, so no later message arrives at an empty queue.
\<close>

definition not_notified :: "mq_state \<Rightarrow> bool" where
  "not_notified s \<longleftrightarrow> tf s = TF_None \<and> rx s \<noteq> RX_Exited 0 \<and> rx_out s = [] \<and>
     (\<exists>q. mqueues s (rx_argv s ! 1) = Some q \<and> mq_messages q \<noteq> [])"

lemma not_notified_step:
  assumes n: "not_notified s" and st: "mq_step a s = Some t" shows "not_notified t"
proof -
  obtain q where q: "tf s = TF_None" "rx s \<noteq> RX_Exited 0" "rx_out s = []"
      "mqueues s (rx_argv s ! 1) = Some q" "mq_messages q \<noteq> []"
    using n unfolding not_notified_def by blast
  show ?thesis
  proof (cases a)
    case Receiver
    with st q show ?thesis
      by (cases "rx s") (auto simp: not_notified_def rx_fail_def Let_def split: sum.splits)
  next
    case (Sender k)
    with st q show ?thesis
      by (cases "tx s k") (auto simp: not_notified_def tx_fail_def enqueue_def Let_def
        split: sum.splits option.splits if_splits)
  qed (use st q in \<open>auto simp: not_notified_def rx_fail_def tx_fail_def split: if_splits\<close>)
qed

section \<open>Properties\<close>

text \<open>
  C28: with a queue that held no message before, any senders and any failures: a receiver that
  ends successfully has printed the length and the text of one hello message and nothing else,
  and one that has not has printed nothing.
\<close>

theorem mq_receiver_report:
  assumes "no_message qs (rargs ! 1)" and "reach mq_step (mq_start qs rargs targs) s"
  shows "rx_out s = (if rx s = RX_Exited 0 then the_report else [])"
  using only_hello_reach [OF assms] by (simp add: only_hello_def split: if_splits)

definition two_senders :: "(string \<Rightarrow> mqueue option) \<Rightarrow> mq_state" where
  "two_senders qs = mq_start qs [''receiver'', ''/q''] (\<lambda>_. [''sender'', ''/q''])"

definition pause_first :: "mq_actor list" where
  "pause_first = replicate 3 Receiver @ replicate 3 (Sender 0) @ replicate 4 Tfunc"

theorem mq_receiver_report_witness:
  "rx_out (run_schedule mq_step pause_first (two_senders (\<lambda>_. None))) = the_report"
proof -
  let ?s = "run_schedule mq_step pause_first (two_senders (\<lambda>_. None))"
  have r: "reach mq_step (mq_start (\<lambda>_. None) [''receiver'', ''/q''] (\<lambda>_. [''sender'', ''/q''])) ?s"
    unfolding two_senders_def by (rule reach_run_schedule [OF reach_init])
  have "rx ?s = RX_Exited 0" by code_simp
  moreover have "no_message (\<lambda>_. None) ([''receiver'', ''/q''] ! 1)" by (simp add: no_message_def)
  ultimately show ?thesis using mq_receiver_report [OF _ r] by simp
qed

text \<open>
  C29: from any state before the notification in which the queue already holds a message, the
  receiver never gets it, whatever senders do afterwards: \<open>tfunc\<close> is never started, nothing
  is printed, and the program never ends successfully.
\<close>

theorem mq_message_before_notify:
  assumes "tf s = TF_None" and "rx s \<in> {RX_Args, RX_Open, RX_Notify}" and "rx_out s = []"
    and "mqueues s (rx_argv s ! 1) = Some q" and "mq_messages q \<noteq> []"
    and "reach mq_step s t"
  shows "tf t = TF_None \<and> rx t \<noteq> RX_Exited 0 \<and> rx_out t = []"
proof -
  have "not_notified s" using assms(1-5) by (auto simp: not_notified_def)
  then have i: "inductive_invariant mq_step s not_notified"
    by unfold_locales (use not_notified_step in auto)
  have "not_notified t" by (rule inductive_invariant.inv_reach [OF i assms(6)])
  then show ?thesis by (simp add: not_notified_def)
qed

text \<open>A sender that runs between the receiver's \<open>mq_open\<close> and \<open>mq_notify\<close>.\<close>

definition send_too_early :: mq_state where
  "send_too_early = run_schedule mq_step (replicate 2 Receiver @ replicate 3 (Sender 0)) (two_senders (\<lambda>_. None))"

theorem mq_message_before_notify_witness:
  "tf (run_schedule mq_step ([Receiver] @ replicate 3 (Sender 1) @ replicate 4 Tfunc) send_too_early) = TF_None"
proof -
  have a: "tf send_too_early = TF_None" "rx_out send_too_early = []"
    "mqueues send_too_early (rx_argv send_too_early ! 1) =
      Some \<lparr>mq_maxmsg = 2, mq_msgsize = 1024, mq_messages = [hello]\<rparr>" by code_simp+
  have "rx send_too_early = RX_Notify" by code_simp
  then have b: "rx send_too_early \<in> {RX_Args, RX_Open, RX_Notify}" by simp
  have "mq_messages \<lparr>mq_maxmsg = 2, mq_msgsize = 1024, mq_messages = [hello]\<rparr> \<noteq> []" by simp
  from mq_message_before_notify [OF a(1) b a(2,3) this reach_run_schedule [OF reach_init]]
  show ?thesis by blast
qed

end
