(* ===== verification/Files.thy ===== *)
theory Files
  imports Console
begin

text \<open>
  The file system as the small file programs see it: regular files, directories and special
  files with contents and permission bits, the caller's identity, and a script of failures.
  Each call that may fail takes the next entry of \<open>faults\<close>: an error description if the
  system fails the call for a reason outside the model, or nothing. A property that holds for
  every script covers every error path.
\<close>

section \<open>World\<close>

datatype file_kind = Regular | Directory "string list" | Special

record inode =
  content :: bytes
  perm :: nat
  kind :: file_kind

datatype caller = Owner | Group_member | Other_user

record world = console +
  fs :: "string \<Rightarrow> inode option"
  who :: caller
  umask :: nat
  faults :: "string option list"

text \<open>A call: the result is an error description or a value.\<close>

type_synonym 'a call = "world \<Rightarrow> (string + 'a) \<times> world"

definition fault :: "world \<Rightarrow> string option \<times> world" where
  "fault w = (case faults w of [] \<Rightarrow> (None, w) | f # rest \<Rightarrow> (f, w\<lparr>faults := rest\<rparr>))"

text \<open>Run a call that has the result \<open>act\<close> unless the script fails it.\<close>

definition call :: "'a call \<Rightarrow> 'a call" where
  "call act w = (case fault w of (Some e, w) \<Rightarrow> (Inl e, w) | (None, w) \<Rightarrow> act w)"

text \<open>Continue with the value, or with the error handler of the source.\<close>

definition attempt :: "'a call \<Rightarrow> (string \<Rightarrow> world \<Rightarrow> 'b) \<Rightarrow> ('a \<Rightarrow> world \<Rightarrow> 'b) \<Rightarrow> world \<Rightarrow> 'b" where
  "attempt c bad ok w = (case c w of (Inl e, w) \<Rightarrow> bad e w | (Inr x, w) \<Rightarrow> ok x w)"

section \<open>Calls on paths\<close>

definition ENOENT :: string where "ENOENT = ''No such file or directory''"
definition EACCES :: string where "EACCES = ''Permission denied''"
definition EISDIR :: string where "EISDIR = ''Is a directory''"
definition EPERM :: string where "EPERM = ''Operation not permitted''"

text \<open>The bits of the caller's class; \<open>R_OK\<close> is 4, \<open>W_OK\<close> is 2.\<close>

definition R_OK :: nat where "R_OK = 4"
definition W_OK :: nat where "W_OK = 2"
definition F_OK :: nat where "F_OK = 0"

definition class_bits :: "caller \<Rightarrow> nat \<Rightarrow> nat" where
  "class_bits c m = (case c of Owner \<Rightarrow> m div 64 mod 8 | Group_member \<Rightarrow> m div 8 mod 8 | Other_user \<Rightarrow> m mod 8)"

definition grants :: "nat \<Rightarrow> nat \<Rightarrow> bool" where
  "grants bits want \<longleftrightarrow> (want div 4 mod 2 \<le> bits div 4 mod 2) \<and> (want div 2 mod 2 \<le> bits div 2 mod 2) \<and>
     (want mod 2 \<le> bits mod 2)"

definition access :: "string \<Rightarrow> nat \<Rightarrow> unit call" where
  "access path want = call (\<lambda>w. (case fs w path of
     None \<Rightarrow> Inl ENOENT
   | Some f \<Rightarrow> if grants (class_bits (who w) (perm f)) want then Inr () else Inl EACCES, w))"

definition chmod :: "string \<Rightarrow> nat \<Rightarrow> unit call" where
  "chmod path m = call (\<lambda>w. case fs w path of
     None \<Rightarrow> (Inl ENOENT, w)
   | Some f \<Rightarrow> if who w = Owner then (Inr (), w\<lparr>fs := (fs w)(path := Some (f\<lparr>perm := m\<rparr>))\<rparr>)
       else (Inl EPERM, w))"

definition stat_file :: "string \<Rightarrow> inode call" where
  "stat_file path = call (\<lambda>w. (case fs w path of None \<Rightarrow> Inl ENOENT | Some f \<Rightarrow> Inr f, w))"

text \<open>Opening without creating: the file with the permissions asked for. A directory cannot be written.\<close>

definition is_dir :: "inode \<Rightarrow> bool" where
  "is_dir f \<longleftrightarrow> (case kind f of Directory _ \<Rightarrow> True | _ \<Rightarrow> False)"

definition open_file :: "string \<Rightarrow> nat \<Rightarrow> inode call" where
  "open_file path want = call (\<lambda>w. (case fs w path of
     None \<Rightarrow> Inl ENOENT
   | Some f \<Rightarrow> if is_dir f \<and> odd (want div W_OK) then Inl EISDIR
       else if grants (class_bits (who w) (perm f)) want then Inr f else Inl EACCES, w))"

text \<open>
  Opening with \<open>O_CREAT | O_TRUNC\<close>: an existing file must grant \<open>want\<close>, keeps its permissions and
  is emptied (a special file is left as it is), a new one gets those of \<open>m\<close> that the umask leaves.
\<close>

definition masked :: "nat \<Rightarrow> nat \<Rightarrow> nat" where
  "masked m u = (\<Sum>k<9. if odd (m div 2 ^ k) \<and> \<not> odd (u div 2 ^ k) then 2 ^ k else 0)"

definition create_file :: "string \<Rightarrow> nat \<Rightarrow> nat \<Rightarrow> unit call" where
  "create_file path want m = call (\<lambda>w. case fs w path of
     None \<Rightarrow> (Inr (), w\<lparr>fs := (fs w)(path := Some \<lparr>content = [], perm = masked m (umask w), kind = Regular\<rparr>)\<rparr>)
   | Some f \<Rightarrow> (case kind f of
       Directory _ \<Rightarrow> (Inl EISDIR, w)
     | _ \<Rightarrow> if \<not> grants (class_bits (who w) (perm f)) want then (Inl EACCES, w)
         else if kind f = Regular then (Inr (), w\<lparr>fs := (fs w)(path := Some (f\<lparr>content := []\<rparr>))\<rparr>)
         else (Inr (), w)))"

definition write_content :: "string \<Rightarrow> bytes \<Rightarrow> world \<Rightarrow> world" where
  "write_content path b w = (case fs w path of None \<Rightarrow> w
     | Some f \<Rightarrow> w\<lparr>fs := (fs w)(path := Some (f\<lparr>content := b\<rparr>))\<rparr>)"

lemma is_dir_Regular [simp]: "kind f = Regular \<Longrightarrow> \<not> is_dir f"
  by (simp add: is_dir_def)

lemma read_only [simp]: "\<not> odd (R_OK div W_OK)"
  by (simp add: R_OK_def W_OK_def)

lemma world_print [simp]:
  "fs (print t w) = fs w" "who (print t w) = who w" "faults (print t w) = faults w"
  "umask (print t w) = umask w" "fs (perror t e w) = fs w" "who (perror t e w) = who w"
  "faults (perror t e w) = faults w" "umask (perror t e w) = umask w"
  by (simp_all add: print_def perror_def)

lemma fault_frame [simp]:
  "fs (snd (fault w)) = fs w" "out (snd (fault w)) = out w" "who (snd (fault w)) = who w"
  "umask (snd (fault w)) = umask w" "err (snd (fault w)) = err w"
  by (simp_all add: fault_def split: list.splits)

text \<open>Without failures left in the script a call does what it does.\<close>

lemma call_calm [simp]: "faults w = [] \<Longrightarrow> call act w = act w"
  by (simp add: call_def fault_def)

lemma call_cases:
  obtains (failed) e w1 where "call act w = (Inl e, w1)" "fs w1 = fs w" "out w1 = out w"
      "who w1 = who w" "umask w1 = umask w" "err w1 = err w"
    | (acts) w1 where "call act w = act w1" "fs w1 = fs w" "out w1 = out w" "who w1 = who w"
      "umask w1 = umask w" "err w1 = err w"
proof (cases "fault w")
  case (Pair f w1)
  have fr: "fs w1 = fs w" "out w1 = out w" "who w1 = who w" "umask w1 = umask w" "err w1 = err w"
    using fault_frame [of w] Pair by auto
  show thesis
  proof (cases f)
    case None
    with Pair fr acts show thesis by (simp add: call_def)
  next
    case (Some e)
    with Pair fr failed show thesis by (simp add: call_def)
  qed
qed

lemma create_file_cases:
  assumes "create_file path want m w = (r, w')"
  obtains (failed) e where "r = Inl e" "fs w' = fs w" "out w' = out w"
    | (made) "r = Inr ()" "fs w path = None" "out w' = out w"
      "fs w' = (fs w)(path \<mapsto> \<lparr>content = [], perm = masked m (umask w), kind = Regular\<rparr>)"
    | (emptied) f where "r = Inr ()" "fs w path = Some f" "kind f = Regular" "out w' = out w"
      "fs w' = (fs w)(path \<mapsto> f\<lparr>content := []\<rparr>)"
    | (kept) f where "r = Inr ()" "fs w path = Some f" "kind f = Special" "fs w' = fs w" "out w' = out w"
proof (cases rule: call_cases [of "\<lambda>w. case fs w path of
     None \<Rightarrow> (Inr (), w\<lparr>fs := (fs w)(path := Some \<lparr>content = [], perm = masked m (umask w), kind = Regular\<rparr>)\<rparr>)
   | Some f \<Rightarrow> (case kind f of
       Directory _ \<Rightarrow> (Inl EISDIR, w)
     | _ \<Rightarrow> if \<not> grants (class_bits (who w) (perm f)) want then (Inl EACCES, w)
         else if kind f = Regular then (Inr (), w\<lparr>fs := (fs w)(path := Some (f\<lparr>content := []\<rparr>))\<rparr>)
         else (Inr (), w))" w])
  case (failed e w1)
  with assms have "r = Inl e" "fs w' = fs w" "out w' = out w" by (simp_all add: create_file_def)
  then show thesis by (rule that(1))
next
  case (acts w1)
  show thesis
  proof (cases "fs w path")
    case None
    with acts assms have "r = Inr ()" "out w' = out w" "fs w' = (fs w)(path \<mapsto> \<lparr>content = [], perm = masked m (umask w), kind = Regular\<rparr>)"
      by (auto simp: create_file_def)
    with None show thesis by (intro that(2))
  next
    case (Some f)
    show thesis
    proof (cases "kind f")
      case (Directory ds)
      with acts assms Some have "r = Inl EISDIR" "fs w' = fs w" "out w' = out w" by (auto simp: create_file_def)
      then show thesis by (rule that(1))
    next
      case Regular
      with acts assms Some show thesis
        by (cases "grants (class_bits (who w) (perm f)) want") (auto simp: create_file_def intro: that)
    next
      case Special
      with acts assms Some show thesis
        by (cases "grants (class_bits (who w) (perm f)) want") (auto simp: create_file_def intro: that)
    qed
  qed
qed

lemma open_file_frame:
  assumes "open_file path want w = (r, w')"
  shows "fs w' = fs w" and "out w' = out w" and "r = Inr f \<Longrightarrow> fs w path = Some f"
  using assms
  by (simp_all add: open_file_def call_def fault_def split: list.splits option.splits if_splits) auto

end
