(* ===== verification/File_Programs.thy ===== *)
theory File_Programs
  imports Files
begin

text \<open>
  The programs on file attributes and contents: \<open>access_example.c\<close>, \<open>chmod_example.c\<close>,
  \<open>creat_example.c\<close>, \<open>stat_example.c\<close>, \<open>mmap_example.c\<close> and \<open>directory_example.c\<close>, each as a
  function from the world to the exit status and the world after the run.
\<close>

type_synonym program = "world \<Rightarrow> int \<times> world"

section \<open>access, chmod, creat, stat\<close>

text \<open>The two Korean texts of \<open>access_example.c\<close>, in UTF-8.\<close>

definition access_yes :: string where
  "access_yes = map char_of ([0xEC, 0x9D, 0xBD, 0xEA, 0xB3, 0xA0, 0x20, 0xEC, 0x93, 0xB0, 0xEA, 0xB8,
     0xB0, 0x20, 0xEA, 0xB0, 0x80, 0xEB, 0x8A, 0xA5, 0x21, 0x0A] :: nat list)"

definition access_no :: string where
  "access_no = map char_of ([0xEA, 0xB6, 0x8C, 0xED, 0x95, 0x9C, 0xEC, 0x9D, 0xB4, 0x20, 0xEC, 0x97,
     0x86, 0xEA, 0xB1, 0xB0, 0xEB, 0x82, 0x98, 0x20, 0xEC, 0xA1, 0xB4, 0xEC, 0x9E, 0xAC, 0xED, 0x95,
     0x98, 0xEC, 0xA7, 0x80, 0x20, 0xEC, 0x95, 0x8A, 0xEC, 0x9D, 0x8C, 0x2E, 0x0A] :: nat list)"

definition a_out :: string where "a_out = ''./a.out''"

definition access_main :: program where
  "access_main = attempt (access a_out (R_OK + W_OK))
     (\<lambda>e w. (0, print access_no w))
     (\<lambda>_ w. (0, print access_yes w))"

definition S_IRWXU :: nat where "S_IRWXU = 448"
definition S_IRWXG :: nat where "S_IRWXG = 56"

definition chmod_main :: program where
  "chmod_main = attempt (access a_out F_OK)
     (\<lambda>e w. (- 1, print (''file('' @ a_out @ '') access error'' @ [nl]) w))
     (\<lambda>_. attempt (chmod a_out (S_IRWXU + S_IRWXG))
        (\<lambda>e w. (- 1, print (''chmod() error'' @ [nl]) w))
        (\<lambda>_ w. (0, w)))"

definition tmp_file :: string where "tmp_file = ''/tmp/file''"
definition creat_mode :: nat where "creat_mode = 256 + 128 + 32 + 4"

definition creat_main :: program where
  "creat_main = attempt (create_file tmp_file W_OK creat_mode)
     (\<lambda>e w. (- 1, print (''creat error: '' @ e @ [nl]) w))
     (\<lambda>_ w. (0, w))"

definition stat_main :: "string list \<Rightarrow> program" where
  "stat_main argv w =
     (if length argv < 2 then (- 1, print (''Usage: '' @ argv ! 0 @ '' <file>'' @ [nl]) w)
      else attempt (stat_file (argv ! 1))
        (\<lambda>e w. (- 1, perror ''stat error: '' e w))
        (\<lambda>f w. (0, print (''file('' @ argv ! 1 @ '') is '' @ dec (int (length (content f))) @ '' bytes'' @ [nl]) w))
        w)"

section \<open>mmap\<close>

text \<open>
  The putchar loop. Its index is an \<open>int\<close>, so a file of \<open>2\<^sup>3\<^sup>1\<close> bytes or more overflows it:
  undefined, no result. \<open>munmap\<close> and \<open>close\<close> come through \<open>call\<close> only to fail.
\<close>

fun putchar_loop :: "bytes \<Rightarrow> nat \<Rightarrow> nat \<Rightarrow> world \<Rightarrow> world" where
  "putchar_loop p i 0 w = w"
| "putchar_loop p i (Suc n) w = putchar_loop p (Suc i) n (print [p ! i] w)"

definition no_effect :: "unit call" where
  "no_effect = call (\<lambda>w. (Inr (), w))"

definition mmap_file :: "bytes \<Rightarrow> bytes call" where
  "mmap_file b = call (\<lambda>w. (if b = [] then Inl ''Invalid argument'' else Inr b, w))"

definition mmap_main :: "string list \<Rightarrow> world \<Rightarrow> (int \<times> world) option" where
  "mmap_main argv w =
     (if length argv < 2 then Some (- 1, print (''Usage: '' @ argv ! 0 @ '' <file>'' @ [nl]) w)
      else attempt (open_file (argv ! 1) R_OK)
        (\<lambda>e w. Some (- 1, perror ''oepn error: '' e w))
        (\<lambda>f. attempt no_effect
           (\<lambda>e w. Some (- 1, perror ''fstat error: '' e w))
           (\<lambda>_ w. if kind f \<noteq> Regular
              then Some (- 1, print (''file '' @ argv ! 1 @ '' is not a file'' @ [nl]) w)
              else attempt (mmap_file (content f))
                (\<lambda>e w. Some (- 1, perror ''mmap error: '' e w))
                (\<lambda>p. attempt no_effect
                   (\<lambda>e w. Some (- 1, perror ''close error: '' e w))
                   (\<lambda>_ w. if 2 ^ 31 \<le> length p then None
                      else attempt no_effect
                        (\<lambda>e w. Some (- 1, perror ''munmap error: '' e w))
                        (\<lambda>_ w. Some (0, w))
                        (putchar_loop p 0 (length p) w))) w))
        w)"

section \<open>readdir\<close>

definition found_text :: "string \<Rightarrow> string" where
  "found_text name = ''found! file('' @ name @ '') exist'' @ [nl]"

definition missing_text :: "string \<Rightarrow> string" where
  "missing_text name = ''file('' @ name @ '') doesn't exist!'' @ [nl]"

text \<open>
  \<open>readdir\<close> returns NULL both at the end and on an error; only an error sets errno. The loop
  returns the final \<open>found\<close> and errno. A failure of one \<open>readdir\<close> is the next fault.
\<close>

fun readdir_loop :: "string \<Rightarrow> string list \<Rightarrow> world \<Rightarrow> bool \<times> string option \<times> world" where
  "readdir_loop name [] w = (case fault w of (e, w) \<Rightarrow> (False, e, w))"
| "readdir_loop name (d # ds) w =
     (case fault w of
        (Some e, w) \<Rightarrow> (False, Some e, w)
      | (None, w) \<Rightarrow>
          if d = name then (True, None, print (found_text name) w)
          else readdir_loop name ds w)"

definition opendir :: "string \<Rightarrow> string list call" where
  "opendir path = call (\<lambda>w. (case fs w path of
     None \<Rightarrow> Inl ENOENT
   | Some f \<Rightarrow> (case kind f of
       Directory ds \<Rightarrow> if grants (class_bits (who w) (perm f)) R_OK then Inr ds else Inl EACCES
     | _ \<Rightarrow> Inl ''Not a directory''), w))"

definition directory_main :: "string list \<Rightarrow> program" where
  "directory_main argv w =
     (if length argv < 3 then (- 1, print (''Usage: '' @ argv ! 0 @ '' <dir> <file>'' @ [nl]) w)
      else attempt (opendir (argv ! 1))
        (\<lambda>e w. (- 1, perror ''oepndir error: '' e w))
        (\<lambda>ds w. case readdir_loop (argv ! 2) ds w of
           (found, Some e, w) \<Rightarrow> (- 1, perror ''readdir error: '' e w)
         | (found, None, w) \<Rightarrow>
             (0, if found then w else print (missing_text (argv ! 2)) w))
        w)"

section \<open>Lemmas\<close>

lemma attempt_Inl: "c w = (Inl e, w1) \<Longrightarrow> attempt c bad ok w = bad e w1"
  by (simp add: attempt_def)

lemma attempt_Inr: "c w = (Inr x, w1) \<Longrightarrow> attempt c bad ok w = ok x w1"
  by (simp add: attempt_def)

lemma putchar_loop_prints:
  "i + n \<le> length p \<Longrightarrow> putchar_loop p i n w = print (take n (drop i p)) w"
proof (induction n arbitrary: i w)
  case (Suc n)
  then have "drop i p = p ! i # drop (Suc i) p" by (simp add: Cons_nth_drop_Suc)
  with Suc show ?case by (simp add: print_print)
qed (simp add: print_def)

lemma readdir_calm:
  "faults w = [] \<Longrightarrow> readdir_loop name ds w =
    (name \<in> set ds, None, if name \<in> set ds then print (found_text name) w else w)"
  by (induction ds) (auto simp: fault_def)

text \<open>Whatever fails on the way, a printed hit means that the name is there.\<close>

lemma readdir_any:
  "readdir_loop name ds w = (found, e, w') \<Longrightarrow> fs w' = fs w \<and>
    (if found then e = None \<and> name \<in> set ds \<and> out w' = out w @ found_text name
     else out w' = out w \<and> (e = None \<longrightarrow> name \<notin> set ds))"
proof (induction name ds w arbitrary: rule: readdir_loop.induct)
  case (1 name w)
  then show ?case using fault_frame [of w] by (auto split: prod.splits)
next
  case (2 name d ds w)
  obtain f w1 where f: "fault w = (f, w1)" by (cases "fault w")
  have fr: "fs w1 = fs w" "out w1 = out w" using fault_frame [of w] f by auto
  show ?case
  proof (cases f)
    case None
    with 2 f fr show ?thesis by (cases "d = name") (auto split: if_splits)
  next
    case (Some e1)
    with 2 f fr show ?thesis by auto
  qed
qed

section \<open>Properties\<close>

text \<open>
  \<open>chmod_example.c\<close> and \<open>access_example.c\<close> agree: after any run of the first that returned
  0, with any failures before, the owner's next run of the second without a failure finds
  ./a.out readable and writable; the contents of all files are as they were.
\<close>

theorem chmod_then_access:
  assumes "chmod_main w = (0, w1)" and "w2 = w1\<lparr>faults := []\<rparr>"
  shows "\<exists>w3. access_main w2 = (0, w3) \<and> out w3 = out w2 @ access_yes \<and>
    (\<forall>p. map_option content (fs w3 p) = map_option content (fs w p))"
proof -
  have w1: "who w1 = Owner \<and> (\<exists>f. fs w a_out = Some f \<and>
      fs w1 = (fs w)(a_out \<mapsto> f\<lparr>perm := S_IRWXU + S_IRWXG\<rparr>))"
  proof (cases rule: call_cases [of "\<lambda>w. (case fs w a_out of
       None \<Rightarrow> Inl ENOENT
     | Some f \<Rightarrow> if grants (class_bits (who w) (perm f)) F_OK then Inr () else Inl EACCES, w)" w])
    case (failed e v)
    with assms(1) show ?thesis by (simp add: chmod_main_def access_def attempt_def)
  next
    case (acts v)
    then have c: "chmod_main w = attempt (chmod a_out (S_IRWXU + S_IRWXG))
        (\<lambda>e w. (- 1, print (''chmod() error'' @ [nl]) w)) (\<lambda>_ w. (0, w)) v \<and> fs v a_out \<noteq> None"
      using assms(1) by (auto simp: chmod_main_def access_def attempt_def split: option.splits if_splits)
    show ?thesis
    proof (cases rule: call_cases [of "\<lambda>w. case fs w a_out of
         None \<Rightarrow> (Inl ENOENT, w)
       | Some f \<Rightarrow> if who w = Owner then (Inr (), w\<lparr>fs := (fs w)(a_out := Some (f\<lparr>perm := S_IRWXU + S_IRWXG\<rparr>))\<rparr>)
           else (Inl EPERM, w)" v])
      case (failed e u)
      with c assms(1) show ?thesis by (simp add: chmod_def attempt_def)
    next
      case second: (acts u)
      with c assms(1) acts show ?thesis
        by (auto simp: chmod_def attempt_def split: option.splits if_splits)
    qed
  qed
  then obtain f where f: "who w1 = Owner" "fs w a_out = Some f"
      "fs w1 = (fs w)(a_out \<mapsto> f\<lparr>perm := S_IRWXU + S_IRWXG\<rparr>)" by blast
  have g: "grants (class_bits Owner (S_IRWXU + S_IRWXG)) (R_OK + W_OK)" by code_simp
  have "access_main w2 = (0, print access_yes w2)"
    using f g assms(2) by (simp add: access_main_def access_def attempt_def)
  then show ?thesis using f assms(2) by auto
qed

definition small_world :: world where
  "small_world = \<lparr>inp = [], out = [], err = [],
     fs = [a_out \<mapsto> \<lparr>content = ''ELF'', perm = 0, kind = Regular\<rparr>,
           ''d'' \<mapsto> \<lparr>content = [], perm = 448, kind = Directory [''x'', ''y'']\<rparr>],
     who = Owner, umask = 18, faults = []\<rparr>"

theorem chmod_then_access_witness:
  "out (snd (access_main (snd (chmod_main small_world)))) = access_yes"
proof -
  have "chmod_main small_world = (0, snd (chmod_main small_world))"
    by (simp add: chmod_main_def access_def chmod_def attempt_def small_world_def F_OK_def grants_def)
  from chmod_then_access [OF this refl] show ?thesis
    by (auto simp: chmod_main_def access_def chmod_def attempt_def small_world_def F_OK_def grants_def)
qed

text \<open>
  After a successful run of \<open>creat_example.c\<close> on a path that is no special file, with any script of
  failures, /tmp/file exists and is empty, its permissions are those it had or, if it is new,
  0644 without the bits of the umask, every other file is untouched, and \<open>stat_example.c\<close> reports
  0 bytes for it.
\<close>

theorem creat_then_stat:
  assumes "creat_main w = (0, w1)" and "map_option kind (fs w tmp_file) \<noteq> Some Special" and "w2 = w1\<lparr>faults := []\<rparr>"
  shows "\<exists>f. fs w1 = (fs w)(tmp_file \<mapsto> f) \<and> content f = [] \<and>
    perm f = (case fs w tmp_file of None \<Rightarrow> masked creat_mode (umask w) | Some g \<Rightarrow> perm g) \<and>
    stat_main [prog, tmp_file] w2 = (0, print (''file('' @ tmp_file @ '') is 0 bytes'' @ [nl]) w2)"
proof -
  obtain r v where c: "create_file tmp_file W_OK creat_mode w = (r, v)" by (cases "create_file tmp_file W_OK creat_mode w")
  have m: "creat_main w = (case r of Inl e \<Rightarrow> (- 1, print (''creat error: '' @ e @ [nl]) v) | Inr _ \<Rightarrow> (0, v))"
    by (cases r) (simp_all add: creat_main_def attempt_def c)
  from c have "\<exists>f. fs w1 = (fs w)(tmp_file \<mapsto> f) \<and> content f = [] \<and>
    perm f = (case fs w tmp_file of None \<Rightarrow> masked creat_mode (umask w) | Some g \<Rightarrow> perm g)"
    by (cases rule: create_file_cases) (use assms(1,2) m in auto)
  then obtain f where f: "fs w1 = (fs w)(tmp_file \<mapsto> f)" "content f = []"
    "perm f = (case fs w tmp_file of None \<Rightarrow> masked creat_mode (umask w) | Some g \<Rightarrow> perm g)" by blast
  have d0: "dec 0 = ''0''" by code_simp
  have "stat_main [prog, tmp_file] w2 = (0, print (''file('' @ tmp_file @ '') is 0 bytes'' @ [nl]) w2)"
    using f assms(3) d0 by (simp add: stat_main_def stat_file_def attempt_def)
  with f show ?thesis by blast
qed

theorem creat_then_stat_witness:
  "\<exists>f. fs (snd (creat_main small_world)) = (fs small_world)(tmp_file \<mapsto> f) \<and> perm f = 420"
proof -
  have "creat_main small_world = (0, snd (creat_main small_world))"
    by (simp add: creat_main_def create_file_def attempt_def small_world_def a_out_def tmp_file_def)
  moreover have "masked creat_mode (umask small_world) = 420" "fs small_world tmp_file = None"
    by code_simp (simp add: small_world_def a_out_def tmp_file_def)
  ultimately show ?thesis using creat_then_stat [OF _ _ refl, of small_world] by fastforce
qed

lemma no_effect_frame: "no_effect w = (r, v) \<Longrightarrow> fs v = fs w \<and> out v = out w"
  by (auto simp: no_effect_def call_def fault_def split: list.splits option.splits)

lemma mmap_file_frame:
  "mmap_file b w = (r, v) \<Longrightarrow> fs v = fs w \<and> out v = out w \<and> (\<forall>p. r = Inr p \<longrightarrow> p = b \<and> b \<noteq> [])"
  by (auto simp: mmap_file_def call_def fault_def split: list.splits option.splits if_splits)

lemma mmap_calm:
  assumes "faults w = []" and "fs w path = Some f" and "kind f = Regular" and "grants (class_bits (who w) (perm f)) R_OK"
  shows "mmap_main [prog, path] w =
    (if content f = [] then Some (- 1, perror ''mmap error: '' ''Invalid argument'' w)
     else if length (content f) < 2 ^ 31 then Some (0, print (content f) w) else None)"
  using assms
  by (simp add: mmap_main_def attempt_def open_file_def no_effect_def mmap_file_def putchar_loop_prints)

definition not_a_file :: "string \<Rightarrow> string" where
  "not_a_file path = ''file '' @ path @ '' is not a file'' @ [nl]"

text \<open>How far a run gets: to a failing call before the loop, to a file that cannot be shown, or past it.\<close>

lemma mmap_mapped:
  assumes "open_file path R_OK w = (Inr f, w1)" and "no_effect w1 = (Inr (), w2)" and "kind f = Regular"
    and "mmap_file (content f) w2 = (Inr (content f), w3)" and "no_effect w3 = (Inr (), w4)"
    and "no_effect (print (content f) w4) = (x5, w5)"
  shows "mmap_main [prog, path] w = (if 2 ^ 31 \<le> length (content f) then None
    else Some (case x5 of Inl e \<Rightarrow> (- 1, perror ''munmap error: '' e w5) | Inr _ \<Rightarrow> (0, w5)))"
proof -
  have "putchar_loop (content f) 0 (length (content f)) w4 = print (content f) w4" by (simp add: putchar_loop_prints)
  with assms show ?thesis by (cases x5) (simp_all add: mmap_main_def attempt_def)
qed

lemma mmap_outcome:
  assumes "fs w path = Some f"
  obtains (early) w1 where "mmap_main [prog, path] w = Some (- 1, w1)" "fs w1 = fs w" "out w1 = out w"
    | (other) w1 where "mmap_main [prog, path] w = Some (- 1, w1)" "fs w1 = fs w" "kind f \<noteq> Regular"
        "out w1 = out w @ not_a_file path"
    | (too_long) "mmap_main [prog, path] w = None" "2 ^ 31 \<le> length (content f)"
    | (shown) r w1 where "mmap_main [prog, path] w = Some (r, w1)" "fs w1 = fs w" "r = 0 \<or> r = - 1"
        "out w1 = out w @ content f" "kind f = Regular" "content f \<noteq> []" "length (content f) < 2 ^ 31"
proof -
  obtain x1 w1 where c1: "open_file path R_OK w = (x1, w1)" by (cases "open_file path R_OK w")
  obtain x2 w2 where c2: "no_effect w1 = (x2, w2)" by (cases "no_effect w1")
  obtain x3 w3 where c3: "mmap_file (content f) w2 = (x3, w3)" by (cases "mmap_file (content f) w2")
  obtain x4 w4 where c4: "no_effect w3 = (x4, w4)" by (cases "no_effect w3")
  obtain x5 w5 where c5: "no_effect (print (content f) w4) = (x5, w5)" by (cases "no_effect (print (content f) w4)")
  note fr = open_file_frame [OF c1] no_effect_frame [OF c2] mmap_file_frame [OF c3] no_effect_frame [OF c4] no_effect_frame [OF c5]
  note run = mmap_main_def attempt_def not_a_file_def c1 c2 c3 c4
  show thesis
  proof (cases x1)
    case (Inl e)
    with early fr(1,2) show thesis by (simp add: run)
  next
    case (Inr g)
    then have g: "x1 = Inr f" using fr(3) [of g] assms by simp
    show thesis
    proof (cases "\<exists>e. x2 = Inl e \<or> kind f = Regular \<and> (x3 = Inl e \<or> x4 = Inl e)")
      case True
      with early fr g show thesis by (cases x2; cases x3; cases x4) (auto simp: run)
    next
      case False
      then have x2: "x2 = Inr ()" by (cases x2) auto
      show thesis
      proof (cases "kind f = Regular")
        case no: False
        with other fr g x2 show thesis by (simp add: run)
      next
        case yes: True
        with False have x: "x3 = Inr (content f)" "x4 = Inr ()" using fr(5) by (cases x3; cases x4; auto)+
        have w5: "fs w5 = fs w" "out w5 = out w @ content f" "content f \<noteq> []" using fr x by simp_all
        note r = mmap_mapped [OF c1 [unfolded g] c2 [unfolded x2] yes c3 [unfolded x] c4 [unfolded x] c5]
        show thesis
        proof (cases "2 ^ 31 \<le> length (content f)")
          case True
          then show thesis by (intro too_long) (simp_all add: r)
        next
          case False
          then show thesis using r w5 yes by (cases x5) (auto intro: shown)
        qed
      qed
    qed
  qed
qed



text \<open>
  C32: \<open>directory_example.c\<close>, with any script of failures: it changes no file; on status 0 it has
  printed that the name exists exactly when the directory has an entry of that name, and
  otherwise that it does not; with another status it claims neither.
\<close>

theorem directory_search:
  assumes "fs w dir = Some f" and "kind f = Directory ds" and "directory_main [prog, dir, name] w = (r, w')"
  shows "fs w' = fs w \<and> (r = 0 \<or> r = - 1) \<and> out w' = out w @
    (if r = 0 then (if name \<in> set ds then found_text name
        else missing_text name) else [])"
proof (cases rule: call_cases [of "\<lambda>w. (case fs w dir of
     None \<Rightarrow> Inl ENOENT
   | Some f \<Rightarrow> (case kind f of
       Directory ds \<Rightarrow> if grants (class_bits (who w) (perm f)) R_OK then Inr ds else Inl EACCES
     | _ \<Rightarrow> Inl ''Not a directory''), w)" w])
  case (failed e v)
  with assms show ?thesis by (auto simp: directory_main_def opendir_def attempt_def)
next
  case (acts v)
  show ?thesis
  proof (cases "grants (class_bits (who w) (perm f)) R_OK")
    case False
    with acts assms show ?thesis by (auto simp: directory_main_def opendir_def attempt_def)
  next
    case True
    obtain found e u where l: "readdir_loop name ds v = (found, e, u)" by (metis prod_cases3)
    have "directory_main [prog, dir, name] w = (case e of Some e \<Rightarrow> (- 1, perror ''readdir error: '' e u)
        | None \<Rightarrow> (0, if found then u else print (missing_text name) u))"
    proof -
      have "opendir dir w = (Inr ds, v)" using acts assms(1,2) True by (simp add: opendir_def)
      then show ?thesis by (cases e) (simp_all add: directory_main_def attempt_def l numeral_2_eq_2)
    qed
    with assms(3) readdir_any [OF l] acts show ?thesis by (auto split: option.splits if_splits)
  qed
qed

theorem directory_search_witness:
  "out (snd (directory_main [''ls'', ''d'', ''y''] small_world)) = found_text ''y''"
proof -
  have r: "fst (directory_main [''ls'', ''d'', ''y''] small_world) = 0"
    unfolding small_world_def a_out_def by code_simp
  have "fs small_world ''d'' = Some \<lparr>content = [], perm = 448, kind = Directory [''x'', ''y'']\<rparr>"
    by (simp add: small_world_def a_out_def)
  from directory_search [OF this _ surjective_pairing, of "[''x'', ''y'']" "''ls''" "''y''"] r
  show ?thesis by (simp add: small_world_def)
qed

end
