(* ===== verification/Stdio_Programs.thy ===== *)
theory Stdio_Programs
  imports Files
begin

text \<open>
  The stdio programs: \<open>stdio_example.c\<close> (a structure written and read back),
  \<open>stdio_example2.c\<close> (a filter that rewrites a file in place) and \<open>stdio_example3.c\<close>
  (file positions and the line buffer of stdout). A stream is the bytes of its file and a
  position; buffered output reaches the file when the program ends, on every path.
\<close>

record stream =
  sdata :: bytes
  spos :: nat

section \<open>stdio\_example2: the filter\<close>

definition special :: "char \<Rightarrow> bool" where
  "special c \<longleftrightarrow> c = CHR ''!'' \<or> c = CHR ''@'' \<or> c = CHR ''#'' \<or> c = CHR ''$'' \<or> c = CHR ''%'' \<or>
     c = CHR ''^'' \<or> c = CHR ''&'' \<or> c = CHR ''*'' \<or> c = CHR ''-'' \<or> c = CHR ''_''"

text \<open>\<open>fgetc\<close>: EOF (\<open>None\<close>) is the end of the file or an error; the loop does not tell them apart.\<close>

definition fgetc :: "stream \<Rightarrow> world \<Rightarrow> char option \<times> stream \<times> world" where
  "fgetc s w = (case fault w of
     (Some e, w) \<Rightarrow> (None, s, w)
   | (None, w) \<Rightarrow> if spos s < length (sdata s) then (Some (sdata s ! spos s), s\<lparr>spos := spos s + 1\<rparr>, w)
       else (None, s, w))"

definition ungetc :: "stream \<Rightarrow> stream" where
  "ungetc s = s\<lparr>spos := spos s - 1\<rparr>"

definition fputc :: "char \<Rightarrow> stream \<Rightarrow> stream" where
  "fputc c s = s\<lparr>sdata := overwrite (sdata s) (spos s) [c], spos := spos s + 1\<rparr>"

lemma fgetc_Some:
  "fgetc s w = (Some c, s', w') \<Longrightarrow>
   spos s < length (sdata s) \<and> c = sdata s ! spos s \<and> s' = s\<lparr>spos := spos s + 1\<rparr>"
  by (auto simp: fgetc_def split: option.splits prod.splits if_splits)

lemma fault_parts:
  assumes "fault w = (f, w1)"
  shows "fs w1 = fs w" and "out w1 = out w" and "faults w = [] \<Longrightarrow> w1 = w \<and> f = None"
  using fault_frame [of w] assms by (simp_all add: fault_def)

lemma fgetc_frame:
  assumes "fgetc s w = (c, s1, w1)"
  shows "fs w1 = fs w \<and> out w1 = out w \<and> (faults w = [] \<longrightarrow> w1 = w) \<and>
    (c = None \<longrightarrow> s1 = s \<and> (faults w = [] \<longrightarrow> length (sdata s) \<le> spos s))"
proof (cases "fst (fault w)")
  case None
  then have f: "fault w = (None, snd (fault w))" by (metis prod.collapse)
  show ?thesis
  proof (cases "spos s < length (sdata s)")
    case True
    then show ?thesis using assms fault_parts [OF f] by (subst (asm) fgetc_def, subst (asm) f) auto
  next
    case False
    then show ?thesis using assms fault_parts [OF f] by (subst (asm) fgetc_def, subst (asm) f) auto
  qed
next
  case (Some e)
  then have f: "fault w = (Some e, snd (fault w))" by (metis prod.collapse)
  show ?thesis using assms fault_parts [OF f] by (subst (asm) fgetc_def, subst (asm) f) auto
qed

lemma overwrite_one: "i < length b \<Longrightarrow> overwrite b i [c] = b[i := c]"
  by (simp add: overwrite_def upd_conv_take_nth_drop)

lemma filter_loop_decreases:
  assumes "fgetc s w = (Some c, s1, w1)"
  shows "length (sdata s1) - spos s1 < length (sdata s) - spos s"
    and "length (sdata (fputc d (ungetc s1))) - spos (fputc d (ungetc s1)) < length (sdata s) - spos s"
proof -
  have lt: "spos s < length (sdata s)" and s1: "s1 = s\<lparr>spos := spos s + 1\<rparr>"
    using fgetc_Some [OF assms] by auto
  then show "length (sdata s1) - spos s1 < length (sdata s) - spos s" by simp
  have "fputc d (ungetc s1) = s\<lparr>sdata := (sdata s)[spos s := d], spos := spos s + 1\<rparr>"
    by (simp add: s1 fputc_def ungetc_def overwrite_one [OF lt])
  with lt show "length (sdata (fputc d (ungetc s1))) - spos (fputc d (ungetc s1)) < length (sdata s) - spos s"
    by simp
qed

text \<open>The loop of \<open>main\<close>; the result is the text of the failing call and its error, if any.\<close>

function filter_loop :: "stream \<Rightarrow> world \<Rightarrow> (string \<times> string) option \<times> stream \<times> world" where
  "filter_loop s w =
     (case fgetc s w of
        (None, s', w') \<Rightarrow> (None, s', w')
      | (Some c, s', w') \<Rightarrow>
          if special c then
            (case fault w' of
               (Some e, w1) \<Rightarrow> (Some (''ungetc error: '', e), s', w1)
             | (None, w1) \<Rightarrow>
                 (case fault w1 of
                    (Some e, w2) \<Rightarrow> (Some (''fputc error: '', e), ungetc s', w2)
                  | (None, w2) \<Rightarrow> filter_loop (fputc CHR '' '' (ungetc s')) w2))
          else filter_loop s' w')"
  by pat_completeness auto

termination
proof (relation "measure (\<lambda>(s, w). length (sdata s) - spos s)", goal_cases)
  case (2 s w c' p c s1 w1)
  then have "fgetc s w = (Some c, s1, w1)" by simp
  from filter_loop_decreases(2) [OF this, of "CHR '' ''"] show ?case by simp
next
  case (3 s w c' p c s1 w1)
  then have "fgetc s w = (Some c, s1, w1)" by simp
  from filter_loop_decreases(1) [OF this] show ?case by simp
qed simp

declare filter_loop.simps [simp del]

definition stdio2_main :: "string list \<Rightarrow> world \<Rightarrow> int \<times> world" where
  "stdio2_main argv w =
     (if length argv < 2 then (- 1, print (''Usage: '' @ argv ! 0 @ '' <file>'' @ [nl]) w)
      else attempt (open_file (argv ! 1) (R_OK + W_OK))
        (\<lambda>e w. (- 1, perror ''fopen error: '' e w))
        (\<lambda>f w. case filter_loop \<lparr>sdata = content f, spos = 0\<rparr> w of
           (Some (msg, e), s, w) \<Rightarrow> (- 1, perror msg e (write_content (argv ! 1) (sdata s) w))
         | (None, s, w) \<Rightarrow>
             (case fault w of
                (Some e, w) \<Rightarrow> (- 1, perror ''fclose error: '' e (write_content (argv ! 1) (sdata s) w))
              | (None, w) \<Rightarrow> (0, write_content (argv ! 1) (sdata s) w)))
        w)"

definition blank :: "char \<Rightarrow> char" where
  "blank c = (if special c then CHR '' '' else c)"

text \<open>The file after the loop has gone from position \<open>i\<close> to \<open>k\<close>.\<close>

definition blanked :: "nat \<Rightarrow> nat \<Rightarrow> bytes \<Rightarrow> bytes" where
  "blanked i k d = take i d @ map blank (take (k - i) (drop i d)) @ drop k d"

lemma blanked_none [simp]: "blanked i i d = d"
  by (simp add: blanked_def)

lemma blanked_step:
  assumes "Suc i \<le> k" and "i < length d"
  shows "blanked (Suc i) k (d[i := blank (d ! i)]) = blanked i k d"
proof -
  have "k - i = Suc (k - Suc i)" using assms(1) by simp
  moreover have "drop i d = d ! i # drop (Suc i) d" using assms(2) by (simp add: Cons_nth_drop_Suc)
  ultimately have "take (k - i) (drop i d) = d ! i # take (k - Suc i) (drop (Suc i) d)" by simp
  moreover have "take (Suc i) (d[i := x]) = take i d @ [x]" for x
    using assms(2) by (simp add: take_Suc_conv_app_nth)
  ultimately show ?thesis using assms by (simp add: blanked_def)
qed

text \<open>What a run of the loop leaves: a blanked stretch and, without faults, all of it.\<close>

definition loop_result :: "stream \<Rightarrow> world \<Rightarrow> (string \<times> string) option \<Rightarrow> stream \<Rightarrow> world \<Rightarrow> bool" where
  "loop_result s w r s' w' \<longleftrightarrow> (\<exists>k. spos s \<le> k \<and> k \<le> length (sdata s) \<and> sdata s' = blanked (spos s) k (sdata s) \<and>
     (faults w = [] \<longrightarrow> r = None \<and> k = length (sdata s) \<and> w' = w)) \<and> fs w' = fs w \<and> out w' = out w"

lemma loop_resultI:
  "spos s \<le> k \<Longrightarrow> k \<le> length (sdata s) \<Longrightarrow> sdata s' = blanked (spos s) k (sdata s) \<Longrightarrow>
   (faults w = [] \<Longrightarrow> r = None \<and> k = length (sdata s) \<and> w' = w) \<Longrightarrow> fs w' = fs w \<Longrightarrow> out w' = out w \<Longrightarrow>
   loop_result s w r s' w'"
  unfolding loop_result_def by blast

lemma loop_result_next:
  assumes "loop_result s2 w2 r s' w'" and "spos s < length (sdata s)"
    and "sdata s2 = (sdata s)[spos s := blank (sdata s ! spos s)]" and "spos s2 = Suc (spos s)"
    and "fs w2 = fs w" "out w2 = out w" "faults w = [] \<Longrightarrow> w2 = w"
  shows "loop_result s w r s' w'"
proof -
  obtain k where k: "Suc (spos s) \<le> k" "k \<le> length (sdata s)" "sdata s' = blanked (Suc (spos s)) k (sdata s2)"
    "faults w2 = [] \<Longrightarrow> r = None \<and> k = length (sdata s) \<and> w' = w2" "fs w' = fs w2" "out w' = out w2"
    using assms(1,3,4) unfolding loop_result_def by auto
  show ?thesis
  proof (rule loop_resultI [of s k])
    show "sdata s' = blanked (spos s) k (sdata s)" using k(3) blanked_step [OF k(1) assms(2)] assms(3) by simp
    show "r = None \<and> k = length (sdata s) \<and> w' = w" if "faults w = []" using k(4) assms(7) that by simp
  qed (use k assms(5,6) in simp_all)
qed

lemma filter_loop_blanks:
  assumes "filter_loop s w = (r, s', w')" and "spos s \<le> length (sdata s)"
  shows "loop_result s w r s' w'"
  using assms
proof (induction s w arbitrary: r s' w' rule: filter_loop.induct)
  case (1 s w)
  obtain c s1 w1 where g: "fgetc s w = (c, s1, w1)" by (metis prod_cases3)
  note fr = fgetc_frame [OF g] and unf = filter_loop.simps [of s w]
  show ?case
  proof (cases c)
    case None
    then show ?thesis
      using "1.prems" g fr by (intro loop_resultI [of s "spos s"]) (auto simp: unf)
  next
    case (Some ch)
    note gs = fgetc_Some [OF g [unfolded Some]]
    show ?thesis
    proof (cases "special ch")
      case False
      then have "filter_loop s1 w1 = (r, s', w')" using "1.prems"(1) g Some by (simp add: unf)
      from "1.IH"(2) [OF g [symmetric] Some refl False this] gs have "loop_result s1 w1 r s' w'" by simp
      then show ?thesis
        by (rule loop_result_next) (use False gs fr in \<open>auto simp: blank_def\<close>)
    next
      case True
      obtain f2 w2 f3 w3 where f: "fault w1 = (f2, w2)" "fault w2 = (f3, w3)" by (meson surj_pair)
      note fr2 = fault_parts [OF f(1)] fault_parts [OF f(2)]
      show ?thesis
      proof (cases "f2 = None \<and> f3 = None")
        case False
        then have "sdata s' = sdata s \<and> w' \<in> {w2, w3} \<and> faults w \<noteq> []"
          using "1.prems"(1) g True Some f gs fr fr2 by (cases f2; cases f3) (auto simp: unf ungetc_def)
        then show ?thesis using gs fr fr2 by (intro loop_resultI [of s "spos s"]) auto
      next
        case none: True
        let ?s2 = "fputc CHR '' '' (ungetc s1)"
        have "filter_loop ?s2 w3 = (r, s', w')" using "1.prems"(1) g True Some f none by (simp add: unf)
        moreover have s2: "sdata ?s2 = (sdata s)[spos s := CHR '' '']" "spos ?s2 = spos s + 1"
          using gs by (simp_all add: fputc_def ungetc_def overwrite_one)
        ultimately have "loop_result ?s2 w3 r s' w'"
          using "1.IH"(1) [OF g [symmetric] Some refl True f(1) [symmetric] _ f(2) [symmetric]] none gs by simp
        then show ?thesis
          by (rule loop_result_next) (use True gs fr fr2 s2 in \<open>auto simp: blank_def\<close>)
      qed
    qed
  qed
qed

text \<open>The two ways of \<open>main\<close> after the command line: the file cannot be opened, or the loop runs.\<close>

lemma stdio2_cases:
  assumes "fs w path = Some f" and "stdio2_main [prog, path] w = (r, w')"
  obtains (closed) "fs w' = fs w" "\<not> (faults w = [] \<and> \<not> is_dir f \<and> grants (class_bits (who w) (perm f)) (R_OK + W_OK))"
    | (filtered) k where "k \<le> length (content f)"
      "fs w' = (fs w)(path \<mapsto> f\<lparr>content := map blank (take k (content f)) @ drop k (content f)\<rparr>)"
      "faults w = [] \<Longrightarrow> r = 0 \<and> k = length (content f)"
proof (cases "open_file path (R_OK + W_OK) w")
  case (Pair opened v)
  have v: "fs v = fs w" "faults w = [] \<Longrightarrow> faults v = []"
    using Pair by (auto simp: open_file_def call_def fault_def split: if_splits list.splits option.splits)
  have no: "opened = Inr f \<or> (\<exists>e. opened = Inl e \<and> \<not> (faults w = [] \<and> \<not> is_dir f \<and> grants (class_bits (who w) (perm f)) (R_OK + W_OK)))"
    using Pair assms(1) by (auto simp: open_file_def call_def fault_def split: if_splits list.splits option.splits)
  show thesis
  proof (cases opened)
    case (Inl e)
    then have "fs w' = fs v" using assms(2) Pair by (auto simp: stdio2_main_def attempt_def perror_def)
    with no Inl v(1) closed show thesis by simp
  next
    case (Inr g)
    with no have op: "opened = Inr f" by simp
    obtain res s u where l: "filter_loop \<lparr>sdata = content f, spos = 0\<rparr> v = (res, s, u)" by (metis prod_cases3)
    obtain k where k: "k \<le> length (content f)" "sdata s = map blank (take k (content f)) @ drop k (content f)"
      "faults v = [] \<Longrightarrow> res = None \<and> k = length (content f) \<and> u = v" "fs u = fs w"
      using filter_loop_blanks [OF l] v(1) by (auto simp: loop_result_def blanked_def)
    obtain fl u2 where fl: "fault u = (fl, u2)" by (cases "fault u")
    have wc: "fs (write_content path c x) = (fs w)(path \<mapsto> f\<lparr>content := c\<rparr>)" if "fs x = fs w" for c x
      using that assms(1) by (simp add: write_content_def)
    have "fs w' = (fs w)(path \<mapsto> f\<lparr>content := sdata s\<rparr>)"
      using assms(2) Pair op l fl wc [OF k(4)] wc [of u2] fault_parts(1) [OF fl] k(4)
      by (auto simp: stdio2_main_def attempt_def split: option.splits)
    moreover have "r = 0" if "faults w = []"
      using assms(2) Pair op l fl k(3) v(2) [OF that] fault_parts(3) [OF fl] by (auto simp: stdio2_main_def attempt_def)
    ultimately show thesis using filtered [OF k(1)] k(2,3) v(2) by simp
  qed
qed

text \<open>Without a failure \<open>main\<close> is a map over the file.\<close>

lemma stdio2_calm:
  assumes "faults w = []" and "fs w path = Some f" and "\<not> is_dir f" and "grants (class_bits (who w) (perm f)) (R_OK + W_OK)"
  shows "stdio2_main [prog, path] w = (0, write_content path (map blank (content f)) w)"
proof -
  obtain r s u where l: "filter_loop \<lparr>sdata = content f, spos = 0\<rparr> w = (r, s, u)" by (metis prod_cases3)
  have "r = None \<and> u = w \<and> sdata s = map blank (content f)"
    using filter_loop_blanks [OF l] assms(1) by (auto simp: loop_result_def blanked_def)
  then show ?thesis
    using assms l by (simp add: stdio2_main_def attempt_def open_file_def fault_def)
qed

lemma blank_blank [simp]: "blank (blank c) = blank c"
  by (simp add: blank_def special_def)

section \<open>stdio\_example: a structure written and read back\<close>

text \<open>\<open>struct address\_info\<close>: \<open>index\<close> at 0, \<open>name\<close> at 4, \<open>phone\_number\<close> at 36, \<open>address\<close> at 52, 152 bytes.\<close>

definition FILENAME :: string where "FILENAME = ''./data.file''"
definition address_size :: nat where "address_size = 152"

definition sprintf_at :: "nat \<Rightarrow> string \<Rightarrow> bytes \<Rightarrow> bytes" where
  "sprintf_at at t b = overwrite b at (t @ [NUL])"

text \<open>\<open>kim\<close> over the stack bytes that were there before.\<close>

definition make_kim :: "bytes \<Rightarrow> bytes" where
  "make_kim stack = sprintf_at 52 ''Seoul'' (sprintf_at 36 ''010-1234-5678'' (sprintf_at 4 ''Kim''
     (overwrite stack 0 (int_bytes 1))))"

definition show_info :: "bytes \<Rightarrow> string" where
  "show_info b = ''index: '' @ dec (bytes_int b) @ [nl] @ ''name: '' @ cstr (drop 4 b) @ [nl] @
     ''phone number: '' @ cstr (drop 36 b) @ [nl] @ ''address: '' @ cstr (drop 52 b) @ [nl]"

definition no_result :: "unit call" where
  "no_result = call (\<lambda>w. (Inr (), w))"

text \<open>
  \<open>fread\<close> of one whole structure; a file that is too short gives 0 like an error. The structure stays
  in the stream's buffer until \<open>fclose\<close>, which can fail to write it, or fail after that.
\<close>

definition fread_one :: "bytes \<Rightarrow> bytes call" where
  "fread_one b = call (\<lambda>w. (if address_size \<le> length b then Inr (take address_size b) else Inl ''Success'', w))"

definition fclose_written :: "string \<Rightarrow> bytes \<Rightarrow> unit call" where
  "fclose_written path b = call (\<lambda>w. case fault (write_content path b w) of
     (Some e, w) \<Rightarrow> (Inl e, w) | (None, w) \<Rightarrow> (Inr (), w))"

definition stdio_main :: "bytes \<Rightarrow> world \<Rightarrow> int \<times> world" where
  "stdio_main stack = attempt (create_file FILENAME W_OK 438)
     (\<lambda>e w. (- 1, perror ''fopen error : '' e w))
     (\<lambda>_. attempt no_result
        (\<lambda>e w. (- 1, perror ''fwriteerror: '' e w))
        (\<lambda>_. attempt (fclose_written FILENAME (make_kim stack))
           (\<lambda>e w. (- 1, perror ''fcloseerror: '' e w))
           (\<lambda>_. attempt (open_file FILENAME R_OK)
              (\<lambda>e w. (- 1, perror ''fopenerror: '' e w))
              (\<lambda>f. attempt (fread_one (content f))
                 (\<lambda>e w. (- 1, perror ''freaderror: '' e w))
                 (\<lambda>b. attempt no_result
                    (\<lambda>e w. (- 1, perror ''fcloseerror: '' e w))
                    (\<lambda>_ w. (0, print (show_info b) w)))))))"

lemma make_kim_layout:
  assumes "length stack = address_size"
  obtains n p d where "make_kim stack = int_bytes 1 @ n @ p @ d" and "length n = 32" "length p = 16" "length d = 100"
    and "n = (''Kim'' @ [NUL]) @ drop 4 n" "p = (''010-1234-5678'' @ [NUL]) @ drop 14 p" "d = (''Seoul'' @ [NUL]) @ drop 6 d"
proof -
  define x0 x1 x2 x3 where "x0 = take 4 stack" and "x1 = take 32 (drop 4 stack)"
    and "x2 = take 16 (drop 36 stack)" and "x3 = drop 52 stack"
  have len: "length x0 = 4" "length x1 = 32" "length x2 = 16" "length x3 = 100"
    using assms by (simp_all add: x0_def x1_def x2_def x3_def address_size_def)
  have stack: "stack = x0 @ x1 @ x2 @ x3"
    using append_take_drop_id [of 4 stack] append_take_drop_id [of 32 "drop 4 stack"]
      append_take_drop_id [of 16 "drop 36 stack"]
    by (simp add: x0_def x1_def x2_def x3_def)
  define n p d where "n = (''Kim'' @ [NUL]) @ drop (length (''Kim'' @ [NUL])) x1"
    and "p = (''010-1234-5678'' @ [NUL]) @ drop (length (''010-1234-5678'' @ [NUL])) x2"
    and "d = (''Seoul'' @ [NUL]) @ drop (length (''Seoul'' @ [NUL])) x3"
  have lens: "length n = 32" "length p = 16" "length d = 100"
    using len by (simp_all add: n_def p_def d_def)
  have e0: "overwrite stack 0 (int_bytes 1) = int_bytes 1 @ x1 @ x2 @ x3"
    using len by (simp add: stack overwrite_start)
  have e1: "sprintf_at 4 ''Kim'' (int_bytes 1 @ x1 @ x2 @ x3) = int_bytes 1 @ n @ x2 @ x3"
    unfolding sprintf_at_def n_def by (rule overwrite_middle) (use len in simp_all)
  have e2: "sprintf_at 36 ''010-1234-5678'' ((int_bytes 1 @ n) @ x2 @ x3) = (int_bytes 1 @ n) @ p @ x3"
    unfolding sprintf_at_def p_def by (rule overwrite_middle) (use len lens in simp_all)
  have e3: "sprintf_at 52 ''Seoul'' ((int_bytes 1 @ n @ p) @ x3 @ []) = (int_bytes 1 @ n @ p) @ d @ []"
    unfolding sprintf_at_def d_def by (rule overwrite_middle) (use len lens in simp_all)
  have "make_kim stack = int_bytes 1 @ n @ p @ d"
    using e0 e1 e2 e3 by (simp add: make_kim_def)
  then show thesis using lens by (rule that) (simp_all add: n_def p_def d_def)
qed

lemma make_kim_parts:
  assumes "length stack = address_size"
  shows "length (make_kim stack) = address_size" and "show_info (make_kim stack) =
    ''index: 1'' @ [nl] @ ''name: Kim'' @ [nl] @ ''phone number: 010-1234-5678'' @ [nl] @
    ''address: Seoul'' @ [nl]"
proof -
  obtain n p d where kim: "make_kim stack = int_bytes 1 @ n @ p @ d" and lens: "length n = 32" "length p = 16" "length d = 100"
    and npd: "n = (''Kim'' @ [NUL]) @ drop 4 n" "p = (''010-1234-5678'' @ [NUL]) @ drop 14 p" "d = (''Seoul'' @ [NUL]) @ drop 6 d"
    by (rule make_kim_layout [OF assms])
  show "length (make_kim stack) = address_size" using lens by (simp add: kim address_size_def)
  have c: "cstr (x @ r) = t" if "x = (t @ [NUL]) @ y" "c_string t" for x t y r
    using cstr_terminated [OF that(2), of "y @ r"] by (simp add: that(1))
  have "cstr (drop 4 (make_kim stack)) = ''Kim''"
    using c [OF npd(1), of "p @ d"] by (simp add: kim)
  moreover have "cstr (drop 36 (make_kim stack)) = ''010-1234-5678''"
    using c [OF npd(2), of d] lens by (simp add: kim)
  moreover have "cstr (drop 52 (make_kim stack)) = ''Seoul''"
    using c [OF npd(3), of "[]"] lens by (simp add: kim)
  moreover have "bytes_int (make_kim stack) = 1"
    unfolding kim by (rule bytes_int_int_bytes) (simp add: int32_def)
  moreover have "dec 1 = ''1''" by code_simp
  ultimately show "show_info (make_kim stack) =
    ''index: 1'' @ [nl] @ ''name: Kim'' @ [nl] @ ''phone number: 010-1234-5678'' @ [nl] @
    ''address: Seoul'' @ [nl]"
    by (simp add: show_info_def)
qed

text \<open>Each call on the way fails, or does its work on ./data.file only.\<close>

lemma no_result_frame: "no_result w = (r, v) \<Longrightarrow> fs v = fs w \<and> out v = out w"
  by (auto simp: no_result_def call_def fault_def split: list.splits option.splits)

lemma fread_one_frame:
  "fread_one b w = (r, v) \<Longrightarrow> fs v = fs w \<and> out v = out w \<and> (\<forall>x. r = Inr x \<longrightarrow> x = take address_size b)"
  by (auto simp: fread_one_def call_def fault_def split: list.splits option.splits if_splits)

lemma fclose_written_frame:
  assumes "fclose_written path b w = (r, v)" and "fs w path = Some f"
  shows "out v = out w" and "fs v = fs w \<or> fs v = (fs w)(path \<mapsto> f\<lparr>content := b\<rparr>)"
    and "r = Inr x \<Longrightarrow> fs v = (fs w)(path \<mapsto> f\<lparr>content := b\<rparr>)"
  using assms
  by (auto simp: fclose_written_def write_content_def call_def fault_def split: list.splits option.splits)

lemma created_file:
  assumes "create_file path want m w = (Inr (), v)" and "map_option kind (fs w path) \<noteq> Some Special"
  obtains f where "fs v = (fs w)(path \<mapsto> f)" "out v = out w"
  using assms(1) by (cases rule: create_file_cases) (use assms(2) that in auto)

lemma stdio_reads_back:
  assumes "attempt (open_file FILENAME R_OK)
      (\<lambda>e w. (- 1, perror ''fopenerror: '' e w))
      (\<lambda>f. attempt (fread_one (content f))
         (\<lambda>e w. (- 1, perror ''freaderror: '' e w))
         (\<lambda>b. attempt no_result
            (\<lambda>e w. (- 1, perror ''fcloseerror: '' e w))
            (\<lambda>_ w. (0, print (show_info b) w)))) w = (r, w')"
  shows "fs w' = fs w \<and> (if r = 0 then \<exists>f. fs w FILENAME = Some f \<and> out w' = out w @ show_info (take address_size (content f))
    else r = (- 1 :: int) \<and> out w' = out w)"
proof -
  obtain x w1 where o: "open_file FILENAME R_OK w = (x, w1)" by (cases "open_file FILENAME R_OK w")
  note fr = open_file_frame [OF o]
  show ?thesis
  proof (cases x)
    case (Inl e)
    with assms o fr show ?thesis by (auto simp: attempt_def)
  next
    case (Inr f)
    obtain y w2 where rd: "fread_one (content f) w1 = (y, w2)" by (cases "fread_one (content f) w1")
    note rf = fread_one_frame [OF rd]
    show ?thesis
    proof (cases y)
      case (Inl e)
      with assms o fr Inr rd rf show ?thesis by (auto simp: attempt_def)
    next
      case y: (Inr b)
      obtain z w3 where cl: "no_result w2 = (z, w3)" by (cases "no_result w2")
      with no_result_frame [OF cl] assms o fr Inr rd rf y show ?thesis by (cases z) (auto simp: attempt_def)
    qed
  qed
qed

section \<open>stdio\_example3: positions and the line buffer\<close>

text \<open>
  The terminal: what is still in the buffer of stdout, what has appeared and when (in
  seconds), and the time. On a terminal stdout is written out at each newline.
\<close>

record terminal =
  pending :: string
  appeared :: "(nat \<times> string) list"
  seconds :: nat

definition flush_out :: "terminal \<Rightarrow> terminal" where
  "flush_out t = (if pending t = [] then t
     else t\<lparr>pending := [], appeared := appeared t @ [(seconds t, pending t)]\<rparr>)"

text \<open>The texts the program prints have a newline only at their end.\<close>

definition tprintf :: "string \<Rightarrow> terminal \<Rightarrow> terminal" where
  "tprintf x t = (let t = t\<lparr>pending := pending t @ x\<rparr> in if nl \<in> set x then flush_out t else t)"

definition sleep_one :: "terminal \<Rightarrow> terminal" where
  "sleep_one t = t\<lparr>seconds := seconds t + 1\<rparr>"

fun dots_buffered :: "nat \<Rightarrow> terminal \<Rightarrow> terminal" where
  "dots_buffered 0 t = t"
| "dots_buffered (Suc n) t = dots_buffered n (sleep_one (tprintf ''.'' t))"

fun dots_flushed :: "nat \<Rightarrow> terminal \<Rightarrow> terminal" where
  "dots_flushed 0 t = t"
| "dots_flushed (Suc n) t = dots_flushed n (sleep_one (flush_out (tprintf ''.'' t)))"

definition fprintf_stream :: "string \<Rightarrow> stream \<Rightarrow> stream" where
  "fprintf_stream x s = s\<lparr>sdata := overwrite (sdata s) (spos s) x, spos := spos s + length x\<rparr>"

definition rewind :: "stream \<Rightarrow> stream" where
  "rewind s = s\<lparr>spos := 0\<rparr>"

definition pos_line :: "stream \<Rightarrow> string" where
  "pos_line s = ''current pos is '' @ dec (int (spos s)) @ [nl]"

definition test_txt :: string where "test_txt = ''./test.txt''"

definition stdio3_main :: "terminal \<Rightarrow> world \<Rightarrow> int \<times> terminal \<times> world" where
  "stdio3_main t = attempt (create_file test_txt (R_OK + W_OK) 438)
     (\<lambda>e w. (- 1, t, perror ''fopen error: '' e w))
     (\<lambda>_ w. let s = fprintf_stream (''hello world!'' @ [nl]) \<lparr>sdata = [], spos = 0\<rparr>;
              w = write_content test_txt (sdata s) w in
        attempt no_result
          (\<lambda>e w. (- 1, flush_out t, perror ''ftell error: '' e w))
          (\<lambda>_ w. let t = tprintf (''move pos to start'' @ [nl]) (tprintf (pos_line s) t); s = rewind s in
             attempt no_result
               (\<lambda>e w. (- 1, flush_out t, perror ''ftell error: '' e w))
               (\<lambda>_ w. let t = tprintf (pos_line s) t;
                        t = tprintf [nl] (dots_buffered 5 t);
                        t = tprintf [nl] (dots_flushed 5 t)
                      in (0, flush_out t, w)) w) w)"

section \<open>Properties\<close>

text \<open>
  C11: \<open>stdio_example2.c\<close>, with any script of failures: exactly a first part of the file has its
  special characters replaced by blanks and the rest of it is as before, no other file
  changes; without a failure, for a file that may be written, the part is the whole file and the status is 0.
\<close>

theorem stdio2_filters:
  assumes "fs w path = Some f" and "stdio2_main [prog, path] w = (r, w')"
  shows "\<exists>k \<le> length (content f).
    fs w' = (fs w)(path \<mapsto> f\<lparr>content := map blank (take k (content f)) @ drop k (content f)\<rparr>) \<and>
    (faults w = [] \<and> \<not> is_dir f \<and> grants (class_bits (who w) (perm f)) (R_OK + W_OK) \<longrightarrow> r = 0 \<and> k = length (content f))"
  using assms
proof (cases rule: stdio2_cases)
  case closed
  moreover have "fs w = (fs w)(path \<mapsto> f\<lparr>content := map blank (take 0 (content f)) @ drop 0 (content f)\<rparr>)"
    using assms(1) by (auto simp: fun_eq_iff)
  ultimately show ?thesis by (intro exI [of _ 0]) auto
next
  case (filtered k)
  then show ?thesis by (intro exI [of _ k]) simp
qed

definition one_file :: "string \<Rightarrow> world" where
  "one_file c = \<lparr>inp = [], out = [], err = [], fs = [''f'' \<mapsto> \<lparr>content = c, perm = 420, kind = Regular\<rparr>],
     who = Owner, umask = 18, faults = []\<rparr>"

theorem stdio2_filters_witness:
  "map_option content (fs (snd (stdio2_main [''a'', ''f''] (one_file ''a!b-c''))) ''f'') = Some ''a b c''"
proof -
  have "grants (class_bits Owner 420) (R_OK + W_OK)" by code_simp
  moreover have "map blank ''a!b-c'' = ''a b c''" by code_simp
  ultimately show ?thesis
    using stdio2_filters [of "one_file ''a!b-c''" "''f''" "\<lparr>content = ''a!b-c'', perm = 420, kind = Regular\<rparr>", OF _ surjective_pairing, of "''a''"]
    by (auto simp: one_file_def)
qed

lemma stdio_calm:
  assumes "length stack = address_size" and "faults w = []" and "fs w FILENAME = None"
    and "grants (class_bits (who w) (masked 438 (umask w))) R_OK"
  shows "fst (stdio_main stack w) = 0"
  using assms make_kim_parts(1) [OF assms(1)]
  by (simp add: stdio_main_def attempt_def create_file_def no_result_def open_file_def fread_one_def
      fclose_written_def fault_def write_content_def is_dir_def)

text \<open>
  C31: \<open>stdio_example.c\<close>, with any script of failures and whatever the stack held before: it touches no
  file but ./data.file; on status 0 the structure has come back from the file, where its 152 bytes
  are, with the four fields that were put in, and otherwise nothing is printed; without a failure
  on a new file that the umask leaves readable the status is 0.
\<close>

theorem stdio_round_trip:
  assumes "length stack = address_size" and "map_option kind (fs w FILENAME) \<noteq> Some Special" and "stdio_main stack w = (r, w')"
  shows "(\<forall>p. p \<noteq> FILENAME \<longrightarrow> fs w' p = fs w p) \<and>
    (if r = 0 then (\<exists>f. fs w' FILENAME = Some f \<and> content f = make_kim stack \<and> length (content f) = address_size) \<and>
       out w' = out w @ ''index: 1'' @ [nl] @ ''name: Kim'' @ [nl] @ ''phone number: 010-1234-5678'' @ [nl] @ ''address: Seoul'' @ [nl]
     else r = - 1 \<and> out w' = out w) \<and>
    (faults w = [] \<and> fs w FILENAME = None \<and> grants (class_bits (who w) (masked 438 (umask w))) R_OK \<longrightarrow> r = 0)"
proof -
  have calm: "faults w = [] \<and> fs w FILENAME = None \<and> grants (class_bits (who w) (masked 438 (umask w))) R_OK \<longrightarrow> r = 0"
    using stdio_calm [OF assms(1), of w] assms(3) by auto
  obtain x w1 where c: "create_file FILENAME W_OK 438 w = (x, w1)" by (cases "create_file FILENAME W_OK 438 w")
  show ?thesis
  proof (cases x)
    case (Inl e)
    from c have "fs w1 = fs w" "out w1 = out w" by (cases rule: create_file_cases; use Inl in simp)+
    with assms(3) c Inl calm show ?thesis by (auto simp: stdio_main_def attempt_def)
  next
    case (Inr u)
    then obtain f where f: "fs w1 = (fs w)(FILENAME \<mapsto> f)" "out w1 = out w" using c assms(2) created_file by (metis old.unit.exhaust)
    obtain y w2 where wr: "no_result w1 = (y, w2)" by (cases "no_result w1")
    note wf = no_result_frame [OF wr]
    show ?thesis
    proof (cases y)
      case (Inl e)
      with assms(3) c Inr wr wf f calm show ?thesis by (auto simp: stdio_main_def attempt_def)
    next
      case y: (Inr v)
      obtain z w3 where cl: "fclose_written FILENAME (make_kim stack) w2 = (z, w3)" by (cases "fclose_written FILENAME (make_kim stack) w2")
      have "fs w2 FILENAME = Some f" using wf f by simp
      note cf = fclose_written_frame [OF cl this]
      show ?thesis
      proof (cases z)
        case (Inl e)
        with assms(3) c Inr wr y cl cf(1,2) wf f calm show ?thesis by (auto simp: stdio_main_def attempt_def)
      next
        case z: (Inr t)
        note m = assms(3) [unfolded stdio_main_def attempt_def [of "create_file FILENAME W_OK 438"] c Inr prod.case sum.case
            attempt_def [of no_result _ _ w1] wr y attempt_def [of "fclose_written FILENAME (make_kim stack)"] cl z]
        have "fs w3 = (fs w)(FILENAME \<mapsto> f\<lparr>content := make_kim stack\<rparr>)" "out w3 = out w"
          using cf(1) cf(3) [OF z] wf f by simp_all
        with stdio_reads_back [OF m] make_kim_parts [OF assms(1)] calm show ?thesis by (auto split: if_splits)
      qed
    qed
  qed
qed

theorem stdio_round_trip_witness:
  "out (snd (stdio_main (replicate 152 CHR ''?'') (one_file []))) =
     ''index: 1'' @ [nl] @ ''name: Kim'' @ [nl] @ ''phone number: 010-1234-5678'' @ [nl] @
      ''address: Seoul'' @ [nl]"
proof -
  have "grants (class_bits Owner (masked 438 18)) R_OK" by code_simp
  then show ?thesis
    using stdio_round_trip [of "replicate 152 CHR ''?''" "one_file []", OF _ _ surjective_pairing]
    by (auto simp: one_file_def FILENAME_def address_size_def)
qed

text \<open>
  \<open>stdio_example3.c\<close> on a terminal at time 0 without failures: the positions printed are 13
  and, after rewind, 0; the five dots of the first loop appear together after five
  seconds, with the newline, and those of the second loop one by one, a second apart.
\<close>

theorem stdio3_timing:
  assumes "faults w = []" and "fs w test_txt = None"
  shows "\<exists>t w'. stdio3_main \<lparr>pending = [], appeared = [], seconds = 0\<rparr> w = (0, t, w') \<and>
    appeared t = [(0, ''current pos is 13'' @ [nl]), (0, ''move pos to start'' @ [nl]),
      (0, ''current pos is 0'' @ [nl]), (5, ''.....'' @ [nl]),
      (5, ''.''), (6, ''.''), (7, ''.''), (8, ''.''), (9, ''.''), (10, [nl])] \<and> pending t = [] \<and>
    map_option content (fs w' test_txt) = Some (''hello world!'' @ [nl])"
proof -
  have d: "dec 13 = ''13''" "dec 0 = ''0''" by code_simp+
  show ?thesis
    using assms d
    by (simp add: stdio3_main_def attempt_def create_file_def no_result_def write_content_def
        fprintf_stream_def overwrite_def rewind_def pos_line_def tprintf_def flush_out_def Let_def
        sleep_one_def numeral_eq_Suc)
qed

theorem stdio3_timing_witness:
  "\<exists>t w'. stdio3_main \<lparr>pending = [], appeared = [], seconds = 0\<rparr> (one_file []) = (0, t, w') \<and>
    map_option content (fs w' test_txt) = Some (''hello world!'' @ [nl])"
  using stdio3_timing [of "one_file []"] by (auto simp: one_file_def test_txt_def)

end
