(* ===== verification/Pipe_Talk.thy ===== *)
theory Pipe_Talk
  imports C_Library Interleaving
begin

text \<open>
  \<open>pipe_example.c\<close>: a parent and the child it forks exchange one message in each direction
  through two pipes. A pipe is its contents and the numbers of open descriptors of its two
  ends, of both processes together: they decide whether a read waits or sees the end of the
  file and whether a write raises \<open>SIGPIPE\<close>. Each call is one atomic move; printf is taken to
  reach the terminal at once. The failures of \<open>pipe\<close> and \<open>fork\<close> are moves of their own.
\<close>

section \<open>State\<close>

record pipe_obj =
  pdata :: bytes
  readers :: nat
  writers :: nat

datatype parent_pc =
    P_Pipe1 | P_Pipe2 | P_Fork
  | P_Close_R1 | P_Write1 | P_Close_W1 | P_Wait | P_Close_W2 | P_Read2 | P_Close_R2 | P_Print
  | P_Exited int
  | P_Sigpipe \<comment> \<open>killed by a write to a pipe without reader\<close>

datatype child_pc =
    C_None | C_Close_W1 | C_Read1 | C_Close_R1 | C_Print | C_Close_R2 | C_Write2 | C_Close_W2
  | C_Exit | C_Zombie int | C_Sigpipe

record talk =
  fd1 :: pipe_obj
  fd2 :: pipe_obj
  parent :: parent_pc
  child :: child_pc
  parent_readbuff :: bytes
  child_readbuff :: bytes
  tout :: string
  terr :: string

datatype talk_actor = Parent | Child | Pipe_Fails string | Fork_Fails string

definition question :: string where "question = ''Did you understand?''"
definition answer :: string where "answer = ''OK!''"

definition child_line :: "bytes \<Rightarrow> string" where
  "child_line buf = ''[Child] read from Parent: '' @ cstr buf @ [nl]"

definition parent_line :: "bytes \<Rightarrow> string" where
  "parent_line buf = ''[Parent] read from Child: '' @ cstr buf @ [nl]"

definition no_pipe :: pipe_obj where
  "no_pipe = \<lparr>pdata = [], readers = 0, writers = 0\<rparr>"

definition talk_init :: talk where
  "talk_init = \<lparr>fd1 = no_pipe, fd2 = no_pipe, parent = P_Pipe1, child = C_None,
     parent_readbuff = replicate 128 NUL, child_readbuff = replicate 128 NUL, tout = [], terr = []\<rparr>"

section \<open>The calls on a pipe\<close>

definition pipe_create :: pipe_obj where
  "pipe_create = \<lparr>pdata = [], readers = 1, writers = 1\<rparr>"

text \<open>\<open>fork\<close> duplicates every descriptor.\<close>

definition pipe_inherit :: "pipe_obj \<Rightarrow> pipe_obj" where
  "pipe_inherit p = p\<lparr>readers := 2 * readers p, writers := 2 * writers p\<rparr>"

definition close_read :: "pipe_obj \<Rightarrow> pipe_obj" where
  "close_read p = p\<lparr>readers := readers p - 1\<rparr>"

definition close_write :: "pipe_obj \<Rightarrow> pipe_obj" where
  "close_write p = p\<lparr>writers := writers p - 1\<rparr>"

text \<open>
  \<open>read(fd, buf, n)\<close>: waits (\<open>None\<close>) on an empty pipe that has a writer, returns what there is
  up to \<open>n\<close> bytes, and nothing at the end of the file.
\<close>

definition pipe_read :: "nat \<Rightarrow> pipe_obj \<Rightarrow> (bytes \<times> pipe_obj) option" where
  "pipe_read n p =
     (if pdata p = [] \<and> writers p \<noteq> 0 then None
      else Some (take n (pdata p), p\<lparr>pdata := drop n (pdata p)\<rparr>))"

text \<open>\<open>write\<close>: \<open>None\<close> is the signal a pipe without readers raises.\<close>

definition pipe_write :: "bytes \<Rightarrow> pipe_obj \<Rightarrow> pipe_obj option" where
  "pipe_write bs p = (if readers p = 0 then None else Some (p\<lparr>pdata := pdata p @ bs\<rparr>))"

section \<open>The two processes\<close>

fun talk_parent :: "parent_pc \<Rightarrow> talk \<Rightarrow> talk option" where
  "talk_parent P_Pipe1 s = Some (s\<lparr>fd1 := pipe_create, parent := P_Pipe2\<rparr>)"
| "talk_parent P_Pipe2 s = Some (s\<lparr>fd2 := pipe_create, parent := P_Fork\<rparr>)"
| "talk_parent P_Fork s =
     Some (s\<lparr>fd1 := pipe_inherit (fd1 s), fd2 := pipe_inherit (fd2 s), parent := P_Close_R1, child := C_Close_W1\<rparr>)"
| "talk_parent P_Close_R1 s = Some (s\<lparr>fd1 := close_read (fd1 s), parent := P_Write1\<rparr>)"
| "talk_parent P_Write1 s = Some (case pipe_write (question @ [NUL]) (fd1 s) of
       None \<Rightarrow> s\<lparr>parent := P_Sigpipe\<rparr>
     | Some p \<Rightarrow> s\<lparr>fd1 := p, parent := P_Close_W1\<rparr>)"
| "talk_parent P_Close_W1 s = Some (s\<lparr>fd1 := close_write (fd1 s), parent := P_Wait\<rparr>)"
| "talk_parent P_Wait s = (case child s of
       C_Zombie code \<Rightarrow> Some (s\<lparr>parent := P_Close_W2\<rparr>)
     | C_Sigpipe \<Rightarrow> Some (s\<lparr>parent := P_Close_W2\<rparr>)
     | _ \<Rightarrow> None)"
| "talk_parent P_Close_W2 s = Some (s\<lparr>fd2 := close_write (fd2 s), parent := P_Read2\<rparr>)"
| "talk_parent P_Read2 s = (case pipe_read 128 (fd2 s) of
       None \<Rightarrow> None
     | Some (bs, p) \<Rightarrow> Some (s\<lparr>fd2 := p, parent_readbuff := overwrite (parent_readbuff s) 0 bs, parent := P_Close_R2\<rparr>))"
| "talk_parent P_Close_R2 s = Some (s\<lparr>fd2 := close_read (fd2 s), parent := P_Print\<rparr>)"
| "talk_parent P_Print s = Some (s\<lparr>tout := tout s @ parent_line (parent_readbuff s), parent := P_Exited 0\<rparr>)"
| "talk_parent (P_Exited code) s = None"
| "talk_parent P_Sigpipe s = None"

fun talk_child :: "child_pc \<Rightarrow> talk \<Rightarrow> talk option" where
  "talk_child C_None s = None"
| "talk_child C_Close_W1 s = Some (s\<lparr>fd1 := close_write (fd1 s), child := C_Read1\<rparr>)"
| "talk_child C_Read1 s = (case pipe_read 128 (fd1 s) of
       None \<Rightarrow> None
     | Some (bs, p) \<Rightarrow> Some (s\<lparr>fd1 := p, child_readbuff := overwrite (child_readbuff s) 0 bs, child := C_Close_R1\<rparr>))"
| "talk_child C_Close_R1 s = Some (s\<lparr>fd1 := close_read (fd1 s), child := C_Print\<rparr>)"
| "talk_child C_Print s = Some (s\<lparr>tout := tout s @ child_line (child_readbuff s), child := C_Close_R2\<rparr>)"
| "talk_child C_Close_R2 s = Some (s\<lparr>fd2 := close_read (fd2 s), child := C_Write2\<rparr>)"
| "talk_child C_Write2 s = Some (case pipe_write (answer @ [NUL]) (fd2 s) of
       None \<Rightarrow> s\<lparr>child := C_Sigpipe\<rparr>
     | Some p \<Rightarrow> s\<lparr>fd2 := p, child := C_Close_W2\<rparr>)"
| "talk_child C_Close_W2 s = Some (s\<lparr>fd2 := close_write (fd2 s), child := C_Exit\<rparr>)"
| "talk_child C_Exit s = Some (s\<lparr>child := C_Zombie 0\<rparr>)"
| "talk_child (C_Zombie code) s = None"
| "talk_child C_Sigpipe s = None"

text \<open>The process's own exit statuses: \<open>-1\<close> after a failed \<open>pipe\<close>, 1 after a failed \<open>fork\<close>.\<close>

fun talk_step :: "talk_actor \<Rightarrow> talk \<Rightarrow> talk option" where
  "talk_step Parent s = talk_parent (parent s) s"
| "talk_step Child s = talk_child (child s) s"
| "talk_step (Pipe_Fails e) s =
     (if parent s = P_Pipe1 \<or> parent s = P_Pipe2
      then Some (s\<lparr>terr := terr s @ ''pipe error: '' @ e, parent := P_Exited (- 1)\<rparr>) else None)"
| "talk_step (Fork_Fails e) s =
     (if parent s = P_Fork
      then Some (s\<lparr>terr := terr s @ ''fork error: '' @ e, parent := P_Exited 1\<rparr>) else None)"

section \<open>The states of a run\<close>

text \<open>
  Without a failure the whole state is a function of the two program counters. The ranks are
  the numbers of calls a process has behind it since the beginning.
\<close>

fun prank :: "parent_pc \<Rightarrow> nat" where
  "prank P_Pipe1 = 0" | "prank P_Pipe2 = 1" | "prank P_Fork = 2" | "prank P_Close_R1 = 3"
| "prank P_Write1 = 4" | "prank P_Close_W1 = 5" | "prank P_Wait = 6" | "prank P_Close_W2 = 7"
| "prank P_Read2 = 8" | "prank P_Close_R2 = 9" | "prank P_Print = 10" | "prank (P_Exited c) = 11"
| "prank P_Sigpipe = 12"

fun crank :: "child_pc \<Rightarrow> nat" where
  "crank C_None = 0" | "crank C_Close_W1 = 1" | "crank C_Read1 = 2" | "crank C_Close_R1 = 3"
| "crank C_Print = 4" | "crank C_Close_R2 = 5" | "crank C_Write2 = 6" | "crank C_Close_W2 = 7"
| "crank C_Exit = 8" | "crank (C_Zombie c) = 9" | "crank C_Sigpipe = 10"

definition ends :: "nat \<Rightarrow> nat \<Rightarrow> nat \<Rightarrow> nat \<Rightarrow> nat \<Rightarrow> nat" where
  "ends made p p_closed c c_closed =
     (if made \<le> p \<and> p < p_closed then 1 else 0) + (if 1 \<le> c \<and> c < c_closed then 1 else 0)"

definition got1 :: bytes where
  "got1 = overwrite (replicate 128 NUL) 0 (question @ [NUL])"

definition got2 :: bytes where
  "got2 = overwrite (replicate 128 NUL) 0 (answer @ [NUL])"

definition blank :: bytes where
  "blank = replicate 128 NUL"

definition talk_at :: "parent_pc \<Rightarrow> child_pc \<Rightarrow> talk" where
  "talk_at pp cc = (let p = prank pp; c = crank cc in
     \<lparr>fd1 = \<lparr>pdata = if 5 \<le> p \<and> c < 3 then question @ [NUL] else [],
              readers = ends 1 p 4 c 4, writers = ends 1 p 6 c 2\<rparr>,
      fd2 = \<lparr>pdata = if 7 \<le> c \<and> p < 9 then answer @ [NUL] else [],
              readers = ends 2 p 10 c 6, writers = ends 2 p 8 c 8\<rparr>,
      parent = pp, child = cc,
      parent_readbuff = if 9 \<le> p then got2 else blank,
      child_readbuff = if 3 \<le> c then got1 else blank,
      tout = (if 5 \<le> c then child_line got1 else []) @ (if 11 \<le> p then parent_line got2 else []),
      terr = []\<rparr>)"

text \<open>The child exists from the fork on, reads after the write, and is waited for.\<close>

definition consistent :: "parent_pc \<Rightarrow> child_pc \<Rightarrow> bool" where
  "consistent pp cc \<longleftrightarrow> (prank pp < 3 \<longleftrightarrow> cc = C_None) \<and> (prank pp < 5 \<longrightarrow> crank cc < 3) \<and>
     (6 < prank pp \<longrightarrow> cc = C_Zombie 0) \<and> crank cc \<le> 9 \<and> (crank cc = 9 \<longrightarrow> cc = C_Zombie 0) \<and>
     (prank pp = 11 \<longrightarrow> pp = P_Exited 0) \<and> prank pp \<le> 11"

definition gave_up :: "talk \<Rightarrow> bool" where
  "gave_up s \<longleftrightarrow> child s = C_None \<and> tout s = [] \<and>
     (parent s = P_Exited (- 1) \<and> (\<exists>e. terr s = ''pipe error: '' @ e) \<or>
      parent s = P_Exited 1 \<and> (\<exists>e. terr s = ''fork error: '' @ e))"

definition talk_inv :: "talk \<Rightarrow> bool" where
  "talk_inv s \<longleftrightarrow> (consistent (parent s) (child s) \<and> s = talk_at (parent s) (child s)) \<or> gave_up s"

lemma consistentD:
  assumes "consistent p c"
  shows "prank p < 3 \<Longrightarrow> c = C_None" "c = C_None \<Longrightarrow> prank p < 3" "6 < prank p \<Longrightarrow> c = C_Zombie 0"
    "prank p = 11 \<Longrightarrow> p = P_Exited 0" "prank p \<le> 11" "crank c \<le> 9" "crank c = 9 \<Longrightarrow> c = C_Zombie 0"
    "prank p < 5 \<Longrightarrow> crank c < 3"
  using assms unfolding consistent_def by blast+

lemma talk_at_pcs [simp]: "parent (talk_at p c) = p" "child (talk_at p c) = c"
  by (simp_all add: talk_at_def Let_def)

lemma question_nonempty [simp]: "question \<noteq> []" "answer \<noteq> []"
  by (simp_all add: question_def answer_def)

lemma message_lengths [simp]: "length question = 19" "length answer = 3"
  by (simp_all add: question_def answer_def)

lemma got_simps [simp]: "overwrite blank 0 (question @ [NUL]) = got1" "overwrite blank 0 (answer @ [NUL]) = got2"
  by (simp_all add: got1_def got2_def blank_def)

lemma crank_simps [simp]: "crank c = 0 \<longleftrightarrow> c = C_None" "0 < crank c \<longleftrightarrow> c \<noteq> C_None"
  "Suc 0 \<le> crank c \<longleftrightarrow> c \<noteq> C_None"
  by (cases c; simp)+

lemmas pipe_defs = talk_at_def Let_def ends_def consistent_def pipe_create_def pipe_inherit_def close_read_def
  close_write_def pipe_read_def pipe_write_def no_pipe_def

fun next_parent :: "parent_pc \<Rightarrow> parent_pc" where
  "next_parent P_Pipe1 = P_Pipe2" | "next_parent P_Pipe2 = P_Fork" | "next_parent P_Fork = P_Close_R1"
| "next_parent P_Close_R1 = P_Write1" | "next_parent P_Write1 = P_Close_W1"
| "next_parent P_Close_W1 = P_Wait" | "next_parent P_Wait = P_Close_W2"
| "next_parent P_Close_W2 = P_Read2" | "next_parent P_Read2 = P_Close_R2"
| "next_parent P_Close_R2 = P_Print" | "next_parent P_Print = P_Exited 0"
| "next_parent p = p"

fun next_child :: "child_pc \<Rightarrow> child_pc" where
  "next_child C_Close_W1 = C_Read1" | "next_child C_Read1 = C_Close_R1"
| "next_child C_Close_R1 = C_Print" | "next_child C_Print = C_Close_R2"
| "next_child C_Close_R2 = C_Write2" | "next_child C_Write2 = C_Close_W2"
| "next_child C_Close_W2 = C_Exit" | "next_child C_Exit = C_Zombie 0"
| "next_child c = c"

text \<open>Where a process has to wait, or is at its end.\<close>

definition parent_waits :: "parent_pc \<Rightarrow> child_pc \<Rightarrow> bool" where
  "parent_waits p c \<longleftrightarrow> p = P_Exited 0 \<or> (p = P_Wait \<and> c \<noteq> C_Zombie 0)"

definition child_waits :: "parent_pc \<Rightarrow> child_pc \<Rightarrow> bool" where
  "child_waits p c \<longleftrightarrow> c = C_None \<or> c = C_Zombie 0 \<or> (c = C_Read1 \<and> prank p < 5)"

lemma parent_move:
  assumes "consistent p c"
  shows "talk_parent p (talk_at p c) = (if parent_waits p c then None
    else Some (talk_at (next_parent p) (if p = P_Fork then C_Close_W1 else c)))"
proof (cases p)
  case P_Wait
  with assms show ?thesis by (cases c) (simp_all add: pipe_defs parent_waits_def)
next
  case P_Close_W2
  have "c = C_Zombie 0" by (rule consistentD(3) [OF assms]) (simp add: P_Close_W2)
  with P_Close_W2 show ?thesis by (simp add: pipe_defs parent_waits_def)
next
  case P_Read2
  have "c = C_Zombie 0" by (rule consistentD(3) [OF assms]) (simp add: P_Read2)
  with P_Read2 show ?thesis by (simp add: pipe_defs parent_waits_def)
next
  case P_Close_R2
  have "c = C_Zombie 0" by (rule consistentD(3) [OF assms]) (simp add: P_Close_R2)
  with P_Close_R2 show ?thesis by (simp add: pipe_defs parent_waits_def)
next
  case P_Print
  have "c = C_Zombie 0" by (rule consistentD(3) [OF assms]) (simp add: P_Print)
  with P_Print show ?thesis by (simp add: pipe_defs parent_waits_def)
next
  case (P_Exited e)
  with consistentD(4) [OF assms] show ?thesis by (simp add: parent_waits_def)
next
  case P_Sigpipe
  with consistentD(5) [OF assms] show ?thesis by simp
qed (use assms in \<open>simp add: pipe_defs parent_waits_def\<close>)+

lemma child_move:
  assumes "consistent p c"
  shows "talk_child c (talk_at p c) = (if child_waits p c then None else Some (talk_at p (next_child c)))"
proof (cases c)
  case C_None
  with assms show ?thesis by (simp add: pipe_defs child_waits_def)
next
  case C_Close_W1
  with assms show ?thesis by (simp add: pipe_defs child_waits_def)
next
  case C_Read1
  with assms show ?thesis by (simp add: pipe_defs child_waits_def)
next
  case C_Close_R1
  with assms show ?thesis by (simp add: pipe_defs child_waits_def)
next
  case C_Print
  with assms show ?thesis by (simp add: pipe_defs child_waits_def)
next
  case C_Close_R2
  with assms show ?thesis by (simp add: pipe_defs child_waits_def)
next
  case C_Write2
  with assms show ?thesis by (simp add: pipe_defs child_waits_def)
next
  case C_Close_W2
  with assms show ?thesis by (simp add: pipe_defs child_waits_def)
next
  case C_Exit
  with assms show ?thesis by (simp add: pipe_defs child_waits_def)
next
  case (C_Zombie e)
  with assms show ?thesis by (simp add: pipe_defs child_waits_def)
next
  case C_Sigpipe
  with assms show ?thesis by (simp add: pipe_defs child_waits_def)
qed

lemma talk_at_init: "talk_init = talk_at P_Pipe1 C_None"
  by (simp add: talk_init_def pipe_defs blank_def)

lemma consistent_parent:
  "consistent p c \<Longrightarrow> \<not> parent_waits p c \<Longrightarrow>
   consistent (next_parent p) (if p = P_Fork then C_Close_W1 else c) \<and> prank (next_parent p) = Suc (prank p)"
  by (cases p; cases c; simp add: consistent_def parent_waits_def)

lemma consistent_child:
  "consistent p c \<Longrightarrow> \<not> child_waits p c \<Longrightarrow>
   consistent p (next_child c) \<and> crank (next_child c) = Suc (crank c)"
  by (cases p; cases c; simp add: consistent_def child_waits_def)

section \<open>Invariant and termination\<close>

text \<open>A move goes from one of these states to the next, or gives up before the fork.\<close>

lemma talk_step_cases:
  assumes "talk_inv s" and "talk_step a s = Some t"
  obtains (parent) p c where "consistent p c" "s = talk_at p c" "a = Parent" "\<not> parent_waits p c"
      "t = talk_at (next_parent p) (if p = P_Fork then C_Close_W1 else c)"
    | (child) p c where "consistent p c" "s = talk_at p c" "a = Child" "\<not> child_waits p c"
      "t = talk_at p (next_child c)"
    | (fails) p where "consistent p C_None" "s = talk_at p C_None" "prank p < 3" "gave_up t"
proof (cases "gave_up s")
  case True
  with assms(2) show thesis by (cases a) (auto simp: gave_up_def split: if_splits)
next
  case False
  define p c where "p = parent s" and "c = child s"
  from False assms(1) have s: "consistent p c" "s = talk_at p c"
    by (simp_all add: talk_inv_def p_def c_def)
  show thesis
  proof (cases a)
    case Parent
    with s assms(2) parent show thesis by (simp add: parent_move split: if_splits)
  next
    case Child
    with s assms(2) child show thesis by (simp add: child_move split: if_splits)
  next
    case (Pipe_Fails e)
    with s assms(2) have "prank p < 3" and t: "t = s\<lparr>terr := terr s @ ''pipe error: '' @ e, parent := P_Exited (- 1)\<rparr>"
      by (auto split: if_splits)
    moreover from this s(1) have "c = C_None" by (simp add: consistent_def)
    moreover have "gave_up t" using t s(2) \<open>prank p < 3\<close> \<open>c = C_None\<close> by (simp add: gave_up_def talk_at_def Let_def)
    ultimately show thesis using s fails by blast
  next
    case (Fork_Fails e)
    with s assms(2) have "prank p < 3" and t: "t = s\<lparr>terr := terr s @ ''fork error: '' @ e, parent := P_Exited 1\<rparr>"
      by (auto split: if_splits)
    moreover from this s(1) have "c = C_None" by (simp add: consistent_def)
    moreover have "gave_up t" using t s(2) \<open>prank p < 3\<close> \<open>c = C_None\<close> by (simp add: gave_up_def talk_at_def Let_def)
    ultimately show thesis using s fails by blast
  qed
qed

interpretation talk_states: inductive_invariant talk_step talk_init talk_inv
proof unfold_locales
  show "talk_inv talk_init" by (simp add: talk_at_init talk_inv_def) (simp add: consistent_def)
next
  fix s a t
  assume "talk_inv s" and "talk_step a s = Some t"
  then show "talk_inv t"
    by (cases rule: talk_step_cases)
      (use consistent_parent consistent_child in \<open>simp_all add: talk_inv_def\<close>)
qed

definition talk_done :: "talk \<Rightarrow> bool" where
  "talk_done s \<longleftrightarrow> (case parent s of P_Exited _ \<Rightarrow> True | P_Sigpipe \<Rightarrow> True | _ \<Rightarrow> False)"

definition talk_measure :: "talk \<Rightarrow> nat" where
  "talk_measure s = (if gave_up s then 0 else 20 - prank (parent s) - crank (child s))"

definition talkers :: "talk_actor set" where
  "talkers = {Parent, Child}"

lemma not_gave_up: "consistent p c \<Longrightarrow> \<not> gave_up (talk_at p c)"
proof
  assume "consistent p c" and "gave_up (talk_at p c)"
  from this(2) have "p = P_Exited (- 1) \<or> p = P_Exited 1" by (auto simp: gave_up_def)
  then have "prank p = 11" and "p \<noteq> P_Exited 0" by auto
  with \<open>consistent p c\<close> show False using consistentD(4) by blast
qed

lemma done_at: "consistent p c \<Longrightarrow> talk_done (talk_at p c) \<longleftrightarrow> p = P_Exited 0"
  using consistentD(4,5) [of p c] by (cases p; simp add: talk_done_def)

lemma waited: "consistent (P_Exited 0) c \<Longrightarrow> c = C_Zombie 0"
  using consistentD(3) [of "P_Exited 0" c] by simp

lemma measure_at: "consistent p c \<Longrightarrow> talk_measure (talk_at p c) = 20 - prank p - crank c"
  by (simp add: talk_measure_def not_gave_up)

lemma not_done_rank: "\<not> talk_done s \<longleftrightarrow> prank (parent s) < 11"
  by (cases "parent s") (simp_all add: talk_done_def)

lemma consistent_ranks: "consistent p c \<Longrightarrow> prank p \<le> 11 \<and> crank c \<le> 9 \<and> (p = P_Fork \<longrightarrow> c = C_None)"
  using consistentD(1) [of p c] consistentD(5,6) [of p c] by simp

lemma talk_measure_down:
  assumes "talk_inv s" and "talk_step a s = Some t"
  shows "talk_measure t < talk_measure s"
  using assms
proof (cases rule: talk_step_cases)
  case (parent p c)
  then show ?thesis
    using consistent_parent [of p c] consistent_ranks [of p c] 
      consistent_ranks [of "next_parent p" "if p = P_Fork then C_Close_W1 else c"]
    by (auto simp add: measure_at split: if_splits)
next
  case (child p c)
  then show ?thesis
    using consistent_child [of p c] consistent_ranks [of p c] consistent_ranks [of p "next_child c"]
    by (auto simp add: measure_at)
next
  case (fails p)
  then show ?thesis by (simp add: measure_at) (simp add: talk_measure_def)
qed

interpretation talk_ends: strict_termination talk_step talk_init talkers talk_measure talk_done
proof unfold_locales
  fix s a t
  assume "reach talk_step talk_init s" and "talk_step a s = Some t"
  then show "talk_measure t < talk_measure s"
    using talk_measure_down talk_states.inv_reach by blast
next
  fix s a
  assume r: "reach talk_step talk_init s" and d: "talk_done s"
  have i: "talk_inv s" using r by (rule talk_states.inv_reach)
  show "talk_step a s = None"
  proof (rule ccontr)
    assume "talk_step a s \<noteq> None"
    then obtain t where "talk_step a s = Some t" by blast
    with i show False
    proof (cases rule: talk_step_cases)
      case (parent p c)
      with d show False by (simp add: done_at parent_waits_def)
    next
      case (child p c)
      with d have "p = P_Exited 0" by (simp add: done_at)
      with child waited [of c] show False by (simp add: child_waits_def)
    next
      case (fails p)
      with d not_done_rank [of s] show False by simp
    qed
  qed
next
  fix s
  assume r: "reach talk_step talk_init s" and live: "\<not> talk_done s"
  have "talk_inv s" using r by (rule talk_states.inv_reach)
  moreover have "\<not> gave_up s" using live by (auto simp: gave_up_def talk_done_def)
  ultimately obtain p c where s: "consistent p c" "s = talk_at p c" by (auto simp: talk_inv_def)
  have "\<not> (parent_waits p c \<and> child_waits p c)"
    using consistentD [OF s(1)] s live by (auto simp: parent_waits_def child_waits_def done_at)
  then have "talk_step Parent s \<noteq> None \<or> talk_step Child s \<noteq> None"
    using s by (auto simp: parent_move child_move)
  then show "\<exists>a\<in>talkers. talk_step a s \<noteq> None" by (auto simp: talkers_def)
qed

section \<open>Properties\<close>

definition dialogue :: string where
  "dialogue = ''[Child] read from Parent: Did you understand?'' @ [nl] @
     ''[Parent] read from Child: OK!'' @ [nl]"

lemma got_text: "cstr got1 = question" "cstr got2 = answer"
proof -
  have "c_string question" "c_string answer" by (simp_all add: question_def answer_def)
  then show "cstr got1 = question" "cstr got2 = answer" by (simp_all add: got1_def got2_def cstr_overwrite)
qed

lemma dialogue_lines: "child_line got1 @ parent_line got2 = dialogue"
  by (simp add: child_line_def parent_line_def got_text dialogue_def) (simp add: question_def answer_def)



end
