(* ===== verification/Signal_Programs.thy ===== *)
theory Signal_Programs
  imports C_Library Interleaving
begin

text \<open>
  \<open>signal_example.c\<close>, a process that catches, ignores, blocks, raises and queues signals, and
  \<open>kill_example.c\<close>, which sends one. A process holds its dispositions, its blocked and its
  pending signals; whoever sends a signal chooses its \<open>siginfo\<close>. A handler runs to its end in
  the move that delivers the signal. The texts of \<open>signal_example.c\<close> are Korean: the model has
  a message for each printf, with its arguments.
\<close>

section \<open>Signals of a process\<close>

definition SIGINT :: int where "SIGINT = 2"
definition SIGKILL :: int where "SIGKILL = 9"
definition SIGUSR1 :: int where "SIGUSR1 = 10"
definition SIGCONT :: int where "SIGCONT = 18"
definition SIGSTOP :: int where "SIGSTOP = 19"
definition SIGTSTP :: int where "SIGTSTP = 20"

datatype disposition = SIG_DFL | SIG_IGN | Basic_Handler | Advanced_Handler

datatype sig_code = SI_USER | SI_QUEUE | SI_TKILL

record siginfo =
  si_signo :: int
  si_pid :: int
  si_code :: sig_code
  sival_int :: int

datatype sig_text =
    Started int \<comment> \<open>line 30\<close>
  | Registered | Blocking | Unblocking | Raising | Queueing | Ending \<comment> \<open>the texts 1 to 6 of \<open>main\<close>\<close>
  | Sigint_Caught \<comment> \<open>\<open>basic_handler\<close>\<close>
  | Number int | Sender int | By_User | Value int \<comment> \<open>\<open>advanced_handler\<close>\<close>

datatype run_state = Running | Stopped | Killed int

datatype sig_pc =
    S_Start | S_Signal_Int | S_Signal_Tstp | S_Print1 | S_Print2 | S_Block | S_Sleep | S_Print3
  | S_Unblock | S_Print4 | S_Raise | S_Sigaction | S_Print5 | S_Sigqueue | S_Print6 | S_Exited int

record sigproc =
  pid :: int
  pgrp :: int
  status :: run_state
  disp :: "int \<Rightarrow> disposition"
  sigmask :: "int set"
  oldset :: "int set"
  pending :: "siginfo list"
  stext :: "sig_text list"
  serr :: string
  spc :: sig_pc

section \<open>Handlers\<close>

definition put :: "sig_text list \<Rightarrow> sigproc \<Rightarrow> sigproc" where
  "put ts s = s\<lparr>stext := stext s @ ts\<rparr>"

definition basic_handler :: "int \<Rightarrow> sigproc \<Rightarrow> sigproc" where
  "basic_handler signo s = (if signo = SIGINT then put [Sigint_Caught] s else s)"

definition advanced_handler :: "int \<Rightarrow> siginfo \<Rightarrow> sigproc \<Rightarrow> sigproc" where
  "advanced_handler signo si s =
     put ([Number signo, Sender (si_pid si)] @ (if si_code si = SI_USER then [By_User] else []) @
       [Value (sival_int si)]) s"

section \<open>Generation and delivery\<close>

datatype signal_action = Terminate | Stop | Continue | Discard

definition default_action :: "int \<Rightarrow> signal_action" where
  "default_action n =
     (if n \<in> {17, 23, 28} then Discard else if n = SIGCONT then Continue
      else if n \<in> {SIGSTOP, SIGTSTP, 21, 22} then Stop else Terminate)"

definition deliver :: "siginfo \<Rightarrow> sigproc \<Rightarrow> sigproc" where
  "deliver i s = (case disp s (si_signo i) of
     SIG_DFL \<Rightarrow> (case default_action (si_signo i) of
         Terminate \<Rightarrow> s\<lparr>status := Killed (si_signo i)\<rparr>
       | Stop \<Rightarrow> s\<lparr>status := Stopped\<rparr>
       | Continue \<Rightarrow> s
       | Discard \<Rightarrow> s)
   | SIG_IGN \<Rightarrow> s
   | Basic_Handler \<Rightarrow> basic_handler (si_signo i) s
   | Advanced_Handler \<Rightarrow> advanced_handler (si_signo i) i s)"

text \<open>\<open>SIGKILL\<close> and \<open>SIGSTOP\<close> cannot be blocked.\<close>

definition blocked :: "sigproc \<Rightarrow> int \<Rightarrow> bool" where
  "blocked s n \<longleftrightarrow> n \<in> sigmask s \<and> n \<noteq> SIGKILL \<and> n \<noteq> SIGSTOP"

text \<open>A standard signal (below 32) is pending at most once, the real-time ones are queued.\<close>

definition enqueue_signal :: "siginfo \<Rightarrow> sigproc \<Rightarrow> sigproc" where
  "enqueue_signal i s =
     (if si_signo i < 32 \<and> (\<exists>j\<in>set (pending s). si_signo j = si_signo i) then s
      else s\<lparr>pending := pending s @ [i]\<rparr>)"

text \<open>Deliver what can be delivered, lowest number first; a stop or death ends the round.\<close>

fun deliver_all :: "siginfo list \<Rightarrow> sigproc \<Rightarrow> sigproc" where
  "deliver_all [] s = s"
| "deliver_all (i # is) s =
     (if status s = Running \<and> \<not> blocked s (si_signo i) then deliver_all is (deliver i s)
      else deliver_all is (s\<lparr>pending := pending s @ [i]\<rparr>))"

definition flush_pending :: "sigproc \<Rightarrow> sigproc" where
  "flush_pending s = deliver_all (sort_key si_signo (pending s)) (s\<lparr>pending := []\<rparr>)"

definition alive :: "sigproc \<Rightarrow> bool" where
  "alive s \<longleftrightarrow> (\<forall>n. status s \<noteq> Killed n) \<and> (\<forall>c. spc s \<noteq> S_Exited c)"

text \<open>
  A signal arrives. \<open>SIGKILL\<close> acts at once, \<open>SIGCONT\<close> wakes a stopped process and cancels
  pending stop signals, a stop signal cancels a pending \<open>SIGCONT\<close>; a blocked signal, or any
  signal of a stopped process, waits.
\<close>

definition is_stop :: "int \<Rightarrow> bool" where
  "is_stop n \<longleftrightarrow> default_action n = Stop"

definition drop_pending :: "(int \<Rightarrow> bool) \<Rightarrow> sigproc \<Rightarrow> sigproc" where
  "drop_pending P s = s\<lparr>pending := filter (\<lambda>i. \<not> P (si_signo i)) (pending s)\<rparr>"

definition arrive :: "siginfo \<Rightarrow> sigproc \<Rightarrow> sigproc" where
  "arrive i s =
     (let n = si_signo i in
      if n = SIGKILL then s\<lparr>status := Killed n\<rparr>
      else if n = SIGCONT then flush_pending (enqueue_signal i (drop_pending is_stop (s\<lparr>status := Running\<rparr>)))
      else let s = (if is_stop n then drop_pending (\<lambda>m. m = SIGCONT) s else s) in
        if status s = Running \<and> \<not> blocked s n then deliver i s else enqueue_signal i s)"

section \<open>The program\<close>

definition own_info :: "int \<Rightarrow> sig_code \<Rightarrow> int \<Rightarrow> sigproc \<Rightarrow> siginfo" where
  "own_info n code v s = \<lparr>si_signo = n, si_pid = pid s, si_code = code, sival_int = v\<rparr>"

definition goto_s :: "sig_pc \<Rightarrow> sigproc \<Rightarrow> sigproc" where
  "goto_s pc s = s\<lparr>spc := pc\<rparr>"

fun signal_main :: "sig_pc \<Rightarrow> sigproc \<Rightarrow> sigproc option" where
  "signal_main S_Start s = Some (goto_s S_Signal_Int (put [Started (pid s)] s))"
| "signal_main S_Signal_Int s = Some (goto_s S_Signal_Tstp (s\<lparr>disp := (disp s)(SIGINT := Basic_Handler)\<rparr>))"
| "signal_main S_Signal_Tstp s = Some (goto_s S_Print1 (s\<lparr>disp := (disp s)(SIGTSTP := SIG_IGN)\<rparr>))"
| "signal_main S_Print1 s = Some (goto_s S_Print2 (put [Registered] s))"
| "signal_main S_Print2 s = Some (goto_s S_Block (put [Blocking] s))"
| "signal_main S_Block s =
     Some (goto_s S_Sleep (s\<lparr>oldset := sigmask s, sigmask := sigmask s \<union> {SIGINT}\<rparr>))"
| "signal_main S_Sleep s = Some (goto_s S_Print3 s)"
| "signal_main S_Print3 s = Some (goto_s S_Unblock (put [Unblocking] s))"
| "signal_main S_Unblock s = Some (flush_pending (goto_s S_Print4 (s\<lparr>sigmask := oldset s\<rparr>)))"
| "signal_main S_Print4 s = Some (goto_s S_Raise (put [Raising] s))"
| "signal_main S_Raise s = Some (arrive (own_info SIGINT SI_TKILL 0 s) (goto_s S_Sigaction s))"
| "signal_main S_Sigaction s = Some (goto_s S_Print5 (s\<lparr>disp := (disp s)(SIGUSR1 := Advanced_Handler)\<rparr>))"
| "signal_main S_Print5 s = Some (goto_s S_Sigqueue (put [Queueing] s))"
| "signal_main S_Sigqueue s = Some (arrive (own_info SIGUSR1 SI_QUEUE 2024 s) (goto_s S_Print6 s))"
| "signal_main S_Print6 s = Some (goto_s (S_Exited 0) (put [Ending] s))"
| "signal_main (S_Exited c) s = None"

datatype sig_actor = Sig_Main | Arrives siginfo | Registration_Fails string | Sigaction_Fails string

fun signal_step :: "sig_actor \<Rightarrow> sigproc \<Rightarrow> sigproc option" where
  "signal_step Sig_Main s = (if status s = Running then signal_main (spc s) s else None)"
| "signal_step (Arrives i) s = (if alive s then Some (arrive i s) else None)"
| "signal_step (Registration_Fails e) s =
     (if status s = Running \<and> spc s = S_Signal_Int
      then Some (goto_s (S_Exited (- 1)) (s\<lparr>serr := serr s @ perror_text ''signal registration fail'' e\<rparr>)) else None)"
| "signal_step (Sigaction_Fails e) s =
     (if status s = Running \<and> spc s = S_Sigaction
      then Some (goto_s (S_Exited (- 1)) (s\<lparr>serr := serr s @ perror_text ''sigaction fail'' e\<rparr>)) else None)"

definition signal_init :: "int \<Rightarrow> int \<Rightarrow> sigproc" where
  "signal_init p g = \<lparr>pid = p, pgrp = g, status = Running, disp = (\<lambda>_. SIG_DFL), sigmask = {}, oldset = {},
     pending = [], stext = [], serr = [], spc = S_Start\<rparr>"

section \<open>\<open>kill_example.c\<close>\<close>

text \<open>
  The processes of the system; \<open>may\<close> says which of them the caller has the permission to
  signal. A positive argument names one process, 0 the caller's group, -1 every other process,
  another negative one a group.
\<close>

definition kill_targets :: "int \<Rightarrow> int \<Rightarrow> int \<Rightarrow> int \<Rightarrow> int \<Rightarrow> bool" where
  "kill_targets self mygrp p q g =
     (if 0 < p then q = p else if p = 0 then g = mygrp else if p = -1 then q \<noteq> self \<and> q \<noteq> 1 else g = - p)"

definition kill :: "int \<Rightarrow> int \<Rightarrow> (sigproc \<Rightarrow> bool) \<Rightarrow> int \<Rightarrow> int \<Rightarrow> sigproc list \<Rightarrow> string + sigproc list \<times> bool" where
  "kill self mygrp may p n ps =
     (let hit = (\<lambda>s. kill_targets self mygrp p (pid s) (pgrp s)); me = kill_targets self mygrp p self mygrp in
      if n < 0 \<or> 64 < n then Inl ''Invalid argument''
      else if \<not> me \<and> \<not> (\<exists>s\<in>set ps. hit s) then Inl ''No such process''
      else if \<not> me \<and> \<not> (\<exists>s\<in>set ps. hit s \<and> may s) then Inl ''Operation not permitted''
      else Inr (map (\<lambda>s. if hit s \<and> may s \<and> n \<noteq> 0 \<and> alive s
        then arrive \<lparr>si_signo = n, si_pid = self, si_code = SI_USER, sival_int = 0\<rparr> s else s) ps, me))"

text \<open>The result: how the program ends, stdout, stderr, the other processes.\<close>

datatype ending = Returned_With int | Died_Of int

definition kill_main :: "int \<Rightarrow> int \<Rightarrow> (sigproc \<Rightarrow> bool) \<Rightarrow> string list \<Rightarrow> sigproc list \<Rightarrow>
    ending \<times> string \<times> string \<times> sigproc list" where
  "kill_main self mygrp may argv ps =
     (if length argv < 3 then (Returned_With (- 1), ''Usage: '' @ argv ! 0 @ '' <signo> <pid>'' @ [nl], [], ps)
      else let n = atoi (argv ! 1) in
        case kill self mygrp may (atoi (argv ! 2)) n ps of
          Inl e \<Rightarrow> (Returned_With (- 1), [], perror_text ''kill error: '' e, ps)
        | Inr (ps', me) \<Rightarrow>
            (if me \<and> n \<noteq> 0 \<and> default_action n = Terminate then Died_Of n else Returned_With 0, [], [], ps'))"

section \<open>Signals sent while SIGINT is blocked\<close>

lemma signal_numbers: "SIGINT = 2" "SIGKILL = 9" "SIGUSR1 = 10" "SIGCONT = 18" "SIGSTOP = 19" "SIGTSTP = 20"
  by (simp_all add: SIGINT_def SIGKILL_def SIGUSR1_def SIGCONT_def SIGSTOP_def SIGTSTP_def)

lemma sigint_not_sigtstp [simp]: "SIGINT \<noteq> SIGTSTP" "SIGTSTP \<noteq> SIGINT"
  by (simp_all add: SIGINT_def SIGTSTP_def)

lemma sigproc_frames [simp]:
  "status (put ts s) = status s" "disp (put ts s) = disp s" "sigmask (put ts s) = sigmask s"
  "pending (put ts s) = pending s" "spc (put ts s) = spc s" "pid (put ts s) = pid s" "stext (put ts s) = stext s @ ts"
  "status (goto_s pc s) = status s" "disp (goto_s pc s) = disp s" "sigmask (goto_s pc s) = sigmask s"
  "pending (goto_s pc s) = pending s" "spc (goto_s pc s) = pc" "pid (goto_s pc s) = pid s" "stext (goto_s pc s) = stext s"
  "oldset (put ts s) = oldset s" "oldset (goto_s pc s) = oldset s"
  by (simp_all add: put_def goto_s_def)

text \<open>\<open>main_steps\<close> lets \<open>main\<close> make the given number of moves.\<close>

primrec main_steps :: "nat \<Rightarrow> sigproc \<Rightarrow> sigproc" where
  "main_steps 0 s = s"
| "main_steps (Suc n) s = main_steps n (case signal_step Sig_Main s of None \<Rightarrow> s | Some t \<Rightarrow> t)"

lemma main_steps_run: "main_steps n s = run_schedule signal_step (replicate n Sig_Main) s"
  by (induction n arbitrary: s) simp_all

text \<open>The process in its sleep.\<close>

definition asleep :: "int \<Rightarrow> int \<Rightarrow> siginfo list \<Rightarrow> sigproc" where
  "asleep p g ps = \<lparr>pid = p, pgrp = g, status = Running,
     disp = (\<lambda>_. SIG_DFL)(SIGINT := Basic_Handler, SIGTSTP := SIG_IGN), sigmask = {SIGINT}, oldset = {},
     pending = ps, stext = [Started p, Registered, Blocking], serr = [], spc = S_Sleep\<rparr>"

lemma main_falls_asleep: "main_steps 6 (signal_init p g) = asleep p g []"
  by (simp add: numeral_eq_Suc signal_init_def asleep_def put_def goto_s_def)

lemma arrive_asleep:
  assumes "si_signo i \<in> {SIGINT, SIGTSTP}" and "\<forall>j\<in>set ps. si_signo j = SIGINT"
  shows "arrive i (asleep p g ps) =
    asleep p g (if si_signo i = SIGINT \<and> ps = [] then [i] else ps)"
proof -
  have "filter (\<lambda>j. si_signo j \<noteq> SIGCONT) ps = ps"
    using assms(2) by (simp add: signal_numbers)
  then have keep: "drop_pending (\<lambda>m. m = SIGCONT) (asleep p g ps) = asleep p g ps"
    by (simp add: drop_pending_def asleep_def)
  show ?thesis
  proof (cases "si_signo i = SIGINT")
    case True
    then have a: "arrive i (asleep p g ps) = enqueue_signal i (asleep p g ps)"
      by (simp add: arrive_def Let_def is_stop_def default_action_def signal_numbers blocked_def asleep_def)
    have "pending (asleep p g ps) = ps" and "si_signo i = 2" using True by (simp_all add: asleep_def signal_numbers)
    then show ?thesis
      using assms(2) True unfolding a enqueue_signal_def by (cases ps) (simp_all add: signal_numbers asleep_def)
  next
    case False
    with assms(1) have n: "si_signo i = SIGTSTP" by simp
    then have "arrive i (asleep p g ps) = deliver i (asleep p g ps)"
      using keep by (simp add: arrive_def Let_def is_stop_def default_action_def)
        (simp add: signal_numbers blocked_def asleep_def)
    also have "\<dots> = asleep p g ps" using n by (simp add: deliver_def) (simp add: asleep_def)
    finally show ?thesis using False by simp
  qed
qed

lemma sends_asleep:
  assumes "\<forall>i\<in>set is. si_signo i \<in> {SIGINT, SIGTSTP}" and "\<forall>j\<in>set ps. si_signo j = SIGINT"
  shows "run_schedule signal_step (map Arrives is) (asleep p g ps) =
    asleep p g (if ps = [] then take 1 (filter (\<lambda>i. si_signo i = SIGINT) is) else ps)"
  using assms
proof (induction "is" arbitrary: ps)
  case (Cons i "is")
  define qs where "qs = (if si_signo i = SIGINT \<and> ps = [] then [i] else ps)"
  have "alive (asleep p g ps)" by (simp add: alive_def asleep_def)
  then have "run_schedule signal_step (map Arrives (i # is)) (asleep p g ps) =
      run_schedule signal_step (map Arrives is) (asleep p g qs)"
    using arrive_asleep [of i ps p g] Cons.prems by (simp add: qs_def)
  moreover have "\<forall>j\<in>set qs. si_signo j = SIGINT" using Cons.prems(2) by (simp add: qs_def)
  moreover have "(if qs = [] then take 1 (filter (\<lambda>i. si_signo i = SIGINT) is) else qs) =
      (if ps = [] then take 1 (filter (\<lambda>i. si_signo i = SIGINT) (i # is)) else ps)"
    by (simp add: qs_def)
  ultimately show ?case using Cons.IH [of qs] Cons.prems(1) by simp
qed (simp add: asleep_def)

definition caught :: "siginfo list \<Rightarrow> sig_text list" where
  "caught ps = (if ps = [] then [] else [Sigint_Caught])"

definition full_text :: "int \<Rightarrow> sig_text list \<Rightarrow> sig_text list" where
  "full_text p blocked_ones = [Started p, Registered, Blocking, Unblocking] @ blocked_ones @
     [Raising, Sigint_Caught, Queueing, Number 10, Sender p, Value 2024, Ending]"

text \<open>After the unblocking; the handler has run if something was pending.\<close>

definition awake :: "int \<Rightarrow> int \<Rightarrow> sig_text list \<Rightarrow> sigproc" where
  "awake p g ts = (asleep p g [])\<lparr>sigmask := {}, stext := [Started p, Registered, Blocking, Unblocking] @ ts,
     spc := S_Print4\<rparr>"

lemma main_unblocks:
  assumes "ps = [] \<or> (\<exists>i. ps = [i] \<and> si_signo i = SIGINT)"
  shows "main_steps 3 (asleep p g ps) = awake p g (caught ps)"
proof -
  have "flush_pending (goto_s S_Print4 ((asleep p g ps)\<lparr>sigmask := {}, stext := t, spc := c\<rparr>)) =
      (asleep p g [])\<lparr>sigmask := {}, stext := t @ caught ps, spc := S_Print4\<rparr>" for t c
    using assms
    by (elim disjE exE conjE) (simp_all add: flush_pending_def asleep_def goto_s_def caught_def blocked_def
        deliver_def basic_handler_def put_def)
  then show ?thesis
    by (simp add: numeral_eq_Suc awake_def) (simp add: asleep_def put_def goto_s_def)
qed

lemma main_ends:
  "spc (main_steps 6 (awake p g ts)) = S_Exited 0 \<and> stext (main_steps 6 (awake p g ts)) = full_text p ts"
  by (simp add: numeral_eq_Suc awake_def asleep_def put_def goto_s_def blocked_def deliver_def
      basic_handler_def advanced_handler_def arrive_def own_info_def Let_def is_stop_def default_action_def
      signal_numbers full_text_def)

lemma main_wakes:
  assumes "ps = [] \<or> (\<exists>i. ps = [i] \<and> si_signo i = SIGINT)"
  shows "spc (main_steps 9 (asleep p g ps)) = S_Exited 0 \<and>
    stext (main_steps 9 (asleep p g ps)) = full_text p (caught ps)"
proof -
  have "main_steps 9 s = main_steps 6 (main_steps 3 s)" for s
    by (simp add: main_steps_run replicate_add [of 3 6, simplified] run_schedule_append)
  then show ?thesis using main_unblocks [OF assms] main_ends by simp
qed

section \<open>Dispositions over any run\<close>

definition registered :: "sigproc \<Rightarrow> bool" where
  "registered s \<longleftrightarrow> (spc s \<notin> {S_Start, S_Signal_Int} \<longrightarrow> disp s SIGINT = Basic_Handler \<or> spc s = S_Exited (- 1)) \<and>
     (spc s \<notin> {S_Start, S_Signal_Int, S_Signal_Tstp} \<longrightarrow> disp s SIGTSTP = SIG_IGN \<or> spc s = S_Exited (- 1))"

lemma deliver_frame [simp]: "disp (deliver i s) = disp s" "spc (deliver i s) = spc s"
  by (simp_all add: deliver_def basic_handler_def advanced_handler_def
      split: disposition.splits signal_action.splits)

lemma deliver_all_frame [simp]: "disp (deliver_all is s) = disp s" "spc (deliver_all is s) = spc s"
  by (induction "is" s rule: deliver_all.induct) simp_all

lemma queue_frame [simp]:
  "disp (enqueue_signal i s) = disp s" "spc (enqueue_signal i s) = spc s" "status (enqueue_signal i s) = status s"
  "disp (drop_pending P s) = disp s" "spc (drop_pending P s) = spc s" "status (drop_pending P s) = status s"
  "disp (flush_pending s) = disp s" "spc (flush_pending s) = spc s"
  by (simp_all add: enqueue_signal_def drop_pending_def flush_pending_def)

lemma arrive_frame [simp]: "disp (arrive i s) = disp s" "spc (arrive i s) = spc s"
  by (simp_all add: arrive_def Let_def)

lemma registered_main: "registered s \<Longrightarrow> signal_main (spc s) s = Some t \<Longrightarrow> registered t"
  by (cases "spc s") (auto simp: registered_def signal_numbers)

interpretation signal_run: inductive_invariant signal_step "signal_init p g" registered
proof unfold_locales
  show "registered (signal_init p g)" by (simp add: registered_def signal_init_def)
next
  fix s a t
  assume "registered s" and "signal_step a s = Some t"
  then show "registered t"
  proof (cases a)
    case Sig_Main
    with \<open>registered s\<close> \<open>signal_step a s = Some t\<close> show ?thesis
      by (simp add: registered_main split: if_splits)
  qed (auto simp: registered_def split: if_splits)
qed

section \<open>Properties\<close>

text \<open>
  C13: any number of SIGINT and SIGTSTP sent, in any order and by anyone, while \<open>main\<close> sleeps
  with SIGINT blocked come down to one run of the handler after the unblocking, or none if no
  SIGINT was among them; SIGTSTP leaves no trace. The rest of the output is fixed, with the
  handler's line for the raised signal and the number, sender and value of the queued one,
  without the line for signals sent by \<open>kill\<close>; the exit status is 0.
\<close>
theorem signal_coalesced:
  assumes "\<forall>i\<in>set is. si_signo i \<in> {SIGINT, SIGTSTP}"
    and "s = run_schedule signal_step (replicate 6 Sig_Main @ map Arrives is @ replicate 9 Sig_Main) (signal_init p g)"
  shows "spc s = S_Exited 0 \<and>
    stext s = full_text p (if \<exists>i\<in>set is. si_signo i = SIGINT then [Sigint_Caught] else [])"
proof -
  define qs where "qs = take 1 (filter (\<lambda>i. si_signo i = SIGINT) is)"
  have s: "s = main_steps 9 (asleep p g qs)"
    using main_falls_asleep [of p g] sends_asleep [OF assms(1), of "[]" p g]
    by (simp add: assms(2) main_steps_run run_schedule_append qs_def)
  have "qs = [] \<or> (\<exists>i. qs = [i] \<and> si_signo i = SIGINT)"
  proof (cases "filter (\<lambda>i. si_signo i = SIGINT) is")
    case (Cons j js)
    then have "j \<in> set (filter (\<lambda>i. si_signo i = SIGINT) is)" by simp
    then have "si_signo j = SIGINT" unfolding set_filter by blast
    then show ?thesis by (simp add: qs_def Cons)
  qed (simp add: qs_def)
  moreover have "caught qs = (if \<exists>i\<in>set is. si_signo i = SIGINT then [Sigint_Caught] else [])"
  proof -
    have "qs = [] \<longleftrightarrow> \<not> (\<exists>i\<in>set is. si_signo i = SIGINT)"
      unfolding qs_def take_eq_Nil filter_empty_conv using one_neq_zero by blast
    then show ?thesis by (simp add: caught_def)
  qed
  ultimately show ?thesis using main_wakes [of qs p g] by (simp only: s)
qed

definition example_sends :: "siginfo list" where
  "example_sends = map (\<lambda>n. \<lparr>si_signo = n, si_pid = 77, si_code = SI_USER, sival_int = 0\<rparr>) [2, 20, 2, 2]"

theorem signal_coalesced_witness:
  "stext (run_schedule signal_step (replicate 6 Sig_Main @ map Arrives example_sends @ replicate 9 Sig_Main)
     (signal_init 100 100)) = full_text 100 [Sigint_Caught]"
proof -
  have h: "\<forall>i\<in>set example_sends. si_signo i \<in> {SIGINT, SIGTSTP}"
    and e: "\<exists>i\<in>set example_sends. si_signo i = SIGINT"
    by (simp_all add: example_sends_def signal_numbers)
  from conjunct2 [OF signal_coalesced [OF h refl, of 100 100]] e show ?thesis by (simp only: if_True)
qed

text \<open>
  In every run, with any other signals at any time, once the dispositions are set a SIGINT
  or a SIGTSTP that arrives never kills, stops or diverts the process: its status and the point
  \<open>main\<close> is at stay what they were.
\<close>
theorem signal_survives:
  assumes "reach signal_step (signal_init p g) s" and "spc s \<notin> {S_Start, S_Signal_Int, S_Signal_Tstp}"
    and "si_signo i \<in> {SIGINT, SIGTSTP}" and "signal_step (Arrives i) s = Some t"
  shows "status t = status s \<and> spc t = spc s"
proof -
  have "registered s" using signal_run.inv_reach [OF assms(1)] .
  moreover have "t = arrive i s" and "spc s \<noteq> S_Exited (- 1)"
    using assms(4) by (auto simp: alive_def split: if_splits)
  ultimately have d: "disp s (si_signo i) \<in> {Basic_Handler, SIG_IGN}" and t: "t = arrive i s"
    using assms(2,3) by (auto simp: registered_def)
  have "status (deliver i u) = status u" if "disp u = disp s" for u
    using d that by (auto simp: deliver_def basic_handler_def)
  moreover have "si_signo i \<noteq> SIGKILL" "si_signo i \<noteq> SIGCONT" using assms(3) by (auto simp: signal_numbers)
  ultimately show ?thesis by (simp add: t arrive_def Let_def)
qed

theorem signal_survives_witness:
  "status (the (signal_step (Arrives (hd example_sends)) (asleep 100 100 []))) = Running"
proof -
  have r: "reach signal_step (signal_init 100 100) (asleep 100 100 [])"
    unfolding main_falls_asleep [symmetric] main_steps_run by (rule reach_run_schedule [OF reach_init])
  have "signal_step (Arrives (hd example_sends)) (asleep 100 100 []) =
      Some (arrive (hd example_sends) (asleep 100 100 []))"
    by (simp add: alive_def asleep_def)
  with signal_survives [OF r _ _ this] show ?thesis
    by (simp add: asleep_def example_sends_def signal_numbers)
qed

text \<open>One call of \<open>kill_example\<close> that names another process by its number.\<close>

lemma kill_one:
  assumes "0 < q" and "int32 q" and "q \<noteq> self" and "0 < n" and "n \<le> 64"
    and "s \<in> set ps" and "pid s = q" and "may s"
  shows "kill_main self mygrp may [prog, dec n, dec q] ps = (Returned_With 0, [], [],
    map (\<lambda>s. if pid s = q \<and> may s \<and> alive s
      then arrive \<lparr>si_signo = n, si_pid = self, si_code = SI_USER, sival_int = 0\<rparr> s else s) ps)"
proof -
  have "atoi (dec n) = n" "atoi (dec q) = q" using assms(2,4,5) by (simp_all add: atoi_dec int32_def)
  moreover have "\<exists>s\<in>set ps. pid s = q" "\<exists>s\<in>set ps. pid s = q \<and> may s" using assms(6-8) by auto
  ultimately show ?thesis using assms(1-5) by (simp add: kill_main_def Let_def kill_def kill_targets_def numeral_2_eq_2)
qed

definition kill_run :: "int \<Rightarrow> int \<Rightarrow> string list \<Rightarrow> sigproc list \<Rightarrow> sigproc list" where
  "kill_run self mygrp argv ps = snd (snd (snd (kill_main self mygrp (\<lambda>_. True) argv ps)))"

lemma kill_run_asleep:
  assumes "0 < q" and "int32 q" and "q \<noteq> self"
  shows "\<exists>qs. ((kill_run self mygrp [prog, dec 2, dec q]) ^^ k) [asleep q g []] = [asleep q g qs] \<and>
    (qs = [] \<or> (\<exists>i. qs = [i] \<and> si_signo i = SIGINT)) \<and> (qs = [] \<longleftrightarrow> k = 0)"
proof (induction k)
  case (Suc k)
  then obtain qs where qs: "((kill_run self mygrp [prog, dec 2, dec q]) ^^ k) [asleep q g []] = [asleep q g qs]"
    "qs = [] \<or> (\<exists>i. qs = [i] \<and> si_signo i = SIGINT)" by blast
  define i where "i = \<lparr>si_signo = 2, si_pid = self, si_code = SI_USER, sival_int = 0\<rparr>"
  have i: "si_signo i = SIGINT" by (simp add: i_def signal_numbers)
  have p: "pid (asleep q g qs) = q" "alive (asleep q g qs)" by (simp_all add: asleep_def alive_def)
  have "kill_run self mygrp [prog, dec 2, dec q] [asleep q g qs] = [arrive i (asleep q g qs)]"
    unfolding kill_run_def using kill_one [of q self 2 "asleep q g qs" "[asleep q g qs]" "\<lambda>_. True"] assms p
    by (simp add: i_def)
  also have "\<dots> = [asleep q g (if qs = [] then [i] else qs)]"
    using arrive_asleep [of i qs q g] i qs(2) by auto
  finally show ?case using qs i by auto
qed auto

text \<open>
  C34: the two programs together: \<open>kill_example 2 <pid>\<close>, run \<open>k\<close> times by another process while
  \<open>signal_example\<close> sleeps, makes the handler run once more if \<open>k\<close> is positive, and the run of
  \<open>signal_example\<close> is otherwise the same and ends with status 0.
\<close>
theorem kill_example_reaches:
  assumes "0 < q" and "int32 q" and "q \<noteq> self"
    and "((kill_run self mygrp [prog, dec 2, dec q]) ^^ k) [main_steps 6 (signal_init q g)] = [s]"
  shows "spc (main_steps 9 s) = S_Exited 0 \<and>
    stext (main_steps 9 s) = full_text q (if k = 0 then [] else [Sigint_Caught])"
proof -
  obtain qs where "s = asleep q g qs" "qs = [] \<or> (\<exists>i. qs = [i] \<and> si_signo i = SIGINT)" "qs = [] \<longleftrightarrow> k = 0"
    using kill_run_asleep [OF assms(1-3), of k mygrp prog g] assms(4) by (auto simp: main_falls_asleep)
  with main_wakes [of qs q g] show ?thesis by (simp add: caught_def)
qed

theorem kill_example_reaches_witness:
  "\<exists>s. ((kill_run 50 1 [''kill_example'', dec 2, dec 2381]) ^^ 3) [main_steps 6 (signal_init 2381 1)] = [s] \<and>
     stext (main_steps 9 s) = full_text 2381 [Sigint_Caught]"
proof -
  have b: "0 < (2381::int)" "int32 2381" "(2381::int) \<noteq> 50" by (simp_all add: int32_def)
  obtain qs where r: "((kill_run 50 1 [''kill_example'', dec 2, dec 2381]) ^^ 3) [main_steps 6 (signal_init 2381 1)]
      = [asleep 2381 1 qs]"
    using kill_run_asleep [OF b, of 3 1 "''kill_example''" 1] unfolding main_falls_asleep by blast
  from kill_example_reaches [OF b r] r show ?thesis by simp
qed

text \<open>
  A process number that is not one, such as a name, is read as 0: the signal goes to the whole
  group of the caller, itself included.
\<close>

lemma kill_not_a_number:
  "fst (kill_main self mygrp may [prog, dec 2, ''abc''] ps) = Died_Of 2"
proof -
  have "atoi ''abc'' = 0" "atoi (dec 2) = 2" by code_simp+
  then show ?thesis
    by (simp add: kill_main_def Let_def kill_def kill_targets_def numeral_2_eq_2 default_action_def signal_numbers)
qed

end
