(* ===== verification/Socket_Hello.thy ===== *)
theory Socket_Hello
  imports C_Library Interleaving
begin

text \<open>
  \<open>socket/tcp_server.c\<close> and \<open>socket/tcp_client.c\<close>: the server accepts one connection on port 9000,
  writes a greeting and exits; the client connects to the loopback address, reads once and
  prints. The network hands the bytes over in pieces of any size (\<open>Net k\<close>). Each call of the
  two programs may fail by a move of its own; the server checks none of its calls.
\<close>

section \<open>Addresses\<close>

record sockaddr =
  sin_family :: nat
  sin_addr :: "32 word"
  sin_port :: "16 word"

text \<open>
  The machine is little-endian: \<open>htons\<close> exchanges the two bytes, \<open>htonl\<close> reverses the four.
  \<open>inet_addr\<close> of four decimal parts puts the first one in the lowest byte; parts above 255 and
  other forms give \<open>INADDR_NONE\<close>.
\<close>

definition htons :: "16 word \<Rightarrow> 16 word" where
  "htons w = word_of_nat (256 * (unat w mod 256) + unat w div 256)"

definition htonl :: "32 word \<Rightarrow> 32 word" where
  "htonl w = (let n = unat w in word_of_nat (16777216 * (n mod 256) + 65536 * (n div 256 mod 256) +
     256 * (n div 65536 mod 256) + n div 16777216))"

fun split_dots :: "string \<Rightarrow> string list" where
  "split_dots [] = [[]]"
| "split_dots (c # cs) = (case split_dots cs of
     [] \<Rightarrow> [[c]]
   | p # ps \<Rightarrow> if c = CHR ''.'' then [] # p # ps else (c # p) # ps)"

definition dotted_part :: "string \<Rightarrow> bool" where
  "dotted_part p \<longleftrightarrow> p \<noteq> [] \<and> list_all is_digit p \<and> digits_val p \<le> 255"

definition inet_addr :: "string \<Rightarrow> 32 word" where
  "inet_addr t = (case split_dots t of
     [a, b, c, d] \<Rightarrow> if list_all dotted_part [a, b, c, d]
       then word_of_nat (digits_val a + 256 * digits_val b + 65536 * digits_val c + 16777216 * digits_val d)
       else - 1
   | _ \<Rightarrow> - 1)"

definition INADDR_ANY :: "32 word" where "INADDR_ANY = 0"

definition server_addr :: sockaddr where
  "server_addr = \<lparr>sin_family = 2, sin_addr = htonl INADDR_ANY, sin_port = htons 9000\<rparr>"

definition client_target :: sockaddr where
  "client_target = \<lparr>sin_family = 2, sin_addr = inet_addr ''127.0.0.1'', sin_port = htons 9000\<rparr>"

text \<open>A socket bound to every address, or to the one asked for, answers on its port.\<close>

definition answers :: "sockaddr \<Rightarrow> sockaddr \<Rightarrow> bool" where
  "answers a b \<longleftrightarrow> sin_family a = sin_family b \<and> sin_port a = sin_port b \<and>
     (sin_addr a = htonl INADDR_ANY \<or> sin_addr a = sin_addr b)"

section \<open>State\<close>

datatype server_pc =
  V_Socket | V_Bind | V_Listen | V_Accept | V_Write | V_Close_Clnt | V_Close_Serv | V_Exited

datatype client_pc = K_Socket | K_Connect | K_Read | K_Print | K_Close | K_Exited int

record net =
  vpc :: server_pc
  kpc :: client_pc
  serv_sock :: bool \<comment> \<open>the descriptors are valid, not -1\<close>
  sock :: bool
  bound :: "sockaddr option"
  listening :: bool
  backlog :: bool \<comment> \<open>a connection waits to be accepted\<close>
  clnt_sock :: bool
  inflight :: bytes
  arrived :: bytes
  fin :: bool \<comment> \<open>the server has closed the connection\<close>
  rst :: bool
  buffer :: bytes
  kout :: string

datatype net_actor =
    Server | Client | Net nat
  | Server_Call_Fails | Client_Call_Fails

definition hello_message :: bytes where
  "hello_message = ''Hello, Socket Programming!'' @ [NUL]"

definition client_line :: "bytes \<Rightarrow> string" where
  "client_line buf = ''Message from server: '' @ cstr buf @ [nl]"

definition refused_line :: string where
  "refused_line = ''Connection failed'' @ [nl]"

text \<open>The client's buffer is not initialised: its 1024 bytes are a parameter.\<close>

definition net_init :: "bytes \<Rightarrow> net" where
  "net_init junk = \<lparr>vpc = V_Socket, kpc = K_Socket, serv_sock = False, sock = False, bound = None,
     listening = False, backlog = False, clnt_sock = False, inflight = [], arrived = [], fin = False,
     rst = False, buffer = junk, kout = []\<rparr>"

section \<open>Steps\<close>

text \<open>
  On a descriptor that is -1 every call fails and changes nothing. A socket that was not bound
  listens on a port the system picks, where the client does not look for it. Closing the
  listening socket resets a connection nobody accepted.
\<close>

fun tcp_server :: "server_pc \<Rightarrow> net \<Rightarrow> net option" where
  "tcp_server V_Socket s = Some (s\<lparr>serv_sock := True, vpc := V_Bind\<rparr>)"
| "tcp_server V_Bind s =
     Some (s\<lparr>bound := (if serv_sock s then Some server_addr else bound s), vpc := V_Listen\<rparr>)"
| "tcp_server V_Listen s = Some (s\<lparr>listening := serv_sock s, vpc := V_Accept\<rparr>)"
| "tcp_server V_Accept s =
     (if \<not> serv_sock s \<or> \<not> listening s then Some (s\<lparr>vpc := V_Write\<rparr>)
      else if backlog s then Some (s\<lparr>clnt_sock := True, backlog := False, vpc := V_Write\<rparr>)
      else None)"
| "tcp_server V_Write s =
     Some (s\<lparr>inflight := inflight s @ (if clnt_sock s then hello_message else []), vpc := V_Close_Clnt\<rparr>)"
| "tcp_server V_Close_Clnt s = Some (s\<lparr>fin := clnt_sock s, vpc := V_Close_Serv\<rparr>)"
| "tcp_server V_Close_Serv s = Some (s\<lparr>rst := backlog s, listening := False, vpc := V_Exited\<rparr>)"
| "tcp_server V_Exited s = None"

definition next_server :: "server_pc \<Rightarrow> server_pc" where
  "next_server p = (case p of V_Socket \<Rightarrow> V_Bind | V_Bind \<Rightarrow> V_Listen | V_Listen \<Rightarrow> V_Accept
     | V_Accept \<Rightarrow> V_Write | V_Write \<Rightarrow> V_Close_Clnt | _ \<Rightarrow> p)"

text \<open>The result of a read: \<open>Some bs\<close> of what was read (nothing at the end of the stream or on a
  reset connection), or \<open>None\<close> while there is nothing to read.\<close>

definition sock_read :: "nat \<Rightarrow> net \<Rightarrow> (bytes \<times> net) option" where
  "sock_read n s =
     (if arrived s \<noteq> [] then Some (take n (arrived s), s\<lparr>arrived := drop n (arrived s)\<rparr>)
      else if rst s \<or> (fin s \<and> inflight s = []) then Some ([], s)
      else None)"

fun tcp_client :: "client_pc \<Rightarrow> net \<Rightarrow> net option" where
  "tcp_client K_Socket s = Some (s\<lparr>sock := True, kpc := K_Connect\<rparr>)"
| "tcp_client K_Connect s =
     (if sock s \<and> listening s \<and> (case bound s of None \<Rightarrow> False | Some a \<Rightarrow> answers a client_target)
      then Some (s\<lparr>backlog := True, kpc := K_Read\<rparr>)
      else Some (s\<lparr>kout := kout s @ refused_line, kpc := K_Exited (- 1)\<rparr>))"
| "tcp_client K_Read s = (case sock_read 1023 s of
       None \<Rightarrow> None
     | Some (bs, s') \<Rightarrow> Some (s'\<lparr>buffer := overwrite (buffer s') 0 bs, kpc := K_Print\<rparr>))"
| "tcp_client K_Print s = Some (s\<lparr>kout := kout s @ client_line (buffer s), kpc := K_Close\<rparr>)"
| "tcp_client K_Close s = Some (s\<lparr>kpc := K_Exited 0\<rparr>)"
| "tcp_client (K_Exited c) s = None"

text \<open>A failing call of the client: \<open>socket\<close> leaves -1, \<open>connect\<close> ends the program, \<open>read\<close> leaves
  the buffer.\<close>

fun client_fails :: "client_pc \<Rightarrow> net \<Rightarrow> net option" where
  "client_fails K_Socket s = Some (s\<lparr>sock := False, kpc := K_Connect\<rparr>)"
| "client_fails K_Connect s = Some (s\<lparr>kout := kout s @ refused_line, kpc := K_Exited (- 1)\<rparr>)"
| "client_fails K_Read s = Some (s\<lparr>kpc := K_Print\<rparr>)"
| "client_fails _ s = None"

fun net_step :: "net_actor \<Rightarrow> net \<Rightarrow> net option" where
  "net_step Server s = tcp_server (vpc s) s"
| "net_step Client s = tcp_client (kpc s) s"
| "net_step (Net k) s =
     (if 1 \<le> k \<and> k \<le> length (inflight s)
      then Some (s\<lparr>arrived := arrived s @ take k (inflight s), inflight := drop k (inflight s)\<rparr>) else None)"
| "net_step Server_Call_Fails s =
     (if next_server (vpc s) \<noteq> vpc s then Some (s\<lparr>vpc := next_server (vpc s)\<rparr>) else None)"
| "net_step Client_Call_Fails s = client_fails (kpc s) s"

section \<open>Control\<close>

fun vrank :: "server_pc \<Rightarrow> nat" where
  "vrank V_Socket = 0" | "vrank V_Bind = 1" | "vrank V_Listen = 2" | "vrank V_Accept = 3"
| "vrank V_Write = 4" | "vrank V_Close_Clnt = 5" | "vrank V_Close_Serv = 6" | "vrank V_Exited = 7"

fun krank :: "client_pc \<Rightarrow> nat" where
  "krank K_Socket = 0" | "krank K_Connect = 1" | "krank K_Read = 2" | "krank K_Print = 3"
| "krank K_Close = 4" | "krank (K_Exited c) = 5"

definition linked :: "net \<Rightarrow> bool" where
  "linked s \<longleftrightarrow> (kpc s = K_Read \<longrightarrow> backlog s \<or> clnt_sock s) \<and> (krank (kpc s) < 2 \<longrightarrow> \<not> backlog s \<and> \<not> clnt_sock s) \<and>
     (clnt_sock s \<longrightarrow> 3 < vrank (vpc s)) \<and> (5 < vrank (vpc s) \<longrightarrow> fin s = clnt_sock s) \<and>
     (vpc s = V_Exited \<longrightarrow> rst s = backlog s \<and> \<not> listening s)"

definition sent_ok :: "net \<Rightarrow> bool" where
  "sent_ok s \<longleftrightarrow> (vrank (vpc s) \<le> 4 \<longrightarrow> arrived s = [] \<and> inflight s = []) \<and>
     (krank (kpc s) \<le> 2 \<longrightarrow> arrived s @ inflight s = [] \<or> arrived s @ inflight s = hello_message) \<and>
     length (inflight s) \<le> 27"

definition shown_ok :: "bytes \<Rightarrow> net \<Rightarrow> bool" where
  "shown_ok junk s \<longleftrightarrow> (krank (kpc s) \<le> 2 \<longrightarrow> buffer s = junk \<and> kout s = []) \<and>
     (kpc s = K_Print \<longrightarrow> kout s = [] \<and> (\<exists>n\<le>27. buffer s = overwrite junk 0 (take n hello_message))) \<and>
     (kpc s = K_Close \<or> kpc s = K_Exited 0 \<longrightarrow>
        (\<exists>n\<le>27. kout s = client_line (overwrite junk 0 (take n hello_message)))) \<and>
     (\<forall>c. kpc s = K_Exited c \<longrightarrow> c = 0 \<or> c = -1 \<and> kout s = refused_line)"

lemma length_message [simp]: "length hello_message = 27"
  by (simp add: hello_message_def)

lemma linked_server: "linked s \<Longrightarrow> tcp_server (vpc s) s = Some t \<Longrightarrow> linked t"
  by (cases "vpc s"; clarsimp simp: linked_def split: if_splits)

lemma sock_read_frame:
  "sock_read n s = Some (bs, t) \<Longrightarrow> vpc t = vpc s \<and> clnt_sock t = clnt_sock s \<and> fin t = fin s \<and> rst t = rst s \<and>
     listening t = listening s \<and> backlog t = backlog s \<and> kpc t = kpc s \<and> buffer t = buffer s \<and> kout t = kout s \<and>
     inflight t = inflight s \<and> (bs = [] \<or> bs = take n (arrived s))"
  by (simp add: sock_read_def split: if_splits) (erule conjE, hypsubst, simp)+

lemma client_frame:
  assumes "tcp_client (kpc s) s = Some t"
  shows "vpc t = vpc s \<and> clnt_sock t = clnt_sock s \<and> fin t = fin s \<and> rst t = rst s \<and> listening t = listening s \<and>
    (backlog t = backlog s \<and> (kpc t = K_Connect \<and> kpc s = K_Socket \<or> 2 < krank (kpc t)) \<or>
     backlog t \<and> kpc t = K_Read \<and> listening s)"
proof (cases "kpc s")
  case K_Read
  with assms obtain bs s' where "sock_read 1023 s = Some (bs, s')"
    and "t = s'\<lparr>buffer := overwrite (buffer s') 0 bs, kpc := K_Print\<rparr>"
    by (simp split: option.splits prod.splits)
  with sock_read_frame show ?thesis by simp
qed (use assms in \<open>force split: if_splits\<close>)+

lemma linked_client:
  assumes "linked s" and "tcp_client (kpc s) s = Some t" shows "linked t"
proof -
  note f = client_frame [OF assms(2)] and l = assms(1) [unfolded linked_def]
  show ?thesis
    unfolding linked_def
  proof (intro conjI)
    show "kpc t = K_Read \<longrightarrow> backlog t \<or> clnt_sock t"
    proof
      assume "kpc t = K_Read"
      then have "\<not> 2 < krank (kpc t)" "kpc t \<noteq> K_Connect" by simp_all
      with f show "backlog t \<or> clnt_sock t" by blast
    qed
    show "5 < vrank (vpc t) \<longrightarrow> fin t = clnt_sock t" "clnt_sock t \<longrightarrow> 3 < vrank (vpc t)" using f l by metis+
    show "krank (kpc t) < 2 \<longrightarrow> \<not> backlog t \<and> \<not> clnt_sock t"
    proof
      assume "krank (kpc t) < 2"
      with f have "backlog t = backlog s" "clnt_sock t = clnt_sock s" "krank (kpc s) < 2" by auto
      with l show "\<not> backlog t \<and> \<not> clnt_sock t" by blast
    qed
    show "vpc t = V_Exited \<longrightarrow> rst t = backlog t \<and> \<not> listening t" using f l by metis
  qed
qed

lemma linked_fails:
  "linked s \<Longrightarrow> net_step Server_Call_Fails s = Some t \<Longrightarrow> linked t"
  "linked s \<Longrightarrow> client_fails (kpc s) s = Some t \<Longrightarrow> linked t"
  by (cases "vpc s"; auto simp: linked_def next_server_def)
    (cases "kpc s"; auto simp: linked_def)

lemma sent_server: "sent_ok s \<Longrightarrow> tcp_server (vpc s) s = Some t \<Longrightarrow> sent_ok t"
  by (cases "vpc s") (auto simp: sent_ok_def split: if_splits)

lemma sent_client: "sent_ok s \<Longrightarrow> tcp_client (kpc s) s = Some t \<Longrightarrow> sent_ok t"
  by (cases "kpc s") (auto simp: sent_ok_def sock_read_def split: if_splits)

lemma sent_fails:
  "sent_ok s \<Longrightarrow> net_step Server_Call_Fails s = Some t \<Longrightarrow> sent_ok t"
  "sent_ok s \<Longrightarrow> client_fails (kpc s) s = Some t \<Longrightarrow> sent_ok t"
  by (cases "vpc s"; auto simp: sent_ok_def next_server_def)
    (cases "kpc s"; auto simp: sent_ok_def)

lemma sent_net: "sent_ok s \<Longrightarrow> net_step (Net k) s = Some t \<Longrightarrow> sent_ok t"
  by (auto simp: sent_ok_def split: if_splits)

lemma shown_client:
  assumes "shown_ok junk s" and "sent_ok s" and "tcp_client (kpc s) s = Some t"
  shows "shown_ok junk t"
proof (cases "kpc s")
  case K_Read
  have "\<exists>n\<le>27. take 1023 (arrived s) = take n hello_message"
  proof -
    from assms(2) K_Read have "arrived s @ inflight s = [] \<or> arrived s @ inflight s = hello_message"
      by (simp add: sent_ok_def)
    then obtain n where "arrived s = take n hello_message" "n \<le> 27"
      by (metis append_eq_conv_conj append_is_Nil_conv le0 length_append length_message le_add1 take_0)
    then have "take 1023 (arrived s) = take (min 1023 n) hello_message" "min 1023 n \<le> 27" by simp_all
    then show ?thesis by blast
  qed
  moreover have "\<exists>n\<le>27. [] = take n hello_message" by (rule exI [of _ 0]) simp
  ultimately show ?thesis
    using assms(1,3) K_Read by (auto simp: shown_ok_def sock_read_def split: if_splits)
qed (use assms in \<open>auto simp: shown_ok_def split: if_splits\<close>)

lemma shown_frame:
  "buffer t = buffer s \<Longrightarrow> kout t = kout s \<Longrightarrow> kpc t = kpc s \<Longrightarrow> shown_ok junk s \<Longrightarrow> shown_ok junk t"
  by (simp add: shown_ok_def)

lemma shown_fails:
  assumes "shown_ok junk s" and "client_fails (kpc s) s = Some t" shows "shown_ok junk t"
proof -
  have "\<exists>n\<le>27. junk = overwrite junk 0 (take n hello_message)" by (rule exI [of _ 0]) simp
  with assms show ?thesis by (cases "kpc s") (auto simp: shown_ok_def)
qed

lemma server_frame:
  "tcp_server (vpc s) s = Some t \<Longrightarrow> buffer t = buffer s \<and> kout t = kout s \<and> kpc t = kpc s \<and>
     vrank (vpc t) = Suc (vrank (vpc s)) \<and> length (inflight t) \<le> length (inflight s) + 27"
  "net_step Server_Call_Fails s = Some t \<Longrightarrow> buffer t = buffer s \<and> kout t = kout s \<and> kpc t = kpc s \<and>
     vrank (vpc t) = Suc (vrank (vpc s)) \<and> inflight t = inflight s"
  by (cases "vpc s"; simp split: if_splits; hypsubst; simp)
    (cases "vpc s"; simp add: next_server_def; hypsubst; simp)

definition net_inv :: "bytes \<Rightarrow> net \<Rightarrow> bool" where
  "net_inv junk s \<longleftrightarrow> linked s \<and> sent_ok s \<and> shown_ok junk s"

lemma net_net:
  assumes "net_step (Net k) s = Some t"
  shows "linked s \<Longrightarrow> linked t" and "shown_ok junk s \<Longrightarrow> shown_ok junk t"
proof -
  obtain xs ys where t: "t = s\<lparr>arrived := xs, inflight := ys\<rparr>" using assms by (auto split: if_splits)
  show "linked s \<Longrightarrow> linked t" unfolding t linked_def by simp
  show "shown_ok junk s \<Longrightarrow> shown_ok junk t" unfolding t shown_ok_def by simp
qed

interpretation net_run: inductive_invariant net_step "net_init junk" "net_inv junk"
proof unfold_locales
  show "net_inv junk (net_init junk)"
    by (simp add: net_inv_def linked_def sent_ok_def shown_ok_def net_init_def)
next
  fix s a t
  assume i: "net_inv junk s" and st: "net_step a s = Some t"
  then have l: "linked s" "sent_ok s" "shown_ok junk s" by (simp_all add: net_inv_def)
  show "net_inv junk t"
  proof (cases a)
    case Server
    with st have "tcp_server (vpc s) s = Some t" by simp
    with l show ?thesis
      unfolding net_inv_def using linked_server sent_server server_frame(1) shown_frame by blast
  next
    case Client
    with st have "tcp_client (kpc s) s = Some t" by simp
    with l show ?thesis unfolding net_inv_def using linked_client sent_client shown_client by blast
  next
    case (Net k)
    with st l show ?thesis unfolding net_inv_def using net_net sent_net by blast
  next
    case Server_Call_Fails
    with st l show ?thesis
      unfolding net_inv_def using linked_fails(1) sent_fails(1) server_frame(2) shown_frame by blast
  next
    case Client_Call_Fails
    with st have "client_fails (kpc s) s = Some t" by simp
    with l show ?thesis unfolding net_inv_def using linked_fails(2) sent_fails(2) shown_fails by blast
  qed
qed

section \<open>Termination of the client\<close>

definition vleft :: "server_pc \<Rightarrow> nat" where "vleft p = 7 - vrank p"
definition kleft :: "client_pc \<Rightarrow> nat" where "kleft p = 5 - krank p"

definition net_measure :: "net \<Rightarrow> nat" where
  "net_measure s = 28 * vleft (vpc s) + kleft (kpc s) + length (inflight s)"

definition client_over :: "net \<Rightarrow> bool" where
  "client_over s \<longleftrightarrow> (\<exists>c. kpc s = K_Exited c)"

definition net_actors :: "net_actor set" where
  "net_actors = {Server, Client, Net 1}"

lemma ranks_le [simp]: "vrank p \<le> 7" "krank q \<le> 5"
  by (cases p; simp) (cases q; simp)

lemma client_rank:
  assumes "tcp_client (kpc s) s = Some t"
  shows "krank (kpc s) < krank (kpc t) \<and> vpc t = vpc s \<and> inflight t = inflight s"
proof (cases "kpc s")
  case K_Read
  with assms obtain bs s' where "sock_read 1023 s = Some (bs, s')"
    and "t = s'\<lparr>buffer := overwrite (buffer s') 0 bs, kpc := K_Print\<rparr>"
    by (simp split: option.splits prod.splits)
  with sock_read_frame K_Read show ?thesis by simp
qed (use assms in \<open>force split: if_splits\<close>)+

lemma fails_rank:
  "client_fails (kpc s) s = Some t \<Longrightarrow> krank (kpc s) < krank (kpc t) \<and> vpc t = vpc s \<and> inflight t = inflight s"
  by (cases "kpc s") auto

lemma server_measure:
  assumes "vrank (vpc t) = Suc (vrank (vpc s))" and "kpc t = kpc s"
    and "length (inflight t) \<le> length (inflight s) + 27"
  shows "net_measure t < net_measure s"
proof -
  have "vleft (vpc s) = Suc (vleft (vpc t))" using assms(1) ranks_le(1) [of "vpc t"] by (simp add: vleft_def)
  with assms(2,3) show ?thesis by (simp add: net_measure_def)
qed

lemma client_measure:
  assumes "krank (kpc s) < krank (kpc t)" and "vpc t = vpc s" and "inflight t = inflight s"
  shows "net_measure t < net_measure s"
proof -
  have "krank (kpc s) < 5" using assms(1) ranks_le(2) [of "kpc t"] by linarith
  then have "kleft (kpc t) < kleft (kpc s)" using assms(1) by (simp only: kleft_def diff_less_mono2)
  with assms(2,3) show ?thesis by (simp add: net_measure_def)
qed

lemma net_measure_down:
  assumes "net_step a s = Some t" shows "net_measure t < net_measure s"
proof (cases a)
  case Server
  with server_frame(1) [of s t] assms have "vrank (vpc t) = Suc (vrank (vpc s))" "kpc t = kpc s"
    "length (inflight t) \<le> length (inflight s) + 27" by simp_all
  then show ?thesis by (rule server_measure)
next
  case Client
  with client_rank [of s t] assms have "krank (kpc s) < krank (kpc t)" "vpc t = vpc s" "inflight t = inflight s"
    by simp_all
  then show ?thesis by (rule client_measure)
next
  case (Net k)
  with assms show ?thesis by (auto simp: net_measure_def split: if_splits)
next
  case Server_Call_Fails
  with server_frame(2) [of s t] assms have "vrank (vpc t) = Suc (vrank (vpc s))" "kpc t = kpc s"
    "length (inflight t) \<le> length (inflight s) + 27" by simp_all
  then show ?thesis by (rule server_measure)
next
  case Client_Call_Fails
  with fails_rank [of s t] assms have "krank (kpc s) < krank (kpc t)" "vpc t = vpc s" "inflight t = inflight s"
    by simp_all
  then show ?thesis by (rule client_measure)
qed

text \<open>A client that waits for bytes is waited for by the server or by the network.\<close>

lemma net_some_move:
  assumes "linked s" and "\<not> client_over s"
  shows "\<exists>a\<in>net_actors. net_step a s \<noteq> None"
proof (cases "net_step Client s")
  case None
  with assms(2) have k: "kpc s = K_Read" and r: "sock_read 1023 s = None"
    by (cases "kpc s"; auto simp: client_over_def split: option.splits if_splits)+
  from r have w: "\<not> rst s" "inflight s = [] \<Longrightarrow> \<not> fin s"
    by (auto simp: sock_read_def split: if_splits)
  show ?thesis
  proof (cases "inflight s")
    case (Cons b bs)
    then have "net_step (Net 1) s \<noteq> None" by simp
    then show ?thesis by (auto simp: net_actors_def)
  next
    case Nil
    have "tcp_server (vpc s) s \<noteq> None"
    proof (cases "vpc s")
      case V_Accept
      then have "\<not> 3 < vrank (vpc s)" by simp
      with assms(1) k have "backlog s" unfolding linked_def by blast
      with V_Accept show ?thesis by simp
    next
      case V_Exited
      with assms(1) k w(2) [OF Nil] have "backlog s" "rst s = backlog s" by (auto simp: linked_def)
      with w(1) show ?thesis by simp
    qed auto
    then show ?thesis by (auto simp: net_actors_def)
  qed
next
  case (Some t)
  then show ?thesis by (auto simp: net_actors_def)
qed

lemma client_over_stays: "client_over s \<Longrightarrow> net_step a s = Some t \<Longrightarrow> client_over t"
  using server_frame [of s t]
  by (cases a) (auto simp: client_over_def split: if_splits)

interpretation net_ends: fair_termination net_step "net_init junk" net_actors net_measure client_over
proof unfold_locales
  fix s a t
  assume "client_over s" and "net_step a s = Some t"
  then show "client_over t" by (rule client_over_stays)
next
  fix s a t
  assume "net_step a s = Some t"
  then show "client_over t \<or> net_measure t \<le> net_measure s" using net_measure_down less_imp_le by blast
next
  fix s
  assume "reach net_step (net_init junk) s" and "\<not> client_over s"
  then obtain a t where "a \<in> net_actors" "net_step a s = Some t"
    using net_some_move net_run.inv_reach unfolding net_inv_def by blast
  then show "\<exists>a\<in>net_actors. \<exists>t. net_step a s = Some t \<and> (client_over t \<or> net_measure t < net_measure s)"
    using net_measure_down by blast
next
  fix s a t b u
  assume "net_step b s = Some u" and "net_measure u = net_measure s"
  then show "\<exists>t'. net_step a u = Some t' \<and> (client_over t' \<or> net_measure t' < net_measure u)"
    using net_measure_down by fastforce
qed

section \<open>Properties\<close>

text \<open>
  What the client shows after a read of \<open>n\<close> bytes: the greeting if it came whole, otherwise its
  beginning and whatever stood behind it in the buffer up to a NUL.
\<close>

definition greeting :: string where
  "greeting = ''Hello, Socket Programming!''"

definition shown_text :: "bytes \<Rightarrow> nat \<Rightarrow> string" where
  "shown_text junk n = ''Message from server: '' @
     (if n = 27 then greeting else take n greeting @ cstr (drop n junk)) @ [nl]"

lemma cstr_append: "c_string a \<Longrightarrow> cstr (a @ b) = a @ cstr b"
  unfolding cstr_def c_string_def by (subst takeWhile_append2) auto

lemma greeting_c_string: "c_string greeting" "length greeting = 26"
  by (simp_all add: greeting_def)

lemma client_line_take:
  assumes "n \<le> 27" shows "client_line (overwrite junk 0 (take n hello_message)) = shown_text junk n"
proof (cases "n = 27")
  case True
  have "hello_message = greeting @ [NUL]" by (simp add: hello_message_def greeting_def)
  then have "overwrite junk 0 (take n hello_message) = overwrite junk 0 (greeting @ [NUL])"
    using True by (simp add: greeting_c_string)
  then show ?thesis using True greeting_c_string by (simp add: client_line_def shown_text_def cstr_overwrite)
next
  case False
  with assms have n: "n \<le> 26" by simp
  have "hello_message = greeting @ [NUL]" by (simp add: hello_message_def greeting_def)
  moreover have "take n (greeting @ [NUL]) = take n greeting" using n greeting_c_string(2) by simp
  ultimately have t: "take n hello_message = take n greeting" by (simp only:)
  have "length (take n greeting) = n" using n by (simp add: greeting_c_string)
  then have "overwrite junk 0 (take n hello_message) = take n greeting @ drop n junk"
    unfolding t overwrite_start by simp
  then show ?thesis
    using False greeting_c_string by (simp add: client_line_def shown_text_def cstr_append c_string_take)
qed

lemma server_reachable: "answers server_addr client_target"
  by (simp add: answers_def server_addr_def client_target_def)

text \<open>
  C12: whatever the order of the calls, the pieces the network makes of the greeting and the
  calls that fail, after 202 rounds with both programs and the network the client has exited:
  with -1 and its failure hello_message, or with 0 and one line with the whole greeting, or with the
  first \<open>n\<close> bytes of it and what the uninitialised buffer held behind them.
\<close>
theorem client_ends:
  assumes "\<forall>r\<in>set rounds. net_actors \<subseteq> set r" and "202 \<le> length rounds"
    and "s = run_schedule net_step (concat rounds) (net_init junk)"
  shows "(kpc s = K_Exited (- 1) \<and> kout s = refused_line) \<or>
    (kpc s = K_Exited 0 \<and> (\<exists>n\<le>27. kout s = shown_text junk n))"
proof -
  have "net_measure (net_init junk) < length rounds"
    using assms(2) by (simp add: net_measure_def net_init_def vleft_def kleft_def)
  then have "client_over s"
    unfolding assms(3) by (rule net_ends.fair_rounds_finish [OF reach_init assms(1)])
  moreover have "shown_ok junk s" unfolding assms(3) using net_run.inv_schedule by (simp add: net_inv_def)
  ultimately show ?thesis using client_line_take by (auto simp: client_over_def shown_ok_def)
qed

definition past_read :: "net \<Rightarrow> bool" where
  "past_read s \<longleftrightarrow> 2 < krank (kpc s) \<and> kpc s \<noteq> K_Exited (- 1)"

lemma past_read_step:
  assumes "past_read s" and "net_step a s = Some t" shows "past_read t"
proof (cases "kpc t = kpc s")
  case False
  with assms(2) server_frame [of s t] have "a = Client \<or> a = Client_Call_Fails"
    by (cases a) (auto split: if_splits)
  with assms show ?thesis by (cases "kpc s") (auto simp: past_read_def)
qed (use assms in \<open>simp add: past_read_def\<close>)

lemma past_read_run: "past_read s \<Longrightarrow> past_read (run_schedule net_step as s)"
  by (rule run_schedule_keeps) (rule past_read_step)

definition good_rounds :: "net_actor list list" where
  "good_rounds = [Server, Server, Server, Client, Client, Server, Server, Net 27, Client, Net 1] #
     replicate 202 [Server, Client, Net 1]"

lemma good_round: "kpc (run_schedule net_step (hd good_rounds) (net_init junk)) = K_Print"
proof -
  have "hello_message \<noteq> []" using length_message by force
  then show ?thesis by (simp add: good_rounds_def net_init_def server_reachable sock_read_def)
qed

theorem client_ends_witness:
  "\<exists>n\<le>27. kout (run_schedule net_step (concat good_rounds) (net_init (replicate 1024 NUL))) =
     shown_text (replicate 1024 NUL) n"
proof -
  define s where "s = run_schedule net_step (concat good_rounds) (net_init (replicate 1024 NUL))"
  have "\<forall>r\<in>set good_rounds. net_actors \<subseteq> set r" "202 \<le> length good_rounds"
    by (auto simp: good_rounds_def net_actors_def)
  note over = client_ends [OF this s_def]
  have "kpc (run_schedule net_step (hd good_rounds) (net_init (replicate 1024 NUL))) = K_Print"
    by (rule good_round)
  then have "past_read (run_schedule net_step (hd good_rounds) (net_init (replicate 1024 NUL)))"
    by (simp only: past_read_def) simp
  moreover have "concat good_rounds = hd good_rounds @ concat (tl good_rounds)"
    unfolding good_rounds_def concat.simps list.sel by (rule refl)
  ultimately have "past_read s" unfolding s_def by (simp only: run_schedule_append past_read_run)
  then have "kpc s \<noteq> K_Exited (- 1)" by (simp add: past_read_def)
  with over have "\<exists>n\<le>27. kout s = shown_text (replicate 1024 NUL) n" by blast
  then show ?thesis unfolding s_def .
qed

end
