(* ===== verification/Stream_Lock.thy ===== *)
theory Stream_Lock
  imports C_Library Interleaving
begin

text \<open>
  \<open>flock_example.c\<close>: two threads print and extend the file behind one stream, each between
  \<open>flockfile\<close> and \<open>funlockfile\<close>. The stream has one position for both directions, as the C
  library keeps it. The output is a list of texts with the thread that printed them. The failures
  of \<open>fopen\<close>, \<open>fgets\<close>, \<open>fputs\<close> and \<open>pthread_create\<close> are moves of their own. The source ignores the
  result of \<open>pthread_create\<close>: when it fails there is no thread, and \<open>main\<close> joins through an uninitialised
  variable, which is undefined; the run then has no further move.
\<close>

section \<open>State\<close>

datatype writer = Writer1 | Writer2

datatype writer_pc =
    F_None | F_Start | F_Lock | F_Header | F_Gets | F_Echo string | F_Add | F_Puts | F_Sleep | F_Finish
  | F_Unlock | F_Exit
  | F_Done \<comment> \<open>terminated, can be joined\<close>

datatype flock_main_pc = L_Start | L_Open | L_Create1 | L_Create2 | L_Join1 | L_Join2 | L_Exited int
  | L_Undefined \<comment> \<open>joined a thread that was never created\<close>

datatype shown = Start_Line writer | Section writer string | Main_Text string

record flock_state =
  fdata :: bytes
  fpos :: nat
  flock :: "writer option"
  fpc :: "writer \<Rightarrow> writer_pc"
  flmain :: flock_main_pc
  fout :: "shown list"
  ferr :: string

datatype flock_actor =
    Flock_Main | Writer writer
  | Fopen_Fails string | Gets_Fails writer | Puts_Fails writer string | Thread_Fails

definition thread_start :: string where "thread_start = ''<thread start>'' @ [nl]"
definition contents_line :: string where "contents_line = ''lock!, data file contents:'' @ [nl]"
definition add_line :: string where
  "add_line = ''now add data '' @ [CHR 0x22] @ ''hello world!'' @ [CHR 0x5C, CHR ''n'', CHR 0x22, nl]"
definition hello_world :: string where "hello_world = ''hello world!'' @ [nl]"
definition unlock_line :: string where "unlock_line = ''finish, unlock!'' @ [nl]"

definition flock_usage :: "string \<Rightarrow> string" where
  "flock_usage prog = ''Usage: '' @ prog @ '' <data-file>'' @ [nl]"

definition flock_init :: "bytes \<Rightarrow> flock_state" where
  "flock_init d = \<lparr>fdata = d, fpos = 0, flock = None, fpc = (\<lambda>_. F_None), flmain = L_Start, fout = [], ferr = []\<rparr>"

section \<open>Steps\<close>

definition goto_f :: "writer \<Rightarrow> writer_pc \<Rightarrow> flock_state \<Rightarrow> flock_state" where
  "goto_f t p s = s\<lparr>fpc := (fpc s)(t := p)\<rparr>"

definition show_text :: "shown \<Rightarrow> flock_state \<Rightarrow> flock_state" where
  "show_text x s = s\<lparr>fout := fout s @ [x]\<rparr>"

fun mod_file_thread :: "writer_pc \<Rightarrow> writer \<Rightarrow> flock_state \<Rightarrow> flock_state option" where
  "mod_file_thread F_None t s = None"
| "mod_file_thread F_Start t s = Some (goto_f t F_Lock (show_text (Start_Line t) s))"
| "mod_file_thread F_Lock t s =
     (if flock s = None then Some (goto_f t F_Header (s\<lparr>flock := Some t\<rparr>)) else None)"
| "mod_file_thread F_Header t s = Some (goto_f t F_Gets (show_text (Section t contents_line) s))"
| "mod_file_thread F_Gets t s = (case fgets 1024 (drop (fpos s) (fdata s)) of
       None \<Rightarrow> Some (goto_f t F_Add s)
     | Some (line, rest) \<Rightarrow> Some (goto_f t (F_Echo line) (s\<lparr>fpos := fpos s + length line\<rparr>)))"
| "mod_file_thread (F_Echo line) t s = Some (goto_f t F_Gets (show_text (Section t (cstr line)) s))"
| "mod_file_thread F_Add t s = Some (goto_f t F_Puts (show_text (Section t add_line) s))"
| "mod_file_thread F_Puts t s =
     Some (goto_f t F_Sleep (s\<lparr>fdata := overwrite (fdata s) (fpos s) hello_world, fpos := fpos s + length hello_world\<rparr>))"
| "mod_file_thread F_Sleep t s = Some (goto_f t F_Finish s)"
| "mod_file_thread F_Finish t s = Some (goto_f t F_Unlock (show_text (Section t unlock_line) s))"
| "mod_file_thread F_Unlock t s = Some (goto_f t F_Exit (s\<lparr>flock := None\<rparr>))"
| "mod_file_thread F_Exit t s = Some (goto_f t F_Done s)"
| "mod_file_thread F_Done t s = None"

fun flock_main :: "string list \<Rightarrow> flock_main_pc \<Rightarrow> flock_state \<Rightarrow> flock_state option" where
  "flock_main argv L_Start s =
     Some (if length argv < 2 then show_text (Main_Text (flock_usage (argv ! 0))) s\<lparr>flmain := L_Exited (- 1)\<rparr>
       else s\<lparr>flmain := L_Open\<rparr>)"
| "flock_main argv L_Open s = Some (s\<lparr>flmain := L_Create1\<rparr>)"
| "flock_main argv L_Create1 s = Some (goto_f Writer1 F_Start (s\<lparr>flmain := L_Create2\<rparr>))"
| "flock_main argv L_Create2 s = Some (goto_f Writer2 F_Start (s\<lparr>flmain := L_Join1\<rparr>))"
| "flock_main argv L_Join1 s =
     (if fpc s Writer1 = F_None then Some (s\<lparr>flmain := L_Undefined\<rparr>)
      else if fpc s Writer1 = F_Done then Some (s\<lparr>flmain := L_Join2\<rparr>) else None)"
| "flock_main argv L_Join2 s =
     (if fpc s Writer2 = F_None then Some (s\<lparr>flmain := L_Undefined\<rparr>)
      else if fpc s Writer2 = F_Done then Some (s\<lparr>flmain := L_Exited 0\<rparr>) else None)"
| "flock_main argv (L_Exited c) s = None"
| "flock_main argv L_Undefined s = None"

text \<open>
  When \<open>fgets\<close> fails the loop ends as at the end of the file. When \<open>fputs\<close> fails the thread ends,
  and the stream stays locked.
\<close>

definition flock_gone :: "flock_state \<Rightarrow> bool" where
  "flock_gone s \<longleftrightarrow> (case flmain s of L_Exited _ \<Rightarrow> True | _ \<Rightarrow> False)"

definition flock_over :: "flock_state \<Rightarrow> bool" where
  "flock_over s \<longleftrightarrow> flock_gone s \<or> flmain s = L_Undefined"

fun flock_step :: "string list \<Rightarrow> flock_actor \<Rightarrow> flock_state \<Rightarrow> flock_state option" where
  "flock_step argv Flock_Main s = flock_main argv (flmain s) s"
| "flock_step argv (Writer t) s = (if flock_over s then None else mod_file_thread (fpc s t) t s)"
| "flock_step argv (Fopen_Fails e) s =
     (if flmain s = L_Open then Some (s\<lparr>ferr := ferr s @ perror_text ''fopen error: '' e, flmain := L_Exited (- 1)\<rparr>) else None)"
| "flock_step argv (Gets_Fails t) s =
     (if fpc s t = F_Gets \<and> \<not> flock_over s then Some (goto_f t F_Add s) else None)"
| "flock_step argv (Puts_Fails t e) s =
     (if fpc s t = F_Puts \<and> \<not> flock_over s
      then Some (goto_f t F_Done (s\<lparr>ferr := ferr s @ perror_text ''fputs error: '' e\<rparr>)) else None)"
| "flock_step argv Thread_Fails s =
     (if flmain s = L_Create1 then Some (s\<lparr>flmain := L_Create2\<rparr>)
      else if flmain s = L_Create2 then Some (s\<lparr>flmain := L_Join1\<rparr>) else None)"

text \<open>The runs in which no call fails.\<close>

fun flock_calm :: "string list \<Rightarrow> flock_actor \<Rightarrow> flock_state \<Rightarrow> flock_state option" where
  "flock_calm argv Flock_Main s = flock_step argv Flock_Main s"
| "flock_calm argv (Writer t) s = flock_step argv (Writer t) s"
| "flock_calm argv _ s = None"

section \<open>Control\<close>

fun before :: "writer_pc \<Rightarrow> bool" where
  "before F_None = True" | "before F_Start = True" | "before F_Lock = True" | "before _ = False"

fun after :: "writer_pc \<Rightarrow> bool" where
  "after F_Exit = True" | "after F_Done = True" | "after _ = False"

fun is_section :: "shown \<Rightarrow> bool" where
  "is_section (Section t x) = True"
| "is_section _ = False"

text \<open>What the threads have printed in their sections.\<close>

definition sections :: "flock_state \<Rightarrow> shown list" where
  "sections s = filter is_section (fout s)"

lemma flock_frames [simp]:
  "fdata (goto_f t p s) = fdata s" "fpos (goto_f t p s) = fpos s" "flock (goto_f t p s) = flock s"
  "fpc (goto_f t p s) = (fpc s)(t := p)" "flmain (goto_f t p s) = flmain s" "sections (goto_f t p s) = sections s"
  "fdata (show_text x s) = fdata s" "fpos (show_text x s) = fpos s" "flock (show_text x s) = flock s"
  "fpc (show_text x s) = fpc s" "flmain (show_text x s) = flmain s"
  "sections (show_text x s) = sections s @ (if is_section x then [x] else [])"
  "sections (s\<lparr>fdata := a\<rparr>) = sections s" "sections (s\<lparr>fpos := n\<rparr>) = sections s"
  "sections (s\<lparr>flock := k\<rparr>) = sections s" "sections (s\<lparr>flmain := m\<rparr>) = sections s" "sections (s\<lparr>ferr := e\<rparr>) = sections s"
  "sections (s\<lparr>fdata := a, fpos := n\<rparr>) = sections s"
  by (simp_all add: goto_f_def show_text_def sections_def)

definition existing :: "flock_main_pc \<Rightarrow> writer \<Rightarrow> bool" where
  "existing m t \<longleftrightarrow> (case t of
     Writer1 \<Rightarrow> m \<noteq> L_Start \<and> m \<noteq> L_Open \<and> m \<noteq> L_Create1
   | Writer2 \<Rightarrow> m \<noteq> L_Start \<and> m \<noteq> L_Open \<and> m \<noteq> L_Create1 \<and> m \<noteq> L_Create2)"

definition waited_for :: "flock_main_pc \<Rightarrow> writer \<Rightarrow> bool" where
  "waited_for m t \<longleftrightarrow> (case t of Writer1 \<Rightarrow> m = L_Join2 \<or> m = L_Exited 0 | Writer2 \<Rightarrow> m = L_Exited 0)"

definition flock_ctl :: "flock_state \<Rightarrow> bool" where
  "flock_ctl s \<longleftrightarrow> (\<forall>t. (fpc s t \<noteq> F_None) = existing (flmain s) t \<and> (waited_for (flmain s) t \<longrightarrow> fpc s t = F_Done)) \<and>
     (\<forall>c. flmain s = L_Exited c \<longrightarrow> c = 0) \<and> flmain s \<noteq> L_Undefined"

lemma thread_frame:
  "mod_file_thread (fpc s w) w s = Some s' \<Longrightarrow>
   flmain s' = flmain s \<and> (\<forall>v. v \<noteq> w \<longrightarrow> fpc s' v = fpc s v) \<and> fpc s w \<noteq> F_None \<and> fpc s w \<noteq> F_Done \<and> fpc s' w \<noteq> F_None"
  by (cases "fpc s w") (auto split: if_splits option.splits prod.splits)

lemma ctl_thread:
  assumes "flock_ctl s" and "mod_file_thread (fpc s w) w s = Some s'" shows "flock_ctl s'"
  unfolding flock_ctl_def
proof (intro conjI allI)
  note f = thread_frame [OF assms(2)]
  fix t
  show "(fpc s' t \<noteq> F_None) = existing (flmain s') t" "waited_for (flmain s') t \<longrightarrow> fpc s' t = F_Done"
    using f assms(1) unfolding flock_ctl_def by metis+
next
  fix c
  show "flmain s' = L_Exited c \<longrightarrow> c = 0" using thread_frame [OF assms(2)] assms(1) by (simp add: flock_ctl_def)
next
  show "flmain s' \<noteq> L_Undefined" using thread_frame [OF assms(2)] assms(1) by (simp add: flock_ctl_def)
qed

lemma writer_all: "(\<forall>t. P t) \<longleftrightarrow> P Writer1 \<and> P Writer2"
  by (metis writer.exhaust)

lemma ctl_main:
  assumes "flock_ctl s" and "flock_main argv (flmain s) s = Some s'" and "2 \<le> length argv"
  shows "flock_ctl s'"
  using assms
  by (cases "flmain s") (auto simp: flock_ctl_def writer_all existing_def waited_for_def split: if_splits)

lemma flock_calm_cases:
  assumes "flock_calm argv a s = Some s'"
  obtains (main) "a = Flock_Main" "flock_main argv (flmain s) s = Some s'"
    | (writer) w where "a = Writer w" "\<not> flock_over s" "mod_file_thread (fpc s w) w s = Some s'"
  using assms by (cases a) (auto split: if_splits)

lemma flock_ctl_init: "flock_ctl (flock_init d)"
  by (simp add: flock_ctl_def flock_init_def existing_def waited_for_def writer_all)

lemma flock_ctl_reach:
  assumes "reach (flock_calm argv) (flock_init d) s" and "2 \<le> length argv" shows "flock_ctl s"
  using assms(1)
proof (induction rule: reach.induct)
  case (reach_step s a t)
  from reach_step.hyps(2) show ?case
    by (cases rule: flock_calm_cases) (use reach_step.IH ctl_main ctl_thread assms(2) in blast)+
qed (rule flock_ctl_init)

text \<open>With failures too, a thread in its section owns the stream, and exists.\<close>

definition guarded :: "flock_state \<Rightarrow> writer \<Rightarrow> bool" where
  "guarded s t \<longleftrightarrow> (before (fpc s t) \<or> after (fpc s t) \<or> flock s = Some t) \<and>
     (fpc s t \<noteq> F_None \<longrightarrow> existing (flmain s) t) \<and> (waited_for (flmain s) t \<longrightarrow> fpc s t = F_Done)"

lemma guarded_thread:
  assumes "guarded s t" "guarded s w" and "mod_file_thread (fpc s w) w s = Some s'" shows "guarded s' t"
  using assms
  by (cases "t = w"; cases "fpc s w") (auto simp: guarded_def split: if_splits option.splits prod.splits)

lemma guarded_main:
  assumes "guarded s t" and "flock_main argv (flmain s) s = Some s'" shows "guarded s' t"
  using assms
  by (cases t; cases "flmain s")
    (auto simp: guarded_def existing_def waited_for_def show_text_def split: if_splits)

interpretation flock_run: inductive_invariant "flock_step argv" "flock_init d" "\<lambda>s. \<forall>t. guarded s t"
proof unfold_locales
  show "\<forall>t. guarded (flock_init d) t"
    by (simp add: guarded_def flock_init_def waited_for_def writer_all)
next
  fix s a s'
  assume g: "\<forall>t. guarded s t" and st: "flock_step argv a s = Some s'"
  show "\<forall>t. guarded s' t"
  proof (cases a)
    case Flock_Main
    with g st guarded_main show ?thesis by (metis flock_step.simps(1))
  next
    case (Writer w)
    with st have "mod_file_thread (fpc s w) w s = Some s'" by (simp split: if_splits)
    with g guarded_thread show ?thesis by blast
  next
    case (Fopen_Fails e)
    with g st show ?thesis by (auto simp: guarded_def existing_def waited_for_def writer_all split: if_splits)
  next
    case (Gets_Fails w)
    with g st show ?thesis by (cases w) (auto simp: guarded_def writer_all split: if_splits)
  next
    case (Puts_Fails w e)
    with g st show ?thesis by (cases w) (auto simp: guarded_def writer_all split: if_splits)
  next
    case Thread_Fails
    with g st show ?thesis by (auto simp: guarded_def existing_def waited_for_def writer_all split: if_splits)
  qed
qed

section \<open>The sections exclude each other\<close>

text \<open>
  Without failures the stream's lock follows the general protocol: it is taken where it is free
  and given up by its holder, so the sections exclude each other.
\<close>

definition in_stream :: "writer \<Rightarrow> flock_state \<Rightarrow> bool" where
  "in_stream t s \<longleftrightarrow> \<not> before (fpc s t) \<and> \<not> after (fpc s t)"

fun writer_mover :: "flock_actor \<Rightarrow> writer option" where
  "writer_mover (Writer t) = Some t"
| "writer_mover _ = None"

lemma calm_is_step: "flock_calm argv a s = Some s' \<Longrightarrow> flock_step argv a s = Some s'"
  by (cases a) simp_all

lemma reach_calm: "reach (flock_calm argv) (flock_init d) s \<Longrightarrow> reach (flock_step argv) (flock_init d) s"
  by (induction rule: reach.induct) (blast intro: reach_init reach_step calm_is_step)+

lemma thread_moves_lock:
  assumes "mod_file_thread (fpc s t) t s = Some s'"
  shows "u \<noteq> t \<Longrightarrow> fpc s' u = fpc s u"
    and "in_stream t s' = in_stream t s \<Longrightarrow> flock s' = flock s"
    and "\<not> in_stream t s \<Longrightarrow> in_stream t s' \<Longrightarrow> flock s = None \<and> flock s' = Some t"
    and "in_stream t s \<Longrightarrow> \<not> in_stream t s' \<Longrightarrow> flock s' = None"
  using assms by (cases "fpc s t"; auto simp: in_stream_def split: if_splits option.splits prod.splits)+

lemma main_keeps_lock:
  assumes "flock_main argv (flmain s) s = Some s'" and "\<forall>t. guarded s t"
  shows "flock s' = flock s" and "in_stream t s' = in_stream t s"
proof -
  show "flock s' = flock s" using assms(1) by (cases "flmain s") (auto simp: show_text_def split: if_splits)
  have "fpc s t = F_None" if "\<not> existing (flmain s) t" using assms(2) that by (auto simp: guarded_def)
  with assms(1) show "in_stream t s' = in_stream t s"
    by (cases t; cases "flmain s") (auto simp: in_stream_def existing_def show_text_def split: if_splits)
qed

interpretation stream_lock: lock_protocol "flock_calm argv" "flock_init d" writer_mover in_stream "\<lambda>s. flock s = None"
proof unfold_locales
  show "flock (flock_init d) = None" "\<not> in_stream i (flock_init d)" for i
    by (simp_all add: flock_init_def in_stream_def)
next
  fix s a s' i
  assume r: "reach (flock_calm argv) (flock_init d) s" and st: "flock_calm argv a s = Some s'" and m: "writer_mover a \<noteq> Some i"
  have g: "\<forall>t. guarded s t" using flock_run.inv_reach [OF reach_calm [OF r]] .
  from st show "in_stream i s' = in_stream i s"
  proof (cases rule: flock_calm_cases)
    case main
    then show ?thesis using main_keeps_lock(2) g by blast
  next
    case (writer t)
    then have "fpc s' i = fpc s i" using m thread_moves_lock(1) by auto
    then show ?thesis by (simp add: in_stream_def)
  qed
next
  fix s a s' i
  assume "flock_calm argv a s = Some s'" "writer_mover a = Some i" "\<not> in_stream i s" "in_stream i s'"
  then show "flock s = None \<and> flock s' \<noteq> None"
    by (cases rule: flock_calm_cases) (auto dest: thread_moves_lock(3))
next
  fix s a s' i
  assume "flock_calm argv a s = Some s'" "writer_mover a = Some i" "in_stream i s" "\<not> in_stream i s'"
  then show "flock s' = None"
    by (cases rule: flock_calm_cases) (auto dest: thread_moves_lock(4))
next
  fix s a s'
  assume r: "reach (flock_calm argv) (flock_init d) s" and st: "flock_calm argv a s = Some s'"
    and k: "\<And>i. writer_mover a = Some i \<Longrightarrow> in_stream i s' = in_stream i s"
  have g: "\<forall>t. guarded s t" using flock_run.inv_reach [OF reach_calm [OF r]] .
  from st have "flock s' = flock s"
  proof (cases rule: flock_calm_cases)
    case main
    then show ?thesis using main_keeps_lock(1) g by blast
  next
    case (writer t)
    then show ?thesis using k [of t] thread_moves_lock(2) by simp
  qed
  then show "(flock s' = None) = (flock s = None)" by simp
qed

text \<open>The two threads are never in their sections at the same time.\<close>

lemma flock_exclusion:
  "reach (flock_calm argv) (flock_init d) s \<Longrightarrow> in_stream t s \<Longrightarrow> in_stream u s \<Longrightarrow> t = u"
  by (rule stream_lock.exclusive)

section \<open>Termination of the runs without a failure\<close>

fun frank :: "writer_pc \<Rightarrow> nat" where
  "frank F_None = 13" | "frank F_Start = 12" | "frank F_Lock = 11" | "frank F_Header = 10" | "frank F_Gets = 8"
| "frank (F_Echo l) = 9" | "frank F_Add = 7" | "frank F_Puts = 6" | "frank F_Sleep = 5" | "frank F_Finish = 4"
| "frank F_Unlock = 3" | "frank F_Exit = 2" | "frank F_Done = 1"

fun lrank :: "flock_main_pc \<Rightarrow> nat" where
  "lrank L_Start = 6" | "lrank L_Open = 5" | "lrank L_Create1 = 4" | "lrank L_Create2 = 3" | "lrank L_Join1 = 2"
| "lrank L_Join2 = 1" | "lrank (L_Exited c) = 0" | "lrank L_Undefined = 0"

text \<open>Each turn of the loop reads at least one byte.\<close>

definition flock_measure :: "flock_state \<Rightarrow> nat" where
  "flock_measure s = lrank (flmain s) + frank (fpc s Writer1) + frank (fpc s Writer2) +
     2 * (length (fdata s) - fpos s)"

definition flock_actors :: "flock_actor set" where
  "flock_actors = {Flock_Main, Writer Writer1, Writer Writer2}"

lemma unread_overwrite:
  "length (overwrite xs n ys) - (n + length ys) \<le> length xs - n"
  by (simp add: overwrite_def min_def diff_le_mono2)

lemma thread_down:
  assumes "mod_file_thread (fpc s w) w s = Some s'"
  shows "frank (fpc s' w) + 2 * (length (fdata s') - fpos s') < frank (fpc s w) + 2 * (length (fdata s) - fpos s)"
proof (cases "fpc s w")
  case F_Gets
  show ?thesis
  proof (cases "fgets 1024 (drop (fpos s) (fdata s))")
    case (Some p)
    then obtain l rest where f: "fgets 1024 (drop (fpos s) (fdata s)) = Some (l, rest)" by (cases p) auto
    with assms F_Gets have s': "s' = goto_f w (F_Echo l) (s\<lparr>fpos := fpos s + length l\<rparr>)" by simp
    have w: "drop (fpos s) (fdata s) = l @ rest" "l \<noteq> []" using fgets_pieces [OF f] by blast+
    have "length (fdata s) - fpos s = length l + length rest" using arg_cong [OF w(1), of length] by simp
    moreover from this have "length (fdata s) - (fpos s + length l) = length rest" by (metis diff_diff_left add_diff_cancel_left')
    ultimately show ?thesis using w(2) by (cases l) (simp_all add: s' F_Gets)
  next
    case None
    with assms F_Gets have "s' = goto_f w F_Add s"
      by (simp only: mod_file_thread.simps option.case option.inject)
    then show ?thesis using F_Gets by simp
  qed
next
  case F_Puts
  with assms unread_overwrite [of "fdata s" "fpos s" hello_world] show ?thesis by auto
qed (use assms in \<open>auto split: if_splits\<close>)

lemma flock_measure_down:
  assumes "flock_calm argv a s = Some s'" and c: "flock_ctl s" 
  shows "flock_measure s' < flock_measure s"
  using assms(1)
proof (cases rule: flock_calm_cases)
  case main
  with c show ?thesis
    by (cases "flmain s")
      (auto simp: flock_measure_def show_text_def flock_ctl_def existing_def writer_all split: if_splits)
next
  case (writer w)
  with thread_frame [OF writer(3)] thread_down [OF writer(3)] show ?thesis
    by (cases w) (simp_all add: flock_measure_def)
qed

lemma section_pc_moves:
  "\<not> before p \<Longrightarrow> p \<noteq> F_Done \<Longrightarrow> mod_file_thread p t s \<noteq> None"
  by (cases p) (simp_all split: option.splits)

lemma flock_some_move:
  assumes r: "reach (flock_calm argv) (flock_init d) s" and live: "\<not> flock_gone s" and args: "2 \<le> length argv"
  shows "\<exists>a\<in>flock_actors. flock_calm argv a s \<noteq> None"
proof (cases "flock_main argv (flmain s) s")
  case None
  have c: "flock_ctl s" by (rule flock_ctl_reach [OF r args])
  with None live obtain w where w: "fpc s w \<noteq> F_Done" "fpc s w \<noteq> F_None"
    by (cases "flmain s") (auto simp: flock_gone_def flock_ctl_def existing_def writer_all split: if_splits)
  have "\<exists>v. mod_file_thread (fpc s v) v s \<noteq> None"
  proof (cases "flock s")
    case None
    with w show ?thesis by (intro exI [of _ w]) (cases "fpc s w"; simp split: option.splits)
  next
    case (Some k)
    then obtain v where "in_stream v s" using stream_lock.free_iff [OF r] by auto
    then have "\<not> before (fpc s v)" "fpc s v \<noteq> F_Done" by (auto simp: in_stream_def)
    with section_pc_moves show ?thesis by blast
  qed
  then obtain v where "mod_file_thread (fpc s v) v s \<noteq> None" by blast
  moreover have "flmain s \<noteq> L_Undefined" using c by (auto simp: flock_ctl_def)
  ultimately have "flock_calm argv (Writer v) s \<noteq> None" using live by (simp add: flock_over_def)
  moreover have "Writer v \<in> flock_actors" by (cases v) (simp_all add: flock_actors_def)
  ultimately show ?thesis by blast
next
  case (Some s')
  then have "flock_calm argv Flock_Main s \<noteq> None" by simp
  then show ?thesis by (auto simp: flock_actors_def)
qed

lemma flock_strict:
  assumes "2 \<le> length argv"
  shows "strict_termination (flock_calm argv) (flock_init d) flock_actors flock_measure flock_gone"
proof unfold_locales
  fix s a t
  assume "reach (flock_calm argv) (flock_init d) s" and "flock_calm argv a s = Some t"
  then show "flock_measure t < flock_measure s"
    using flock_measure_down flock_ctl_reach [OF _ assms] by blast
next
  fix s a
  assume "flock_gone s"
  then show "flock_calm argv a s = None"
    by (cases a) (auto simp: flock_gone_def flock_over_def split: flock_main_pc.splits)
next
  fix s
  assume "reach (flock_calm argv) (flock_init d) s" and "\<not> flock_gone s"
  then show "\<exists>a\<in>flock_actors. flock_calm argv a s \<noteq> None"
    using flock_some_move [OF _ _ assms] by blast
qed

section \<open>A dead owner\<close>

text \<open>\<open>t\<close> has ended without unlocking, and \<open>main\<close> has not yet waited for the other thread.\<close>

definition orphaned :: "writer \<Rightarrow> flock_state \<Rightarrow> bool" where
  "orphaned t s \<longleftrightarrow> flock s = Some t \<and> fpc s t = F_Done \<and> (\<forall>u. u \<noteq> t \<longrightarrow> before (fpc s u)) \<and>
     (case t of Writer1 \<Rightarrow> flmain s = L_Create2 \<or> flmain s = L_Join1 \<or> flmain s = L_Join2 \<or>
         flmain s = L_Undefined \<and> fpc s Writer2 = F_None
      | Writer2 \<Rightarrow> flmain s = L_Join1 \<or> flmain s = L_Undefined \<and> fpc s Writer1 = F_None)"

lemma orphaned_step:
  assumes o: "orphaned t s" and st: "flock_step argv a s = Some s'" shows "orphaned t s'"
proof (cases a)
  case Flock_Main
  then have "flock_main argv (flmain s) s = Some s'" using st by simp
  then show ?thesis using o
    by (cases t; cases "flmain s") (auto simp: orphaned_def writer_all split: if_splits)
next
  case (Writer w)
  then have m: "mod_file_thread (fpc s w) w s = Some s'" and "flmain s \<noteq> L_Undefined"
    using st by (auto simp: flock_over_def split: if_splits)
  have w: "w \<noteq> t" using m o by (auto simp: orphaned_def)
  then have "before (fpc s w)" and l: "flock s = Some t" using o by (auto simp: orphaned_def)
  then have "s' = goto_f w F_Lock (show_text (Start_Line w) s)" using m by (cases "fpc s w") (auto split: if_splits)
  then show ?thesis using o w \<open>flmain s \<noteq> L_Undefined\<close> by (cases t) (simp_all add: orphaned_def)
next
  case (Gets_Fails w)
  with o st show ?thesis by (cases "w = t") (auto simp: orphaned_def split: if_splits)
next
  case (Puts_Fails w e)
  with o st show ?thesis by (cases "w = t") (auto simp: orphaned_def split: if_splits)
next
  case (Fopen_Fails e)
  with o st show ?thesis by (cases t) (auto simp: orphaned_def split: if_splits)
next
  case Thread_Fails
  with o st show ?thesis by (cases t) (auto simp: orphaned_def split: if_splits)
qed

lemma orphaned_run: "orphaned t s \<Longrightarrow> orphaned t (run_schedule (flock_step argv) as s)"
  by (rule run_schedule_keeps) (rule orphaned_step)

lemma orphaned_not_gone:
  "orphaned t s \<Longrightarrow> u \<noteq> t \<Longrightarrow> \<not> flock_gone s \<and> (flmain s = L_Undefined \<longrightarrow> fpc s u = F_None)"
  by (cases t; cases u) (auto simp: orphaned_def flock_gone_def)

section \<open>Properties\<close>

text \<open>
  C37: when the thread that comes first cannot write, it ends with the stream locked: from then on
  \<open>main\<close> never returns, whatever is scheduled and whatever else fails; the wait ends only if
  the creation of the other thread fails, with the undefined join of a thread that does not exist.
\<close>
theorem flock_deadlock:
  assumes "reach (flock_step argv) (flock_init d) s" and "before (fpc s u)" and "u \<noteq> t"
    and "flock_step argv (Puts_Fails t e) s = Some s'" and "z = run_schedule (flock_step argv) as s'"
  shows "\<not> flock_gone z \<and> (flmain z = L_Undefined \<longrightarrow> fpc z u = F_None)"
proof -
  have g: "\<And>t. guarded s t" using flock_run.inv_reach [OF assms(1)] by blast
  have st: "fpc s t = F_Puts" "\<not> flock_over s"
    "s' = goto_f t F_Done (s\<lparr>ferr := ferr s @ perror_text ''fputs error: '' e\<rparr>)"
    using assms(4) by (auto split: if_splits)
  have "flock s = Some t" using g [of t] st(1) by (simp add: guarded_def)
  moreover have "existing (flmain s) t" "\<not> waited_for (flmain s) t" "\<not> waited_for (flmain s) u"
    using g [of t] g [of u] st(1) assms(2) by (auto simp: guarded_def)
  moreover have "\<forall>v. v \<noteq> t \<longrightarrow> before (fpc s v)" using assms(2,3) by (metis writer.exhaust)
  ultimately have "orphaned t s'"
    using st(2) assms(3)
    by (cases t; cases u; cases "flmain s") (auto simp: orphaned_def st(3) existing_def waited_for_def flock_gone_def flock_over_def)
  then show ?thesis unfolding assms(5) using orphaned_run orphaned_not_gone [OF _ assms(3)] by blast
qed

definition flock_failing_run :: flock_state where
  "flock_failing_run = run_schedule (flock_step [''flock'', ''data''])
     (replicate 4 Flock_Main @ replicate 5 (Writer Writer1)) (flock_init [])"

theorem flock_deadlock_witness:
  "\<not> flock_gone (run_schedule (flock_step [''flock'', ''data'']) (replicate 100 Flock_Main)
     (the (flock_step [''flock'', ''data''] (Puts_Fails Writer1 ''No space left on device'') flock_failing_run)))"
proof -
  have r: "reach (flock_step [''flock'', ''data'']) (flock_init []) flock_failing_run"
    unfolding flock_failing_run_def by (rule reach_run_schedule [OF reach_init])
  have p: "fpc flock_failing_run Writer1 = F_Puts" "before (fpc flock_failing_run Writer2)" "\<not> flock_over flock_failing_run"
    by code_simp+
  then obtain s' where s': "flock_step [''flock'', ''data''] (Puts_Fails Writer1 ''No space left on device'') flock_failing_run = Some s'"
    by simp
  from flock_deadlock [OF r p(2) _ s' refl] s' show ?thesis by simp
qed

end
