(* ===== verification/Stream_Sections.thy ===== *)
theory Stream_Sections
  imports Stream_Lock
begin

text \<open>
  What \<open>flock_example.c\<close> promises: a section between \<open>flockfile\<close> and \<open>funlockfile\<close> is one step on the
  file, its position and the output. The refinement holds with any failing calls; from it follows
  the result of the runs without a failure.
\<close>

section \<open>The specification\<close>

record stream =
  contents :: bytes
  place :: nat
  texts :: "shown list"

definition new_stream :: "bytes \<Rightarrow> stream" where
  "new_stream d = \<lparr>contents = d, place = 0, texts = []\<rparr>"

text \<open>What one thread prints while it holds the stream, with the lines it has read.\<close>

definition echo :: "writer \<Rightarrow> string list \<Rightarrow> shown list" where
  "echo t ls = map (\<lambda>l. Section t (cstr l)) ls"

definition whole_section :: "writer \<Rightarrow> string list \<Rightarrow> shown list" where
  "whole_section t ls = Section t contents_line # echo t ls @ [Section t add_line, Section t unlock_line]"

text \<open>\<open>ls\<close> are the first lines that \<open>fgets\<close> gets from \<open>i\<close>, and \<open>rest\<close> is still to be read.\<close>

definition lines_read :: "string list \<Rightarrow> bytes \<Rightarrow> bytes \<Rightarrow> bool" where
  "lines_read ls i rest \<longleftrightarrow> i = concat ls @ rest \<and> file_lines i = ls @ file_lines rest"

text \<open>
  One section as a whole: lines are read and printed, all of them if \<open>entire\<close>, then the new line is
  written where the reading has ended.
\<close>

inductive stream_section :: "bool \<Rightarrow> writer \<Rightarrow> stream \<Rightarrow> stream \<Rightarrow> bool" for entire :: bool where
  "lines_read ls (drop (place v) (contents v)) rest \<Longrightarrow> entire \<longrightarrow> rest = [] \<Longrightarrow> p = place v + length (concat ls) \<Longrightarrow>
   stream_section entire t v \<lparr>contents = overwrite (contents v) p hello_world, place = p + length hello_world,
     texts = texts v @ whole_section t ls\<rparr>"

lemma lines_read_none: "lines_read [] i i"
  by (simp add: lines_read_def)

lemma lines_read_snoc:
  assumes "lines_read ls i j" and "fgets 1024 j = Some (l, rest)" shows "lines_read (ls @ [l]) i rest"
proof -
  have "j = l @ rest" "file_lines j = l # file_lines rest"
    using fgets_pieces [OF assms(2)] file_lines_step [OF assms(2)] by blast+
  with assms(1) show ?thesis unfolding lines_read_def by (metis append.assoc append_Cons append_Nil concat.simps concat_append)
qed

lemma lines_read_end: "lines_read ls i [] \<Longrightarrow> ls = file_lines i \<and> concat ls = i"
  unfolding lines_read_def by (metis append_Nil2 file_lines_Nil)

section \<open>The program as seen from outside the sections\<close>

text \<open>
  A section takes effect with its write. Before, the lines read and printed are hidden; afterwards
  the line that reports the end is certain to come, and counts as printed.
\<close>

fun wrote :: "writer_pc \<Rightarrow> bool" where
  "wrote F_Sleep = True" | "wrote F_Finish = True" | "wrote F_Unlock = True" | "wrote F_Exit = True" | "wrote _ = False"

definition served :: "flock_state \<Rightarrow> writer \<Rightarrow> bool" where
  "served s t \<longleftrightarrow> wrote (fpc s t) \<or> fpc s t = F_Done \<and> flock s \<noteq> Some t"

fun pending_line :: "writer_pc \<Rightarrow> string list" where
  "pending_line (F_Echo l) = [l]" | "pending_line _ = []"

fun begun :: "writer \<Rightarrow> writer_pc \<Rightarrow> string list \<Rightarrow> shown list" where
  "begun t F_Header ls = []"
| "begun t F_Puts ls = Section t contents_line # echo t ls @ [Section t add_line]"
| "begun t F_Done ls = Section t contents_line # echo t ls @ [Section t add_line]"
| "begun t _ ls = Section t contents_line # echo t ls"

fun still_to_print :: "writer \<Rightarrow> writer_pc \<Rightarrow> shown list" where
  "still_to_print t F_Sleep = [Section t unlock_line]"
| "still_to_print t F_Finish = [Section t unlock_line]"
| "still_to_print t _ = []"

definition inside_before :: "bool \<Rightarrow> writer \<Rightarrow> flock_state \<Rightarrow> stream \<Rightarrow> string list \<Rightarrow> bool" where
  "inside_before entire t s v ls \<longleftrightarrow>
     fdata s = contents v \<and> sections s = texts v @ begun t (fpc s t) ls \<and>
     fpos s = place v + length (concat (ls @ pending_line (fpc s t))) \<and>
     lines_read (ls @ pending_line (fpc s t)) (drop (place v) (contents v)) (drop (fpos s) (fdata s)) \<and>
     (fpc s t = F_Header \<longrightarrow> ls = []) \<and>
     (entire \<and> fpc s t \<in> {F_Add, F_Puts} \<longrightarrow> drop (fpos s) (fdata s) = [])"

definition inside_after :: "writer \<Rightarrow> flock_state \<Rightarrow> stream \<Rightarrow> bool" where
  "inside_after t s v \<longleftrightarrow> fdata s = contents v \<and> fpos s = place v \<and> texts v = sections s @ still_to_print t (fpc s t)"

definition stream_sim :: "bool \<Rightarrow> flock_state \<Rightarrow> writer set \<times> stream \<Rightarrow> bool" where
  "stream_sim entire s V \<longleftrightarrow> fst V = {t. served s t} \<and> (case flock s of
     None \<Rightarrow> fdata s = contents (snd V) \<and> fpos s = place (snd V) \<and> sections s = texts (snd V)
   | Some t \<Rightarrow> \<not> before (fpc s t) \<and> fpc s t \<noteq> F_Exit \<and>
       (if wrote (fpc s t) then inside_after t s (snd V) else \<exists>ls. inside_before entire t s (snd V) ls))"

lemma stream_sim_locked:
  "flock s = Some t \<Longrightarrow> stream_sim entire s V \<longleftrightarrow> fst V = {t. served s t} \<and> \<not> before (fpc s t) \<and> fpc s t \<noteq> F_Exit \<and>
     (if wrote (fpc s t) then inside_after t s (snd V) else \<exists>ls. inside_before entire t s (snd V) ls)"
  by (simp add: stream_sim_def)

text \<open>A move of a thread outside its section.\<close>

lemma sim_outside:
  assumes "stream_sim entire s V" and "flock s' = flock s" and "\<And>u. flock s = Some u \<Longrightarrow> fpc s' u = fpc s u"
    and "fdata s' = fdata s" "fpos s' = fpos s" "sections s' = sections s" and "\<And>u. served s' u = served s u"
  shows "stream_sim entire s' V"
proof (cases "flock s")
  case (Some u)
  then have "inside_before entire u s' = inside_before entire u s" "inside_after u s' = inside_after u s"
    using assms(3-6) by (auto simp: inside_before_def inside_after_def fun_eq_iff)
  with assms Some show ?thesis by (simp add: stream_sim_def)
qed (use assms in \<open>simp add: stream_sim_def\<close>)

text \<open>Moves of the thread that holds the stream: no other thread changes.\<close>

lemma sim_inside:
  assumes "stream_sim entire s V" and "flock s = Some t" and "flock s' = Some t" and "\<And>u. u \<noteq> t \<Longrightarrow> fpc s' u = fpc s u"
    and "\<not> wrote (fpc s t)" "\<not> wrote (fpc s' t)" and "\<not> before (fpc s' t)" "fpc s' t \<noteq> F_Exit"
    and "\<And>ls. inside_before entire t s (snd V) ls \<Longrightarrow> \<exists>ls. inside_before entire t s' (snd V) ls"
  shows "stream_sim entire s' V"
proof -
  have "served s' u = served s u" for u using assms(2-6) by (cases "u = t") (simp_all add: served_def)
  with assms show ?thesis by (auto simp: stream_sim_def)
qed

lemma header_move:
  assumes "inside_before entire t s v ls" and "fpc s t = F_Header" and "s' = goto_f t F_Gets (show_text (Section t contents_line) s)"
  shows "inside_before entire t s' v []"
  using assms by (auto simp: inside_before_def echo_def)

lemma gets_move:
  assumes i: "inside_before entire t s v ls" and pc: "fpc s t = F_Gets" and st: "mod_file_thread F_Gets t s = Some s'"
  shows "inside_before entire t s' v ls"
proof (cases "fgets 1024 (drop (fpos s) (fdata s))")
  case None
  then have e: "drop (fpos s) (fdata s) = []" by simp
  have s': "s' = goto_f t F_Add s" using st None by (simp only: mod_file_thread.simps option.case option.inject)
  have "fpc s' t = F_Add" "fpos s' = fpos s" "fdata s' = fdata s" "sections s' = sections s" by (simp_all add: s')
  then show ?thesis using i pc e unfolding inside_before_def by simp
next
  case (Some lr)
  obtain l rest where f: "fgets 1024 (drop (fpos s) (fdata s)) = Some (l, rest)" using Some by (cases lr) simp
  have s': "s' = goto_f t (F_Echo l) (s\<lparr>fpos := fpos s + length l\<rparr>)" using st f by simp
  have "lines_read ls (drop (place v) (contents v)) (drop (fpos s) (fdata s))"
    using i unfolding inside_before_def pc pending_line.simps append_Nil2 by blast
  from lines_read_snoc [OF this f] have "lines_read (ls @ [l]) (drop (place v) (contents v)) rest" .
  moreover have "rest = drop (fpos s + length l) (fdata s)"
    using fgets_pieces [OF f] by (metis add.commute append_eq_conv_conj drop_drop)
  ultimately show ?thesis using i pc by (simp add: inside_before_def s')
qed

lemma echo_move:
  assumes "inside_before entire t s v ls" and "fpc s t = F_Echo l" and "s' = goto_f t F_Gets (show_text (Section t (cstr l)) s)"
  shows "inside_before entire t s' v (ls @ [l])"
  using assms by (auto simp: inside_before_def echo_def)

lemma add_move:
  assumes "inside_before entire t s v ls" and "fpc s t = F_Add" and "s' = goto_f t F_Puts (show_text (Section t add_line) s)"
  shows "inside_before entire t s' v ls"
  using assms by (auto simp: inside_before_def)

text \<open>The write, with which the section takes effect.\<close>

lemma puts_move:
  assumes i: "inside_before entire t s v ls" and pc: "fpc s t = F_Puts"
    and s': "s' = goto_f t F_Sleep (s\<lparr>fdata := overwrite (fdata s) (fpos s) hello_world, fpos := fpos s + length hello_world\<rparr>)"
  shows "\<exists>w. stream_section entire t v w \<and> inside_after t s' w"
proof -
  let ?w = "\<lparr>contents = overwrite (contents v) (fpos s) hello_world, place = fpos s + length hello_world,
    texts = texts v @ whole_section t ls\<rparr>"
  have "stream_section entire t v ?w"
    using i pc by (intro stream_section.intros [where rest = "drop (fpos s) (fdata s)"]) (auto simp: inside_before_def)
  moreover have "inside_after t s' ?w"
    using i pc by (simp add: inside_before_def inside_after_def s' whole_section_def)
  ultimately show ?thesis by blast
qed

lemma sim_puts:
  assumes sim: "stream_sim entire s V" and o: "flock s = Some t" and pc: "fpc s t = F_Puts"
    and s': "s' = goto_f t F_Sleep (s\<lparr>fdata := overwrite (fdata s) (fpos s) hello_world, fpos := fpos s + length hello_world\<rparr>)"
  shows "\<exists>W. once (stream_section entire) V W \<and> stream_sim entire s' W"
proof -
  obtain T v where V: "V = (T, v)" by (cases V)
  from sim o pc obtain ls where i: "inside_before entire t s v ls" and T: "T = {u. served s u}"
    by (auto simp: V stream_sim_locked)
  obtain w where w: "stream_section entire t v w" "inside_after t s' w" using puts_move [OF i pc s'] by blast
  have "served s' u \<longleftrightarrow> u = t \<or> served s u" for u using o by (auto simp: s' served_def)
  then have "stream_sim entire s' (insert t T, w)"
    using w(2) o T by (subst stream_sim_locked [of _ t]) (auto simp: s')
  moreover have "t \<notin> T" using T o pc by (simp add: served_def)
  ultimately show ?thesis using once.acts [of t T "stream_section entire" v w] w(1) V by blast
qed

text \<open>After the write the section only prints its last line and unlocks.\<close>

lemma sim_after:
  assumes sim: "stream_sim entire s V" and o: "flock s = Some t" and pc: "fpc s t \<in> {F_Sleep, F_Finish, F_Unlock}"
    and st: "mod_file_thread (fpc s t) t s = Some s'"
  shows "stream_sim entire s' V"
proof -
  have i: "inside_after t s (snd V)" and T: "fst V = {u. served s u}" using sim o pc by (auto simp: stream_sim_locked)
  have "fpc s' u = fpc s u" if "u \<noteq> t" for u using thread_frame [OF st] that by blast
  moreover have "wrote (fpc s' t)" "wrote (fpc s t)" "flock s' = None \<or> flock s' = Some t" using pc st o by auto
  ultimately have "served s' u = served s u" for u using o by (cases "u = t") (auto simp: served_def)
  with T have T': "fst V = {u. served s' u}" by simp
  from pc show ?thesis
  proof (elim insertE emptyE)
    assume "fpc s t = F_Unlock"
    with st i T' show ?thesis by (auto simp: stream_sim_def inside_after_def)
  qed (use st i T' o in \<open>auto simp: stream_sim_locked inside_after_def\<close>)
qed

lemma sim_reading:
  assumes sim: "stream_sim entire s V" and o: "flock s = Some t" and st: "mod_file_thread (fpc s t) t s = Some s'"
    and pc: "fpc s t = F_Header \<or> fpc s t = F_Gets \<or> (\<exists>l. fpc s t = F_Echo l) \<or> fpc s t = F_Add"
  shows "stream_sim entire s' V"
proof (rule sim_inside [OF sim o])
  show "flock s' = Some t" "\<not> wrote (fpc s t)" "\<not> wrote (fpc s' t)" "\<not> before (fpc s' t)" "fpc s' t \<noteq> F_Exit"
    using pc st o by (auto split: option.splits prod.splits)
  show "fpc s' u = fpc s u" if "u \<noteq> t" for u using thread_frame [OF st] that by blast
  fix ls assume i: "inside_before entire t s (snd V) ls"
  from pc show "\<exists>ls. inside_before entire t s' (snd V) ls"
  proof (elim disjE exE)
    assume "fpc s t = F_Gets"
    with gets_move [OF i] st show ?thesis by metis
  next
    assume "fpc s t = F_Header"
    with header_move [OF i] st show ?thesis by fastforce
  next
    fix l assume "fpc s t = F_Echo l"
    with echo_move [OF i] st show ?thesis by fastforce
  next
    assume "fpc s t = F_Add"
    with add_move [OF i] st show ?thesis by fastforce
  qed
qed

lemma sim_enters:
  assumes sim: "stream_sim entire s V" and pc: "fpc s t = F_Lock" and st: "mod_file_thread (fpc s t) t s = Some s'"
  shows "stream_sim entire s' V"
proof -
  have n: "flock s = None" and s': "s' = goto_f t F_Header (s\<lparr>flock := Some t\<rparr>)" using st pc by (simp_all split: if_splits)
  have "served s' u = served s u" for u using pc n by (auto simp: s' served_def)
  moreover have "inside_before entire t s' (snd V) []" using sim n by (simp add: stream_sim_def inside_before_def s' lines_read_none)
  ultimately show ?thesis using sim n by (auto simp: stream_sim_def s')
qed

lemma sim_thread:
  assumes sim: "stream_sim entire s V" and g: "guarded s t" and st: "mod_file_thread (fpc s t) t s = Some s'"
  shows "stream_sim entire s' V \<or> (\<exists>W. once (stream_section entire) V W \<and> stream_sim entire s' W)"
proof -
  have own: "flock s = Some t" if "\<not> before (fpc s t)" "\<not> after (fpc s t)" using g that by (simp add: guarded_def)
  have outside: "stream_sim entire s' V" if "fpc s t = F_Start \<or> fpc s t = F_Exit"
  proof -
    have "flock s \<noteq> Some t" using sim that by (auto simp: stream_sim_locked)
    then show ?thesis using that st by (intro sim_outside [OF sim]) (auto simp: served_def split: if_splits)
  qed
  show ?thesis
  proof (cases "fpc s t")
    case F_Puts
    with sim_puts [OF sim own F_Puts] st show ?thesis by simp
  next
    case F_Lock
    with sim_enters [OF sim _ st] show ?thesis by blast
  qed (use st outside sim_reading [OF sim own st] sim_after [OF sim own _ st] in simp_all)
qed

text \<open>The moves of \<open>main\<close> change no section.\<close>

lemma sim_main:
  assumes sim: "stream_sim entire s V" and g: "\<forall>t. guarded s t" and st: "flock_main argv (flmain s) s = Some s'"
  shows "stream_sim entire s' V"
proof -
  have none: "fpc s t = F_None" if "\<not> existing (flmain s) t" for t using g that by (auto simp: guarded_def)
  have pc: "fpc s' t = fpc s t \<or> fpc s t = F_None \<and> fpc s' t = F_Start" for t
    using st none by (cases t; cases "flmain s") (auto simp: existing_def show_text_def split: if_splits)
  have l: "flock s' = flock s" by (rule main_keeps_lock(1) [OF st g])
  have same: "fdata s' = fdata s" "fpos s' = fpos s" "sections s' = sections s"
    using st by (cases "flmain s"; auto simp: show_text_def sections_def goto_f_def split: if_splits)+
  show ?thesis
  proof (rule sim_outside [OF sim l])
    show "fpc s' u = fpc s u" if "flock s = Some u" for u using pc [of u] sim that by (auto simp: stream_sim_locked)
    show "served s' u = served s u" for u using pc [of u] l by (auto simp: served_def)
  qed (rule same)+
qed

text \<open>A failing \<open>fgets\<close> ends the reading early, a failing \<open>fputs\<close> leaves a section that never takes effect.\<close>

lemma sim_failure:
  assumes sim: "stream_sim False s V" and g: "\<forall>t. guarded s t" and st: "flock_step argv a s = Some s'"
    and a: "a = Gets_Fails t \<or> a = Puts_Fails t e"
  shows "stream_sim False s' V"
proof (rule sim_inside [OF sim, of t])
  have pc: "a = Gets_Fails t \<and> fpc s t = F_Gets \<and> s' = goto_f t F_Add s \<or>
      a = Puts_Fails t e \<and> fpc s t = F_Puts \<and> s' = goto_f t F_Done (s\<lparr>ferr := ferr s @ perror_text ''fputs error: '' e\<rparr>)"
    using st a by (auto split: if_splits)
  moreover have "guarded s t" using g by blast
  ultimately show "flock s = Some t" "flock s' = Some t" by (auto simp: guarded_def)
  show "fpc s' u = fpc s u" if "u \<noteq> t" for u using pc that by auto
  show "\<not> wrote (fpc s t)" "\<not> wrote (fpc s' t)" "\<not> before (fpc s' t)" "fpc s' t \<noteq> F_Exit" using pc by auto
  show "\<exists>ls. inside_before False t s' (snd V) ls" if "inside_before False t s (snd V) ls" for ls
    using pc that by (intro exI [of _ ls]) (auto simp: inside_before_def)
qed

lemma sim_init: "stream_sim entire (flock_init d) ({}, new_stream d)"
  by (simp add: stream_sim_def flock_init_def served_def new_stream_def sections_def)

interpretation flock_serial: serial_sections "flock_step argv" "flock_init d" "stream_section False" "new_stream d"
  "stream_sim False" for argv d
proof (unfold_locales, rule sim_init)
  fix s V a s'
  assume r: "reach (flock_step argv) (flock_init d) s" and sim: "stream_sim False s V" and st: "flock_step argv a s = Some s'"
  have g: "\<forall>t. guarded s t" by (rule flock_run.inv_reach [OF r])
  show "stream_sim False s' V \<or> (\<exists>W. once (stream_section False) V W \<and> stream_sim False s' W)"
  proof (cases a)
    case Flock_Main
    with sim_main [OF sim g] st show ?thesis by simp
  next
    case (Writer t)
    with st have "mod_file_thread (fpc s t) t s = Some s'" by (simp split: if_splits)
    with sim_thread [OF sim] g show ?thesis by blast
  next
    case (Fopen_Fails e)
    with st have "stream_sim False s' V" by (intro sim_outside [OF sim]) (auto simp: served_def sections_def split: if_splits)
    then show ?thesis ..
  next
    case Thread_Fails
    with st have "stream_sim False s' V" by (intro sim_outside [OF sim]) (auto simp: served_def sections_def split: if_splits)
    then show ?thesis ..
  qed (use sim_failure [OF sim g st] in blast)+
qed

interpretation flock_calm_serial: serial_sections "flock_calm argv" "flock_init d" "stream_section True" "new_stream d"
  "stream_sim True" for argv d
proof (unfold_locales, rule sim_init)
  fix s V a s'
  assume r: "reach (flock_calm argv) (flock_init d) s" and sim: "stream_sim True s V" and st: "flock_calm argv a s = Some s'"
  have g: "\<forall>t. guarded s t" by (rule flock_run.inv_reach [OF reach_calm [OF r]])
  from st show "stream_sim True s' V \<or> (\<exists>W. once (stream_section True) V W \<and> stream_sim True s' W)"
  proof (cases rule: flock_calm_cases)
    case main
    with sim_main [OF sim g] show ?thesis by blast
  next
    case (writer t)
    with sim_thread [OF sim] g show ?thesis by blast
  qed
qed

section \<open>Properties\<close>

text \<open>
  C14: whatever is scheduled and whatever fails, the states of a run are related, one by one, to those
  of a run of the specification, in which each section is one step. In particular, whenever the stream
  is not locked, the file, the position and the texts of the sections are those that some
  threads, each at most once, leave by complete sections one after the other.
\<close>
theorem flock_refines:
  "(\<exists>vs. list_all2 (stream_sim False) (run_states (flock_step argv) as (flock_init d)) vs \<and>
     spec_run (once (stream_section False))\<^sup>=\<^sup>= ({}, new_stream d) vs) \<and>
   (let s = run_schedule (flock_step argv) as (flock_init d) in
     \<exists>ts e. distinct ts \<and> set ts = {t. served s t} \<and> in_turn (stream_section False) ts (new_stream d) e \<and>
       (flock s \<noteq> None \<or> fdata s = contents e \<and> fpos s = place e \<and> sections s = texts e))"
proof -
  define s where "s = run_schedule (flock_step argv) as (flock_init d)"
  have "reach (flock_step argv) (flock_init d) s" unfolding s_def by (rule reach_run_schedule [OF reach_init])
  from flock_serial.reach_serial [OF this] obtain ts e where
    "distinct ts" "in_turn (stream_section False) ts (new_stream d) e" "stream_sim False s (set ts, e)" by blast
  then have "\<exists>ts e. distinct ts \<and> set ts = {t. served s t} \<and> in_turn (stream_section False) ts (new_stream d) e \<and>
       (flock s \<noteq> None \<or> fdata s = contents e \<and> fpos s = place e \<and> sections s = texts e)"
    by (intro exI [of _ ts] exI [of _ e]) (auto simp: stream_sim_def)
  with flock_serial.run_followed show ?thesis by (simp add: s_def Let_def)
qed

definition stream_example :: flock_state where
  "stream_example = run_schedule (flock_step [''flock'', ''data''])
     (replicate 4 Flock_Main @ replicate 3 (Writer Writer2) @ [Gets_Fails Writer2] @ replicate 5 (Writer Writer2) @
      replicate 11 (Writer Writer1)) (flock_init [CHR ''x'', nl])"

text \<open>
  In the example the second thread comes first and cannot read: it overwrites the beginning of the
  file, and the first thread finds nothing more to read.
\<close>

theorem flock_refines_witness:
  "\<exists>ts e. distinct ts \<and> set ts = {t. served stream_example t} \<and>
     in_turn (stream_section False) ts (new_stream [CHR ''x'', nl]) e \<and>
     contents e = hello_world @ hello_world \<and> texts e = whole_section Writer2 [] @ whole_section Writer1 []"
proof -
  have r: "flock stream_example = None" "fdata stream_example = hello_world @ hello_world"
    "sections stream_example = whole_section Writer2 [] @ whole_section Writer1 []" by code_simp+
  obtain ts e where "distinct ts" "set ts = {t. served stream_example t}"
    "in_turn (stream_section False) ts (new_stream [CHR ''x'', nl]) e"
    "flock stream_example \<noteq> None \<or> fdata stream_example = contents e \<and> fpos stream_example = place e \<and>
      sections stream_example = texts e"
    using flock_refines [of "[''flock'', ''data'']" "replicate 4 Flock_Main @ replicate 3 (Writer Writer2) @
      [Gets_Fails Writer2] @ replicate 5 (Writer Writer2) @ replicate 11 (Writer Writer1)" "[CHR ''x'', nl]"]
    unfolding Let_def stream_example_def [symmetric] by blast
  with r show ?thesis by metis
qed

lemma overwrite_end: "overwrite xs (length xs) ys = xs @ ys"
  by (simp add: overwrite_def)

text \<open>Without a failure the first section shows the whole file and the second one no line.\<close>

lemma full_section:
  assumes "stream_section True t v w" and "place v = 0 \<or> place v = length (contents v)"
  shows "w = \<lparr>contents = contents v @ hello_world, place = length (contents v @ hello_world),
    texts = texts v @ whole_section t (file_lines (drop (place v) (contents v)))\<rparr>"
  using assms(1)
proof (cases rule: stream_section.cases)
  case (1 ls rest p)
  then have ls: "ls = file_lines (drop (place v) (contents v))" "concat ls = drop (place v) (contents v)"
    using lines_read_end by auto
  then have "p = length (contents v)" using 1(4) assms(2) by auto
  with 1(1) ls(1) show ?thesis by (simp add: overwrite_end)
qed

text \<open>
  C17: without a failing call every schedule ends with status 0 after as many rounds as the
  measure asks for (32 and two for each byte of the file); the file is the old contents and two
  added lines, and the two threads' sections stand one behind the other: the first one shows
  the whole old file, the second one no line at all.
\<close>
theorem flock_result:
  assumes "2 \<le> length argv" and "\<forall>r\<in>set rounds. flock_actors \<subseteq> set r" and "33 + 2 * length d \<le> length rounds"
    and "s = run_schedule (flock_calm argv) (concat rounds) (flock_init d)"
  shows "flmain s = L_Exited 0 \<and> fdata s = d @ hello_world @ hello_world \<and>
    (sections s = whole_section Writer1 (file_lines d) @ whole_section Writer2 [] \<or>
     sections s = whole_section Writer2 (file_lines d) @ whole_section Writer1 [])"
proof -
  have r: "reach (flock_calm argv) (flock_init d) s" unfolding assms(4) by (rule reach_run_schedule [OF reach_init])
  have "flock_measure (flock_init d) < length rounds" using assms(3) by (simp add: flock_measure_def flock_init_def)
  then have g: "flock_gone s" unfolding assms(4)
    by (rule strict_termination.rounds_finish [OF flock_strict [OF assms(1)] assms(2)])
  with flock_ctl_reach [OF r assms(1)] have e: "flmain s = L_Exited 0" and dn: "fpc s t = F_Done" for t
    by (cases t; auto simp: flock_ctl_def flock_gone_def waited_for_def writer_all split: flock_main_pc.splits)+
  have free: "flock s = None" using stream_lock.free_iff [OF r] dn by (simp add: in_stream_def)
  obtain ts v where ts: "distinct ts" "in_turn (stream_section True) ts (new_stream d) v" "stream_sim True s (set ts, v)"
    using flock_calm_serial.reach_serial [OF r] by blast
  then have "set ts = {Writer1, Writer2}" using dn free writer.exhaust by (auto simp: stream_sim_def served_def)
  with distinct_two [OF ts(1)] obtain t u where tu: "ts = [t, u]" "t = Writer1 \<and> u = Writer2 \<or> t = Writer2 \<and> u = Writer1" by blast
  with ts(2) have "v = \<lparr>contents = d @ hello_world @ hello_world, place = length (d @ hello_world @ hello_world),
      texts = whole_section t (file_lines d) @ whole_section u []\<rparr>"
    by (auto simp: new_stream_def dest!: full_section)
  with ts(3) free e tu(2) show ?thesis by (auto simp: stream_sim_def)
qed

theorem flock_result_witness:
  "fdata (run_schedule (flock_calm [''flock'', ''data''])
     (concat (replicate 37 [Flock_Main, Writer Writer2, Writer Writer1])) (flock_init [CHR ''x'', nl])) =
   [CHR ''x'', nl] @ hello_world @ hello_world"
  using flock_result [of "[''flock'', ''data'']" "replicate 37 [Flock_Main, Writer Writer2, Writer Writer1]" "[CHR ''x'', nl]"]
  by (simp add: flock_actors_def)

end
