(* ===== verification/Child_Status.thy ===== *)
theory Child_Status
  imports C_Library
begin

unbundle bit_operations_syntax

text \<open>
  \<open>parent_child_example.c\<close> and \<open>wait_example.c\<close>: a parent waits for its child and reports how it
  ended. The report is read from the bits of a status word with the macros of \<open>sys/wait.h\<close>. What
  the system does (fork and wait failing, a signal that kills the child, the core file) is an
  environment record, as are the contents of the uninitialised \<open>status\<close>.
\<close>

section \<open>The status word\<close>

datatype fate = Exits int | Killed_By nat bool

text \<open>\<open>exit\<close> keeps the low eight bits; bit 7 tells of a core file.\<close>

definition status_of :: "fate \<Rightarrow> 32 word" where
  "status_of f = (case f of
     Exits c \<Rightarrow> push_bit 8 (word_of_int c AND mask 8)
   | Killed_By n core \<Rightarrow> (word_of_nat n AND mask 7) OR (if core then push_bit 7 1 else 0))"

text \<open>\<open>mask 7\<close> is 0x7f, \<open>push_bit 8 (mask 8)\<close> is 0xff00.\<close>

definition WTERMSIG :: "32 word \<Rightarrow> 32 word" where "WTERMSIG s = s AND mask 7"
definition WIFEXITED :: "32 word \<Rightarrow> bool" where "WIFEXITED s \<longleftrightarrow> WTERMSIG s = 0"
definition WEXITSTATUS :: "32 word \<Rightarrow> 32 word" where "WEXITSTATUS s = drop_bit 8 (s AND push_bit 8 (mask 8))"
definition WCOREDUMP :: "32 word \<Rightarrow> bool" where "WCOREDUMP s \<longleftrightarrow> s AND push_bit 7 1 \<noteq> 0"
definition WIFSTOPPED :: "32 word \<Rightarrow> bool" where "WIFSTOPPED s \<longleftrightarrow> s AND mask 8 = mask 7"
definition WSTOPSIG :: "32 word \<Rightarrow> 32 word" where "WSTOPSIG s = WEXITSTATUS s"
definition WIFCONTINUED :: "32 word \<Rightarrow> bool" where "WIFCONTINUED s \<longleftrightarrow> s = mask 16"

text \<open>
  The macro tests \<open>(signed char) (WTERMSIG s + 1) >> 1 > 0\<close>, which fails for 0 and for 127, where
  the sum is -128.
\<close>

definition WIFSIGNALED :: "32 word \<Rightarrow> bool" where
  "WIFSIGNALED s \<longleftrightarrow> WTERMSIG s \<noteq> 0 \<and> WTERMSIG s \<noteq> mask 7"

lemma status_exit:
  "WIFEXITED (status_of (Exits c))" "\<not> WIFSIGNALED (status_of (Exits c))"
  "WEXITSTATUS (status_of (Exits c)) = word_of_int c AND mask 8"
  "\<not> WIFSTOPPED (status_of (Exits c))" "\<not> WIFCONTINUED (status_of (Exits c))"
proof -
  have t: "WTERMSIG (status_of (Exits c)) = 0"
    by (rule bit_word_eqI) (auto simp: WTERMSIG_def status_of_def bit_simps)
  then show "WIFEXITED (status_of (Exits c))" "\<not> WIFSIGNALED (status_of (Exits c))"
    by (simp_all add: WIFEXITED_def WIFSIGNALED_def)
  show "WEXITSTATUS (status_of (Exits c)) = word_of_int c AND mask 8"
    by (rule bit_word_eqI) (auto simp: WEXITSTATUS_def status_of_def bit_simps)
  have b: "\<not> bit (status_of (Exits c)) 0" by (simp add: status_of_def bit_simps)
  have m: "bit (mask 7 :: 32 word) 0" "bit (mask 16 :: 32 word) 0" by (simp_all add: bit_mask_iff)
  show "\<not> WIFSTOPPED (status_of (Exits c))" unfolding WIFSTOPPED_def using b m by (metis bit_and_iff)
  show "\<not> WIFCONTINUED (status_of (Exits c))" unfolding WIFCONTINUED_def using b m by metis
qed

lemma bit_core_flag [simp]: "bit (128 :: 32 word) k \<longleftrightarrow> k = 7" "bit (128 :: int) k \<longleftrightarrow> k = 7" "bit (128 :: nat) k \<longleftrightarrow> k = 7"
proof -
  have "(128 :: 32 word) = 2 ^ 7" "(128 :: int) = 2 ^ 7" "(128 :: nat) = 2 ^ 7" by simp_all
  then show "bit (128 :: 32 word) k \<longleftrightarrow> k = 7" "bit (128 :: int) k \<longleftrightarrow> k = 7" "bit (128 :: nat) k \<longleftrightarrow> k = 7"
    by (simp_all only: bit_exp_iff) auto
qed

lemma status_killed:
  assumes "0 < n" and "n < 127"
  shows "\<not> WIFEXITED (status_of (Killed_By n core))" "WIFSIGNALED (status_of (Killed_By n core))"
    "WTERMSIG (status_of (Killed_By n core)) = word_of_nat n" "WCOREDUMP (status_of (Killed_By n core)) \<longleftrightarrow> core"
    "\<not> WIFSTOPPED (status_of (Killed_By n core))" "\<not> WIFCONTINUED (status_of (Killed_By n core))"
proof -
  let ?s = "status_of (Killed_By n core)"
  have m7: "(mask 7 :: 32 word) = 127" by (simp add: mask_eq_exp_minus_1)
  have n: "(word_of_nat n :: 32 word) AND mask 7 = word_of_nat n"
    using assms by (simp add: take_bit_eq_mask [symmetric] take_bit_of_nat take_bit_nat_eq_self)
  have t: "WTERMSIG ?s = word_of_nat n AND mask 7"
    by (rule bit_word_eqI) (auto simp: WTERMSIG_def status_of_def bit_simps)
  with n show w: "WTERMSIG ?s = word_of_nat n" by simp
  have u: "unat (word_of_nat n :: 32 word) = n" using assms by (simp add: unsigned_of_nat take_bit_nat_eq_self)
  then have "(word_of_nat n :: 32 word) \<noteq> 0" "(word_of_nat n :: 32 word) \<noteq> 127"
    using assms by auto
  then show "\<not> WIFEXITED ?s" "WIFSIGNALED ?s" using w m7 by (simp_all add: WIFEXITED_def WIFSIGNALED_def)
  have "?s AND push_bit 7 1 = (if core then push_bit 7 1 else 0)"
    by (rule bit_word_eqI) (auto simp: status_of_def bit_simps)
  then show "WCOREDUMP ?s \<longleftrightarrow> core" by (simp add: WCOREDUMP_def)
  have "?s AND mask 8 \<noteq> mask 7"
  proof
    assume e: "?s AND mask 8 = mask 7"
    have "(?s AND mask 8) AND mask 7 = mask 7 AND mask 7"
      by (simp only: e)
    moreover have "mask 8 AND mask 7 = (mask 7 :: 32 word)" by (rule bit_word_eqI) (auto simp: bit_simps)
    ultimately have "?s AND mask 7 = mask 7" by (simp only: and.assoc and.idem)
    with w m7 \<open>word_of_nat n \<noteq> 127\<close> show False by (simp add: WTERMSIG_def)
  qed
  then show "\<not> WIFSTOPPED ?s" by (simp add: WIFSTOPPED_def)
  have "\<not> bit ?s 8" by (auto simp: status_of_def bit_simps)
  moreover have "bit (mask 16 :: 32 word) 8" by (simp add: bit_mask_iff)
  ultimately show "\<not> WIFCONTINUED ?s" by (metis WIFCONTINUED_def)
qed

section \<open>The programs\<close>

text \<open>
  What the system does: \<open>fork\<close> may fail, the child may be killed before its own end (\<open>shot\<close>: had it
  printed its line, and the signal), \<open>wait\<close> may fail; \<open>child_first\<close> says whose line of the two
  that are printed at the same time comes first.
\<close>

record scene =
  fork_fails :: bool
  child_pid :: int
  shot :: "(bool \<times> nat \<times> bool) option"
  wait_error :: "string option"
  child_first :: bool
  stack_status :: "32 word" \<comment> \<open>the old contents of \<open>status\<close>\<close>

definition child_fate :: "int \<Rightarrow> scene \<Rightarrow> fate" where
  "child_fate code w = (case shot w of None \<Rightarrow> Exits code | Some (_, n, core) \<Rightarrow> Killed_By n core)"

text \<open>\<open>wait(&status)\<close>: the process number and the status word; on failure -1 and the old word.\<close>

definition wait_child :: "int \<Rightarrow> scene \<Rightarrow> int \<times> 32 word" where
  "wait_child code w =
     (if fork_fails w \<or> wait_error w \<noteq> None then (-1, stack_status w)
      else (child_pid w, status_of (child_fate code w)))"

text \<open>The messages of \<open>parent_child_example.c\<close>, whose texts are Korean.\<close>

datatype family_text = Child_Sleeps | Parent_Waits | Exit_Code "32 word" | Signal_Number "32 word"

definition child_lines :: "scene \<Rightarrow> family_text list" where
  "child_lines w = (case shot w of Some (False, _, _) \<Rightarrow> [] | _ \<Rightarrow> [Child_Sleeps])"

definition parent_child_main :: "scene \<Rightarrow> int \<times> family_text list" where
  "parent_child_main w =
     (if fork_fails w then (0, [])
      else let status = snd (wait_child 7 w) in
        (0, (if child_first w then child_lines w @ [Parent_Waits] else Parent_Waits # child_lines w) @
          (if WIFEXITED status then [Exit_Code (WEXITSTATUS status)]
           else if WIFSIGNALED status then [Signal_Number (WTERMSIG status)]
           else [])))"

text \<open>
  \<open>wait_example.c\<close> calls \<open>WIFEXISTED\<close>, which no header declares (the macro is \<open>WIFEXITED\<close>): it is a
  parameter, the function a linker would have to find.
\<close>

definition wait_main :: "(32 word \<Rightarrow> bool) \<Rightarrow> scene \<Rightarrow> int \<times> string \<times> string" where
  "wait_main WIFEXISTED w =
     (let (pid, status) = wait_child 1 w in
      (0,
       ''pid = '' @ dec pid @ [nl] @
       (if WIFEXISTED status then ''child process terminated with exit status('' @ dec (sint (WEXITSTATUS status)) @ '')'' @ [nl] else []) @
       (if WIFSIGNALED status then ''child process killed by signal ('' @ dec (sint (WTERMSIG status)) @ '')'' @ [nl] @
          (if WCOREDUMP status then ''child process dumped core'' @ [nl] else []) else []) @
       (if WIFSTOPPED status then ''child process stopped by signal ('' @ dec (sint (WSTOPSIG status)) @ '')'' @ [nl] else []) @
       (if WIFCONTINUED status then ''child process continued'' @ [nl] else []),
       if pid = -1 then perror_text ''wait error: '' (case wait_error w of None \<Rightarrow> ''No child processes'' | Some e \<Rightarrow> e) else []))"

lemma code_word: "word_of_int c AND mask 8 = (word_of_int (c mod 256) :: 32 word)"
proof -
  have "(word_of_int c AND mask 8 :: 32 word) = word_of_int (take_bit 8 c)"
    by (simp add: take_bit_eq_mask [symmetric] take_bit_of_int)
  then show ?thesis by (simp add: take_bit_eq_mod)
qed

section \<open>Properties\<close>

text \<open>
  What the parent of \<open>parent_child_example.c\<close> says last is what happened to the child: 7 for
  its own exit, the number of the signal that killed it otherwise, whenever fork and wait
  succeed; before that the lines of both stand in one of the two orders.
\<close>
theorem parent_child_report:
  assumes "\<not> fork_fails w" and "wait_error w = None" and "\<forall>b n core. shot w = Some (b, n, core) \<longrightarrow> 0 < n \<and> n < 127"
  shows "\<exists>ls. parent_child_main w = (0, ls @ [case shot w of None \<Rightarrow> Exit_Code 7 | Some (_, n, _) \<Rightarrow> Signal_Number (word_of_nat n)]) \<and>
    (ls = child_lines w @ [Parent_Waits] \<or> ls = Parent_Waits # child_lines w)"
proof -
  let ?ls = "if child_first w then child_lines w @ [Parent_Waits] else Parent_Waits # child_lines w"
  have st: "snd (wait_child 7 w) = status_of (child_fate 7 w)" using assms(1,2) by (simp add: wait_child_def)
  have "parent_child_main w = (0, ?ls @ [case shot w of None \<Rightarrow> Exit_Code 7 | Some (_, n, _) \<Rightarrow> Signal_Number (word_of_nat n)])"
  proof (cases "shot w")
    case None
    then have "status_of (child_fate 7 w) = status_of (Exits 7)" by (simp add: child_fate_def)
    then show ?thesis
      using assms(1) None status_exit [of 7] code_word [of 7] by (simp add: parent_child_main_def st Let_def)
  next
    case (Some x)
    then obtain b n core where s: "shot w = Some (b, n, core)" by (cases x) auto
    then have "status_of (child_fate 7 w) = status_of (Killed_By n core)" by (simp add: child_fate_def)
    moreover have "0 < n" "n < 127" using assms(3) s by auto
    ultimately show ?thesis
      using assms(1) s status_killed [of n core] by (simp add: parent_child_main_def st Let_def)
  qed
  then show ?thesis by (intro exI [of _ ?ls]) simp
qed

definition killed_scene :: scene where
  "killed_scene = \<lparr>fork_fails = False, child_pid = 42, shot = Some (True, 9, False), wait_error = None,
     child_first = False, stack_status = 0\<rparr>"

theorem parent_child_report_witness:
  "\<exists>ls. parent_child_main killed_scene = (0, ls @ [Signal_Number 9])"
  using parent_child_report [of killed_scene] by (auto simp: killed_scene_def)



end
