(* ===== verification/Calendar_Time.thy ===== *)
theory Calendar_Time
  imports C_Library
begin

text \<open>
  \<open>gmtime_localtime.c\<close>: the same instant broken down in UTC and in the local zone, first through
  the two functions that share one static structure, then through the reentrant ones. The
  breakdown is the proleptic Gregorian calendar that the C library computes with; the zone is a
  parameter, the offset in seconds for each instant.
\<close>

section \<open>The calendar\<close>

record tm =
  tm_sec :: nat
  tm_min :: nat
  tm_hour :: nat
  tm_mday :: nat
  tm_mon :: nat
  tm_year :: int
  tm_wday :: nat
  tm_yday :: nat

definition leap :: "int \<Rightarrow> bool" where
  "leap y \<longleftrightarrow> 4 dvd y \<and> (\<not> 100 dvd y \<or> 400 dvd y)"

definition days_in_year :: "int \<Rightarrow> nat" where
  "days_in_year y = (if leap y then 366 else 365)"

definition month_lengths :: "int \<Rightarrow> nat list" where
  "month_lengths y = [31, if leap y then 29 else 28, 31, 30, 31, 30, 31, 31, 30, 31, 30, 31]"

text \<open>Count off whole years, then whole months.\<close>

function year_of :: "nat \<Rightarrow> int \<Rightarrow> int \<times> nat" where
  "year_of d y = (if d < days_in_year y then (y, d) else year_of (d - days_in_year y) (y + 1))"
  by pat_completeness auto

termination
  by (relation "measure fst") (auto simp: days_in_year_def split: if_splits)

declare year_of.simps [simp del]

fun month_of :: "nat \<Rightarrow> nat list \<Rightarrow> nat \<Rightarrow> nat \<times> nat" where
  "month_of d [] m = (m, d)"
| "month_of d (l # ls) m = (if d < l then (m, d) else month_of (d - l) ls (Suc m))"

text \<open>
  \<open>gmtime_r\<close>: whole cycles of 400 years (146097 days) first, so that the loop is bounded for
  every instant, before 1970 too. The first of January 1970 was a Thursday.
\<close>

definition gmtime_r :: "int \<Rightarrow> tm" where
  "gmtime_r t =
     (let days = t div 86400; secs = nat (t mod 86400);
          (y, yday) = year_of (nat (days mod 146097)) (1970 + 400 * (days div 146097));
          (mon, day) = month_of yday (month_lengths y) 0
      in \<lparr>tm_sec = secs mod 60, tm_min = secs div 60 mod 60, tm_hour = secs div 3600, tm_mday = Suc day,
          tm_mon = mon, tm_year = y - 1900, tm_wday = nat ((days + 4) mod 7), tm_yday = yday\<rparr>)"

text \<open>The reference in the other direction, in closed form: the seconds since 1970 of a broken-down time.\<close>

definition days_before :: "int \<Rightarrow> int" where
  "days_before y = 365 * (y - 1970) + ((y - 1) div 4 - (y - 1) div 100 + (y - 1) div 400) - 477"

definition timegm :: "tm \<Rightarrow> int" where
  "timegm m = 86400 * (days_before (tm_year m + 1900) +
     int (sum_list (take (tm_mon m) (month_lengths (tm_year m + 1900)))) + int (tm_mday m) - 1) +
     3600 * int (tm_hour m) + 60 * int (tm_min m) + int (tm_sec m)"

definition valid_tm :: "tm \<Rightarrow> bool" where
  "valid_tm m \<longleftrightarrow> tm_sec m < 60 \<and> tm_min m < 60 \<and> tm_hour m < 24 \<and> tm_mon m < 12 \<and> 1 \<le> tm_mday m \<and>
     tm_mday m \<le> month_lengths (tm_year m + 1900) ! tm_mon m \<and> tm_wday m < 7 \<and>
     tm_yday m < days_in_year (tm_year m + 1900)"

lemma days_before_1970: "days_before 1970 = 0"
  by (simp add: days_before_def)

lemma div_step:
  fixes y k :: int
  assumes "0 < k" shows "y div k = (y - 1) div k + (if k dvd y then 1 else 0)"
proof (cases "k dvd y")
  case True
  then obtain q where y: "y = k * q" by (rule dvdE)
  have "y - 1 = k * (q - 1) + (k - 1)" by (simp add: y algebra_simps)
  then have "(y - 1) div k = q - 1" by (rule int_div_pos_eq) (use assms in simp_all)
  moreover have "y div k = q" using assms y by simp
  ultimately show ?thesis using True by simp
next
  case False
  have "y - 1 = k * (y div k) + (y mod k - 1)" using mult_div_mod_eq [of k y] by linarith
  moreover have "y mod k < k" "0 \<le> y mod k" using assms by simp_all
  moreover have "y mod k \<noteq> 0" using False by (simp add: dvd_eq_mod_eq_0)
  ultimately have "(y - 1) div k = y div k" by (intro int_div_pos_eq [of _ _ _ "y mod k - 1"]) simp_all
  with False show ?thesis by simp
qed

lemma days_before_next: "days_before (y + 1) = days_before y + int (days_in_year y)"
proof -
  have combine: "365 * (y + 1 - 1970) + (a' - b' + c') - 477 = 365 * (y - 1970) + (a - b + c) - 477 + 365 + p - q + r"
    if "a' = a + p" "b' = b + q" "c' = c + r" for a a' b b' c c' p q r :: int
    using that by simp
  have e: "days_before (y + 1) = days_before y + 365 + (if 4 dvd y then 1 else 0) - (if 100 dvd y then 1 else 0) +
      (if 400 dvd y then 1 else 0)"
    unfolding days_before_def add_diff_cancel_right' 
    by (rule combine [OF div_step div_step div_step]) simp_all
  have "4 dvd y" if "100 dvd y" using dvd_trans [of 4 100 y] that by simp
  moreover have "100 dvd y" if "400 dvd y" using dvd_trans [of 100 400 y] that by simp
  moreover have "k + 365 + (if a then 1 else 0) - (if b then 1 else 0) + (if c then 1 else 0) =
      k + int (if a \<and> (\<not> b \<or> c) then 366 else 365)" if "b \<Longrightarrow> a" "c \<Longrightarrow> b" for a b c and k :: int
    using that by (cases a; cases b; cases c) simp_all
  ultimately show ?thesis unfolding e days_in_year_def leap_def by blast
qed

lemma div_shift:
  fixes y k c :: int
  assumes "0 < c" shows "(y + c * k - 1) div c = (y - 1) div c + k"
proof -
  have "y + c * k - 1 = (y - 1) + k * c" by simp
  moreover have "((y - 1) + k * c) div c = k + (y - 1) div c" using assms by (intro div_mult_self1) simp
  ultimately show ?thesis by (metis add.commute)
qed

lemma days_before_cycle: "days_before (y + 400 * k) = days_before y + 146097 * k"
  using div_shift [of 4 y "100 * k"] div_shift [of 100 y "4 * k"] div_shift [of 400 y k]
  by (simp add: days_before_def)

lemma year_of_spec:
  "year_of d y = (y', d') \<Longrightarrow> d' < days_in_year y' \<and> days_before y' + int d' = days_before y + int d"
proof (induction d y rule: year_of.induct)
  case (1 d y)
  show ?case
  proof (cases "d < days_in_year y")
    case True
    with "1.prems" show ?thesis by (subst (asm) year_of.simps) simp
  next
    case False
    with "1.prems" have "year_of (d - days_in_year y) (y + 1) = (y', d')" by (subst (asm) year_of.simps) simp
    with "1.IH" [OF False] False show ?thesis by (simp add: days_before_next)
  qed
qed

lemma month_of_spec:
  assumes "d < sum_list ls" and "month_of d ls m = (m', d')"
  shows "m \<le> m' \<and> m' < m + length ls \<and> d' < ls ! (m' - m) \<and> d = sum_list (take (m' - m) ls) + d'"
  using assms
proof (induction d ls m rule: month_of.induct)
  case (2 d l ls m)
  show ?case
  proof (cases "d < l")
    case True
    with "2.prems" show ?thesis by simp
  next
    case False
    with "2.prems" have "d - l < sum_list ls" "month_of (d - l) ls (Suc m) = (m', d')" by auto
    with "2.IH" [OF False] have "Suc m \<le> m'" "m' < Suc m + length ls" "d' < ls ! (m' - Suc m)"
      "d - l = sum_list (take (m' - Suc m) ls) + d'" by auto
    moreover from this(1) have "m' - m = Suc (m' - Suc m)" by simp
    ultimately show ?thesis using False by simp
  qed
qed simp

lemma sum_month_lengths: "sum_list (month_lengths y) = days_in_year y"
  by (simp add: month_lengths_def days_in_year_def)

lemma gmtime_parts:
  assumes "year_of (nat (t div 86400 mod 146097)) (1970 + 400 * (t div 86400 div 146097)) = (y, yday)"
    and "month_of yday (month_lengths y) 0 = (mon, day)"
  shows "days_before y + int yday = t div 86400 \<and> yday < days_in_year y \<and> mon < 12 \<and>
    day < month_lengths y ! mon \<and> yday = sum_list (take mon (month_lengths y)) + day"
proof -
  define n where "n = t div 86400"
  from year_of_spec [OF assms(1)] have y: "yday < days_in_year y"
    and e: "days_before y + int yday = days_before (1970 + 400 * (n div 146097)) + int (nat (n mod 146097))"
    by (simp_all add: n_def)
  have "days_before (1970 + 400 * (n div 146097)) = 146097 * (n div 146097)"
    by (simp add: days_before_cycle days_before_1970)
  moreover have "int (nat (n mod 146097)) = n mod 146097" by simp
  ultimately have "days_before y + int yday = n" using e mult_div_mod_eq [of 146097 n] by linarith
  moreover have "yday < sum_list (month_lengths y)" using y by (simp add: sum_month_lengths)
  from month_of_spec [OF this assms(2)]
  have "mon < 12" "day < month_lengths y ! mon" "yday = sum_list (take mon (month_lengths y)) + day"
    by (simp_all add: month_lengths_def)
  ultimately show ?thesis using y by (simp add: n_def)
qed

lemma seconds_parts:
  "int (n div 3600) * 3600 + 60 * int (n div 60 mod 60) + int (n mod 60) = int n"
proof -
  have h: "(3600 :: nat) = 60 * 60" by simp
  have d: "n div 3600 = n div 60 div 60" unfolding h by (rule div_mult2_eq)
  have "a * 3600 + 60 * b + c = n" if "60 * q + c = n" "60 * a + b = q" for a b c q :: nat
    using that by linarith
  from this [OF mult_div_mod_eq [of 60 n] mult_div_mod_eq [of 60 "n div 60"]] have "n div 3600 * 3600 + 60 * (n div 60 mod 60) + n mod 60 = n"
    unfolding d .
  then have "int (n div 3600 * 3600 + 60 * (n div 60 mod 60) + n mod 60) = int n" by (rule arg_cong)
  then show ?thesis by (simp only: of_nat_add of_nat_mult of_nat_numeral)
qed

lemma gmtime_round_trip: "timegm (gmtime_r t) = t" and gmtime_valid: "valid_tm (gmtime_r t)"
proof -
  obtain y yday where y: "year_of (nat (t div 86400 mod 146097)) (1970 + 400 * (t div 86400 div 146097)) = (y, yday)"
    by fastforce
  obtain mon day where m: "month_of yday (month_lengths y) 0 = (mon, day)" by fastforce
  note p = gmtime_parts [OF y m]
  define secs where "secs = nat (t mod 86400)"
  have s: "int secs = t mod 86400" "secs < 86400" by (simp_all add: secs_def nat_less_iff)
  have g: "gmtime_r t = \<lparr>tm_sec = secs mod 60, tm_min = secs div 60 mod 60, tm_hour = secs div 3600,
      tm_mday = Suc day, tm_mon = mon, tm_year = y - 1900, tm_wday = nat ((t div 86400 + 4) mod 7), tm_yday = yday\<rparr>"
    by (simp add: gmtime_r_def y m Let_def secs_def)
  have "timegm (gmtime_r t) = 86400 * (days_before y + int yday) + int secs"
    using p seconds_parts [of secs] unfolding g timegm_def by simp
  also have "\<dots> = t" using conjunct1 [OF p] s(1) mult_div_mod_eq [of 86400 t] by (simp only:)
  finally show "timegm (gmtime_r t) = t" .
  have "secs div 3600 < 24" using s(2) by (simp add: less_mult_imp_div_less)
  then show "valid_tm (gmtime_r t)" using p unfolding g valid_tm_def by (simp add: nat_less_iff Suc_le_eq)
qed

section \<open>The program\<close>

text \<open>
  \<open>gmtime\<close> and \<open>localtime\<close> return the address of one static structure, or NULL: the state is that
  structure, a result the flag that it is not NULL. A null script entry (an error description)
  makes a call fail. The texts are Korean; a message holds the six numbers of its line.
\<close>

datatype time_text = Gm_Line "int list" | Local_Line "int list"

definition localtime_r :: "(int \<Rightarrow> int) \<Rightarrow> int \<Rightarrow> tm" where
  "localtime_r offset t = gmtime_r (t + offset t)"

definition six_numbers :: "tm \<Rightarrow> int list" where
  "six_numbers m = [tm_year m + 1900, int (tm_mon m) + 1, int (tm_mday m), int (tm_hour m), int (tm_min m), int (tm_sec m)]"

definition static_call :: "string option \<Rightarrow> tm \<Rightarrow> tm \<Rightarrow> bool \<times> tm" where
  "static_call fail result buf = (case fail of None \<Rightarrow> (True, result) | Some e \<Rightarrow> (False, buf))"

text \<open>Both pointers point into the buffer, which is read when the lines are printed.\<close>

definition time_main ::
  "(int \<Rightarrow> int) \<Rightarrow> int \<Rightarrow> string option \<Rightarrow> string option \<Rightarrow> tm \<Rightarrow> int \<times> time_text list \<times> string" where
  "time_main offset t gm_fails local_fails buf =
     (let (tm1, buf) = static_call gm_fails (gmtime_r t) buf;
          (tm2, buf) = static_call local_fails (localtime_r offset t) buf
      in if \<not> tm1 \<or> \<not> tm2
         then (-1, [], perror_text ''gtime, localtime error: '' (the (if tm2 then gm_fails else local_fails)))
         else let tim1 = gmtime_r t; tim2 = localtime_r offset t in
           (0, [Gm_Line (six_numbers buf), Local_Line (six_numbers buf),
                Gm_Line (six_numbers tim1), Local_Line (six_numbers tim2)], []))"

text \<open>The instant six printed numbers stand for.\<close>

definition instant :: "int list \<Rightarrow> int" where
  "instant ns = 86400 * (days_before (ns ! 0) + int (sum_list (take (nat (ns ! 1 - 1)) (month_lengths (ns ! 0)))) + ns ! 2 - 1) +
     3600 * ns ! 3 + 60 * ns ! 4 + ns ! 5"

lemma instant_six: "instant (six_numbers m) = timegm m"
  by (simp add: instant_def six_numbers_def timegm_def numeral_eq_Suc)

definition time_lines :: "time_text list \<Rightarrow> (bool \<times> int) list" where
  "time_lines = map (\<lambda>x. case x of Gm_Line ns \<Rightarrow> (True, instant ns) | Local_Line ns \<Rightarrow> (False, instant ns))"

section \<open>Properties\<close>

text \<open>
  C35: the calendar of the model breaks every instant, before 1970 too, down into fields in their
  ranges from which the closed form \<open>timegm\<close> gives it back. When no call fails, the four lines
  are for the local instant twice, since the second call has overwritten the shared structure,
  then for the instant itself and the local one: the line that is labelled gmtime first is off by
  the zone's offset, the reentrant one is right.
\<close>
theorem shared_structure:
  "timegm (gmtime_r t) = t \<and> valid_tm (gmtime_r t) \<and>
   fst (time_main offset t None None buf) = 0 \<and>
   time_lines (fst (snd (time_main offset t None None buf))) =
     [(True, t + offset t), (False, t + offset t), (True, t), (False, t + offset t)]"
  using gmtime_round_trip gmtime_valid
  by (simp add: time_main_def static_call_def time_lines_def instant_six localtime_r_def)

text \<open>A failing call ends the program with -1 and its message, before any line.\<close>

lemma time_main_fails:
  "gm = Some e \<or> loc = Some e \<Longrightarrow> fst (time_main offset t gm loc buf) = -1 \<and> fst (snd (time_main offset t gm loc buf)) = []"
  by (cases gm; cases loc) (auto simp: time_main_def static_call_def)

end
