(* ===== verification/Small_Programs.thy ===== *)
theory Small_Programs
  imports C_Library Interleaving
begin

text \<open>
  Four short programs: \<open>pthread_create_example.c\<close> (a thread counts, \<open>main\<close> takes its result),
  \<open>pthread_cancel_example.c\<close> (a thread is cancelled in its endless loop), \<open>popen_example.c\<close> (the
  output of a command is copied) and \<open>daemon_example.c\<close> (a process leaves its terminal).
\<close>

section \<open>\<open>pthread_create_example.c\<close>\<close>

text \<open>
  The locals of \<open>main\<close> are bytes of the stack. \<open>pthread_join\<close> stores a pointer, eight bytes, at the
  address of the four-byte \<open>status\<close>. Where the compiler puts the locals is a parameter; the
  thread has read \<open>num\<close> before \<open>main\<close> goes on, which waits for it.
\<close>

fun count_loop :: "nat \<Rightarrow> int \<Rightarrow> string" where
  "count_loop 0 i = []"
| "count_loop (Suc k) i = dec i @ [nl] @ count_loop k (i + 1)"

text \<open>\<open>for (i = 0; i < num; ++i)\<close> runs \<open>num\<close> times, not at all for a negative \<open>num\<close>.\<close>

definition create_start_func :: "int \<Rightarrow> string" where
  "create_start_func num = count_loop (nat num) 0"

record create_frame =
  stack :: bytes
  num_at :: nat
  status_at :: nat

definition frame_int :: "nat \<Rightarrow> bytes \<Rightarrow> int" where
  "frame_int a m = bytes_int (drop a m)"

definition create_error_line :: "string \<Rightarrow> string" where
  "create_error_line e = ''pthread_create error: '' @ e @ [nl]"

definition returned_line :: "int \<Rightarrow> string" where
  "returned_line v = ''Thread returned: '' @ dec v @ [nl]"

definition create_main :: "string option \<Rightarrow> create_frame \<Rightarrow> int \<times> string \<times> bytes" where
  "create_main create_fails f =
     (let m = overwrite (stack f) (num_at f) (int_bytes 10) in
      case create_fails of
        Some e \<Rightarrow> (-1, create_error_line e, m)
      | None \<Rightarrow>
          let m' = overwrite m (status_at f) (replicate 8 NUL) in
          (0, create_start_func (frame_int (num_at f) m) @ returned_line (frame_int (status_at f) m'), m'))"

lemma count_loop_lines: "count_loop k i = concat (map (\<lambda>j. dec (i + int j) @ [nl]) [0..<k])"
proof (induction k arbitrary: i)
  case (Suc k)
  have "[0..<Suc k] = 0 # map Suc [0..<k]" by (simp only: map_Suc_upt upt_conv_Cons [OF zero_less_Suc] One_nat_def)
  then show ?case using Suc.IH [of "i + 1"] by (simp add: comp_def algebra_simps)
qed simp

section \<open>\<open>pthread_cancel_example.c\<close>\<close>

text \<open>
  Time passes in seconds (\<open>Tick\<close>); a sleeper may move when its time has come, sooner or later.
  The cancellation is acted upon in \<open>sleep\<close>, a cancellation point; a thread that has woken before
  still prints. The process ends with \<open>main\<close>.
\<close>

datatype cancel_thread_pc = N_None | N_Start | N_Sleep nat | N_Print | N_Cancelled

datatype cancel_main_pc = G_Create | G_Sleep nat | G_Cancel | G_Print | G_Exited int

datatype cancel_text = Just_Wait | Continues | Canceled | Cancel_Text string

record cancel_state =
  clock :: nat
  npc :: cancel_thread_pc
  gpc :: cancel_main_pc
  cancelled :: bool
  ctext :: "cancel_text list"
  cerr :: string

datatype cancel_actor = Cancel_Main | Loop_Thread | Tick | Create_Fails string | Cancel_Fails string

definition cancel_init :: cancel_state where
  "cancel_init = \<lparr>clock = 0, npc = N_None, gpc = G_Create, cancelled = False, ctext = [], cerr = []\<rparr>"

fun cancel_start_func :: "cancel_thread_pc \<Rightarrow> cancel_state \<Rightarrow> cancel_state option" where
  "cancel_start_func N_None s = None"
| "cancel_start_func N_Start s = Some (s\<lparr>ctext := ctext s @ [Just_Wait], npc := N_Sleep (clock s + 1)\<rparr>)"
| "cancel_start_func (N_Sleep w) s =
     (if cancelled s then Some (s\<lparr>npc := N_Cancelled\<rparr>)
      else if w \<le> clock s then Some (s\<lparr>npc := N_Print\<rparr>) else None)"
| "cancel_start_func N_Print s = Some (s\<lparr>ctext := ctext s @ [Continues], npc := N_Sleep (clock s + 1)\<rparr>)"
| "cancel_start_func N_Cancelled s = None"

fun cancel_main :: "cancel_main_pc \<Rightarrow> cancel_state \<Rightarrow> cancel_state option" where
  "cancel_main G_Create s = Some (s\<lparr>npc := N_Start, gpc := G_Sleep (clock s + 5)\<rparr>)"
| "cancel_main (G_Sleep w) s = (if w \<le> clock s then Some (s\<lparr>gpc := G_Cancel\<rparr>) else None)"
| "cancel_main G_Cancel s = Some (s\<lparr>cancelled := True, gpc := G_Print\<rparr>)"
| "cancel_main G_Print s = Some (s\<lparr>ctext := ctext s @ [Canceled], gpc := G_Exited 0\<rparr>)"
| "cancel_main (G_Exited c) s = None"

definition cancel_over :: "cancel_state \<Rightarrow> bool" where
  "cancel_over s \<longleftrightarrow> (case gpc s of G_Exited _ \<Rightarrow> True | _ \<Rightarrow> False)"

fun cancel_step :: "cancel_actor \<Rightarrow> cancel_state \<Rightarrow> cancel_state option" where
  "cancel_step Cancel_Main s = cancel_main (gpc s) s"
| "cancel_step Loop_Thread s = (if cancel_over s then None else cancel_start_func (npc s) s)"
| "cancel_step Tick s = (if cancel_over s then None else Some (s\<lparr>clock := clock s + 1\<rparr>))"
| "cancel_step (Create_Fails e) s = (if gpc s = G_Create
     then Some (s\<lparr>ctext := ctext s @ [Cancel_Text (''pthread_create erorr: '' @ e @ [nl])], gpc := G_Exited (- 1)\<rparr>) else None)"
| "cancel_step (Cancel_Fails e) s = (if gpc s = G_Cancel
     then Some (s\<lparr>cerr := cerr s @ perror_text ''pthread_cancel error: '' e, gpc := G_Exited (- 1)\<rparr>) else None)"

text \<open>
  The number of lines the loop has printed is bounded by the time: each one ends a sleep that
  began at least a second before.
\<close>

definition loop_lines :: "cancel_state \<Rightarrow> nat" where
  "loop_lines s = length (filter (\<lambda>x. x = Continues) (ctext s))"

definition cancel_inv :: "cancel_state \<Rightarrow> bool" where
  "cancel_inv s \<longleftrightarrow>
     (case npc s of
        N_None \<Rightarrow> ctext s = [] \<or> gpc s = G_Exited (- 1)
      | N_Start \<Rightarrow> loop_lines s = 0
      | N_Sleep w \<Rightarrow> loop_lines s + 1 \<le> w \<and> w \<le> clock s + 1
      | N_Print \<Rightarrow> loop_lines s + 1 \<le> clock s
      | N_Cancelled \<Rightarrow> loop_lines s \<le> clock s \<and> cancelled s) \<and>
     (gpc s = G_Create \<longrightarrow> npc s = N_None) \<and> (npc s = N_None \<longrightarrow> gpc s = G_Create \<or> gpc s = G_Exited (- 1)) \<and>
     (gpc s = G_Exited 0 \<longrightarrow> cancelled s \<and> 5 \<le> clock s \<and> last (ctext s) = Canceled \<and> ctext s \<noteq> []) \<and>
     (\<forall>w. gpc s = G_Sleep w \<longrightarrow> 5 \<le> w) \<and> (gpc s = G_Cancel \<or> gpc s = G_Print \<longrightarrow> 5 \<le> clock s) \<and>
     (gpc s = G_Print \<longrightarrow> cancelled s) \<and> (\<forall>c. gpc s = G_Exited c \<longrightarrow> c = 0 \<or> c = -1)"

lemma cancel_inv_step:
  assumes "cancel_inv s" and "cancel_step a s = Some t" shows "cancel_inv t"
proof (cases a)
  case Cancel_Main
  with assms show ?thesis
    by (cases "gpc s"; cases "npc s") (auto simp: cancel_inv_def loop_lines_def split: if_splits)
next
  case Loop_Thread
  with assms show ?thesis
    by (cases "npc s"; cases "gpc s") (auto simp: cancel_inv_def cancel_over_def loop_lines_def split: if_splits)
next
  case Tick
  with assms show ?thesis
    by (cases "npc s"; cases "gpc s") (auto simp: cancel_inv_def cancel_over_def loop_lines_def split: if_splits)
next
  case (Create_Fails e)
  with assms show ?thesis by (auto simp: cancel_inv_def split: if_splits)
next
  case (Cancel_Fails e)
  with assms show ?thesis by (cases "npc s") (auto simp: cancel_inv_def loop_lines_def split: if_splits)
qed

interpretation cancel_run: inductive_invariant cancel_step cancel_init cancel_inv
proof unfold_locales
  show "cancel_inv cancel_init" by (simp add: cancel_inv_def cancel_init_def)
qed (rule cancel_inv_step)

definition cancel_measure :: "cancel_state \<Rightarrow> nat" where
  "cancel_measure s = (case gpc s of G_Create \<Rightarrow> 9 | G_Sleep w \<Rightarrow> 3 + (w - clock s) | G_Cancel \<Rightarrow> 2 | G_Print \<Rightarrow> 1
     | G_Exited c \<Rightarrow> 0)"

definition cancel_actors :: "cancel_actor set" where
  "cancel_actors = {Cancel_Main, Tick}"

lemma loop_thread_frame:
  "cancel_start_func (npc s) s = Some t \<Longrightarrow> gpc t = gpc s \<and> clock t = clock s"
  by (cases "npc s") (auto split: if_splits)

lemma cancel_measure_steps:
  assumes "cancel_step a s = Some t" and "\<not> cancel_over s"
  shows "cancel_over t \<or> cancel_measure t \<le> cancel_measure s" and "cancel_measure t = cancel_measure s \<Longrightarrow> gpc t = gpc s"
    and "clock s \<le> clock t"
  using assms loop_thread_frame [of s t]
  by (cases a; cases "gpc s"; auto simp: cancel_measure_def cancel_over_def split: if_splits)+

text \<open>Who brings \<open>main\<close> on: time while it sleeps, itself otherwise.\<close>

definition cancel_helper :: "cancel_state \<Rightarrow> cancel_actor" where
  "cancel_helper s = (case gpc s of G_Sleep w \<Rightarrow> if w \<le> clock s then Cancel_Main else Tick | _ \<Rightarrow> Cancel_Main)"

lemma cancel_helps:
  "\<not> cancel_over s \<Longrightarrow> \<exists>t. cancel_step (cancel_helper s) s = Some t \<and> (cancel_over t \<or> cancel_measure t < cancel_measure s)"
  by (cases "gpc s") (auto simp: cancel_helper_def cancel_measure_def cancel_over_def)

lemma cancel_helper_unique:
  "\<not> cancel_over s \<Longrightarrow> a \<in> cancel_actors \<Longrightarrow> cancel_step a s = Some t \<Longrightarrow> cancel_over t \<or> cancel_measure t < cancel_measure s \<Longrightarrow>
   a = cancel_helper s"
  by (cases "gpc s")
    (auto simp: cancel_helper_def cancel_measure_def cancel_over_def cancel_actors_def split: if_splits)

interpretation cancel_ends: fair_termination cancel_step cancel_init cancel_actors cancel_measure cancel_over
proof unfold_locales
  fix s a t
  assume "cancel_over s" and "cancel_step a s = Some t"
  then show "cancel_over t" by (cases a) (auto simp: cancel_over_def split: cancel_main_pc.splits)
next
  fix s a t
  assume "\<not> cancel_over s" and "cancel_step a s = Some t"
  then show "cancel_over t \<or> cancel_measure t \<le> cancel_measure s" using cancel_measure_steps(1) by blast
next
  fix s
  assume "\<not> cancel_over s"
  moreover have "cancel_helper s \<in> cancel_actors"
    by (auto simp: cancel_helper_def cancel_actors_def split: cancel_main_pc.splits)
  ultimately show "\<exists>a\<in>cancel_actors. \<exists>t. cancel_step a s = Some t \<and> (cancel_over t \<or> cancel_measure t < cancel_measure s)"
    using cancel_helps by blast
next
  fix s a t b u
  assume live: "\<not> cancel_over s" and a: "a \<in> cancel_actors" "cancel_step a s = Some t"
    "cancel_over t \<or> cancel_measure t < cancel_measure s"
    and b: "cancel_step b s = Some u" "b \<noteq> a" and u: "\<not> cancel_over u" "cancel_measure u = cancel_measure s"
  have h: "a = cancel_helper s" using cancel_helper_unique [OF live a] .
  have "gpc u = gpc s" using cancel_measure_steps(2) [OF b(1) live u(2)] .
  moreover have "w - clock u = w - clock s" if "gpc s = G_Sleep w" for w
    using u(2) \<open>gpc u = gpc s\<close> that by (simp add: cancel_measure_def)
  ultimately have "cancel_helper u = a" unfolding h by (auto simp: cancel_helper_def split: cancel_main_pc.splits)
  then show "\<exists>t'. cancel_step a u = Some t' \<and> (cancel_over t' \<or> cancel_measure t' < cancel_measure u)"
    using cancel_helps [OF u(1)] by blast
qed

section \<open>\<open>popen_example.c\<close>\<close>

text \<open>
  The command's output is a parameter. The loop reads it with \<open>fgets\<close> into a buffer of 1024 bytes
  and prints each piece as a C string.
\<close>

definition popen_main :: "string + bytes \<Rightarrow> string option \<Rightarrow> int \<times> string \<times> string" where
  "popen_main opened pclose_fails =
     (case opened of
        Inl e \<Rightarrow> (1, [], ''popen error: '' @ e @ [nl])
      | Inr d \<Rightarrow>
          let text = ''Current Path is '' @ concat (map cstr (file_lines d)) in
          (case pclose_fails of
             Some e \<Rightarrow> (1, text, ''pclose error: '' @ e @ [nl])
           | None \<Rightarrow> (0, text, [])))"

lemma file_lines_c_string: "c_string d \<Longrightarrow> \<forall>l\<in>set (file_lines d). c_string l"
  by (metis concat_file_lines c_string_def in_set_conv_nth UN_I nth_mem set_concat)

section \<open>\<open>daemon_example.c\<close>\<close>

text \<open>
  stdout is a buffer in front of descriptor 1. On a terminal a full line is written at once, else
  it stays in the buffer. \<open>daemon(0, 0)\<close> forks, the parent leaves by \<open>_exit\<close> (which does not
  write its buffer), and the child goes on with descriptor 1 on \<open>/dev/null\<close>.
\<close>

record daemon_out =
  on_tty :: bool
  null_out :: bool
  obuf :: string
  seen :: string \<comment> \<open>what has reached the original stdout\<close>

definition daemon_flush :: "daemon_out \<Rightarrow> daemon_out" where
  "daemon_flush s = s\<lparr>seen := seen s @ (if null_out s then [] else obuf s), obuf := []\<rparr>"

definition daemon_printf :: "string \<Rightarrow> daemon_out \<Rightarrow> daemon_out" where
  "daemon_printf t s = (let s = s\<lparr>obuf := obuf s @ t\<rparr> in if on_tty s \<or> 4096 \<le> length (obuf s) then daemon_flush s else s)"

primrec daemon_loop :: "nat \<Rightarrow> daemon_out \<Rightarrow> daemon_out" where
  "daemon_loop 0 s = s"
| "daemon_loop (Suc n) s = daemon_loop n (daemon_printf (''not print line!'' @ [nl]) s)"

text \<open>The state after \<open>n\<close> turns of the endless loop, or the end after a failed \<open>daemon\<close>.\<close>

definition daemon_main :: "string option \<Rightarrow> nat \<Rightarrow> bool \<Rightarrow> int option \<times> daemon_out \<times> string" where
  "daemon_main daemon_fails n tty =
     (let s = daemon_printf (''daemon start'' @ [nl]) \<lparr>on_tty = tty, null_out = False, obuf = [], seen = []\<rparr> in
      case daemon_fails of
        Some e \<Rightarrow> (Some (- 1), daemon_flush s, perror_text ''daemon erro: '' e)
      | None \<Rightarrow> (None, daemon_loop n (s\<lparr>null_out := True, on_tty := False\<rparr>), []))"

lemma daemon_loop_silent:
  "null_out s \<Longrightarrow> \<not> on_tty s \<Longrightarrow> seen (daemon_loop n s) = seen s"
proof (induction n arbitrary: s)
  case (Suc n)
  let ?t = "daemon_printf (''not print line!'' @ [nl]) s"
  have "null_out ?t" "\<not> on_tty ?t" "seen ?t = seen s"
    using Suc.prems by (simp_all add: daemon_printf_def Let_def daemon_flush_def)
  then show ?case using Suc.IH [of ?t] by simp
qed simp

section \<open>Properties\<close>

text \<open>
  When the thread can be created, and \<open>status\<close> and \<open>num\<close> do not overlap, the output is the
  numbers 0 to 9 and the result 0; besides \<open>status\<close> the join has zeroed the four bytes behind it.
\<close>
theorem create_output:
  assumes "num_at f + 4 \<le> length (stack f)" and "status_at f + 8 \<le> length (stack f)"
  shows "fst (snd (create_main None f)) = concat (map (\<lambda>j. dec (int j) @ [nl]) [0..<10]) @ returned_line 0 \<and>
    fst (create_main None f) = 0 \<and>
    take 4 (drop (status_at f + 4) (snd (snd (create_main None f)))) = replicate 4 NUL"
proof -
  let ?m = "overwrite (stack f) (num_at f) (int_bytes 10)"
  let ?m' = "overwrite ?m (status_at f) (replicate 8 NUL)"
  have len: "length ?m = length (stack f)" using assms(1) by simp
  have num: "frame_int (num_at f) ?m = 10"
    using assms(1) bytes_int_int_bytes [of 10 "drop (num_at f + 4) (stack f)"]
    by (simp add: frame_int_def overwrite_def int32_def)
  have d: "drop (status_at f) ?m' = replicate 8 NUL @ drop (status_at f + 8) ?m"
    using assms(2) len by (simp add: overwrite_def)
  have st: "frame_int (status_at f) ?m' = 0"
  proof -
    have "int_bytes 0 = [NUL, NUL, NUL, NUL]" by (simp add: int_bytes_def char_of_def)
    moreover have "replicate 8 NUL = [NUL, NUL, NUL, NUL] @ replicate 4 NUL" by (simp add: numeral_eq_Suc)
    ultimately have "replicate 8 NUL = int_bytes 0 @ replicate 4 NUL" by simp
    then show ?thesis unfolding frame_int_def d by (simp add: bytes_int_int_bytes int32_def)
  qed
  have "drop (status_at f + 4) ?m' = drop 4 (drop (status_at f) ?m')" by (simp add: add.commute)
  then have "take 4 (drop (status_at f + 4) ?m') = replicate 4 NUL" unfolding d by simp
  moreover have "create_start_func 10 = concat (map (\<lambda>j. dec (int j) @ [nl]) [0..<10])"
    by (simp add: create_start_func_def count_loop_lines)
  ultimately show ?thesis by (simp add: create_main_def Let_def num st)
qed

definition example_frame :: create_frame where
  "example_frame = \<lparr>stack = replicate 16 CHR ''x'', num_at = 0, status_at = 4\<rparr>"

theorem create_output_witness:
  "take 4 (drop 8 (snd (snd (create_main None example_frame)))) = replicate 4 NUL"
  using create_output [of example_frame] by (simp add: example_frame_def)

text \<open>
  After ten rounds with \<open>main\<close> and the clock the process is over, whether the thread gets to
  run or not: with -1 and an error, or with 0 at five seconds at the earliest, \<open>Thread canceled\<close>
  as the last line and at most one line of the loop for each second before.
\<close>
theorem cancel_result:
  assumes "\<forall>r\<in>set rounds. cancel_actors \<subseteq> set r" and "10 \<le> length rounds"
    and "s = run_schedule cancel_step (concat rounds) cancel_init"
  shows "gpc s = G_Exited (- 1) \<or>
    (gpc s = G_Exited 0 \<and> 5 \<le> clock s \<and> ctext s \<noteq> [] \<and> last (ctext s) = Canceled \<and> loop_lines s \<le> clock s)"
proof -
  have "cancel_measure cancel_init < length rounds" using assms(2) by (simp add: cancel_measure_def cancel_init_def)
  then have "cancel_over s" unfolding assms(3) by (rule cancel_ends.fair_rounds_finish [OF reach_init assms(1)])
  moreover have i: "cancel_inv s" unfolding assms(3) by (rule cancel_run.inv_schedule)
  moreover have "gpc s = G_Exited (- 1) \<or> loop_lines s \<le> clock s"
    using i by (cases "npc s") (auto simp: cancel_inv_def loop_lines_def)
  ultimately show ?thesis by (auto simp: cancel_over_def cancel_inv_def split: cancel_main_pc.splits)
qed

theorem cancel_result_witness:
  "gpc (run_schedule cancel_step (concat (replicate 10 [Cancel_Main, Tick, Loop_Thread])) cancel_init) = G_Exited 0"
proof -
  have "gpc (run_schedule cancel_step (concat (replicate 10 [Cancel_Main, Tick, Loop_Thread])) cancel_init) \<noteq> G_Exited (- 1)"
    by code_simp
  then show ?thesis
    using cancel_result [of "replicate 10 [Cancel_Main, Tick, Loop_Thread]"] by (simp add: cancel_actors_def)
qed



text \<open>
  No turn of the loop of the daemon ever reaches the original output; the start line does
  on a terminal, and is lost where stdout is buffered.
\<close>
theorem daemon_silent:
  "seen (fst (snd (daemon_main None n tty))) = (if tty then ''daemon start'' @ [nl] else [])"
  by (simp add: daemon_main_def Let_def daemon_loop_silent) (simp add: daemon_printf_def daemon_flush_def)

end
