(* ===== verification/Fifo_Chat.thy ===== *)
theory Fifo_Chat
  imports C_Library Interleaving
begin

text \<open>
  \<open>fifo/write_fifo.c\<close> and \<open>fifo/read_fifo.c\<close>: two processes that talk in turn through one FIFO.
  A move is one system call with the computation up to the next one. Opening a FIFO counts the
  new end at once and then waits until the other end is open too; the open that completes a
  pair wakes the waiting process. A read waits while the FIFO is empty and has a writer.
  A line the user types reaches the program by fgets, whose end of file both programs ignore.
\<close>

section \<open>State\<close>

datatype side = Write_Fifo | Read_Fifo

datatype chat_pc =
    Access | Mkfifo | Input | Open_W | Wait_W | Writing | Close_W
  | Open_R | Wait_R | Reading | Close_R | Printing | Chat_Exited int | Broken_Pipe

text \<open>The two sides as an enumeration, over which quantifiers compute.\<close>

instantiation side :: enum
begin

definition enum_side :: "side list" where
  "enum_side = [Write_Fifo, Read_Fifo]"

definition enum_all_side :: "(side \<Rightarrow> bool) \<Rightarrow> bool" where
  "enum_all_side P \<longleftrightarrow> P Write_Fifo \<and> P Read_Fifo"

definition enum_ex_side :: "(side \<Rightarrow> bool) \<Rightarrow> bool" where
  "enum_ex_side P \<longleftrightarrow> P Write_Fifo \<or> P Read_Fifo"

instance
proof
  show univ: "UNIV = set (enum_class.enum :: side list)" using side.exhaust by (auto simp: enum_side_def)
  show "distinct (enum_class.enum :: side list)" by (simp add: enum_side_def)
  show "enum_class.enum_all P \<longleftrightarrow> Ball UNIV P" for P :: "side \<Rightarrow> bool"
    unfolding univ by (simp add: enum_all_side_def enum_side_def)
  show "enum_class.enum_ex P \<longleftrightarrow> Bex UNIV P" for P :: "side \<Rightarrow> bool"
    unfolding univ by (simp add: enum_ex_side_def enum_side_def)
qed

end

record chat =
  fifo_exists :: bool
  fifo :: bytes
  readers :: nat
  writers :: nat
  cpc :: "side \<Rightarrow> chat_pc"
  stdin_of :: "side \<Rightarrow> bytes"
  inputbuf :: "side \<Rightarrow> bytes"
  readbuf :: "side \<Rightarrow> bytes"
  screen :: "side \<Rightarrow> string"
  errors :: "side \<Rightarrow> string"
  said :: "side \<Rightarrow> string list" \<comment> \<open>ghost: the strings written into the FIFO\<close>
  heard :: "side \<Rightarrow> string list" \<comment> \<open>ghost: the strings printed after "read: "\<close>

datatype chat_actor = Side side | Mkfifo_Fails side string

definition fifofile :: string where "fifofile = ''/tmp/fifo_test''"

fun other_side :: "side \<Rightarrow> side" where
  "other_side Write_Fifo = Read_Fifo"
| "other_side Read_Fifo = Write_Fifo"

definition chat_init :: "bool \<Rightarrow> (side \<Rightarrow> bytes) \<Rightarrow> (side \<Rightarrow> bytes) \<Rightarrow> (side \<Rightarrow> bytes) \<Rightarrow> chat" where
  "chat_init exist typed ib rb = \<lparr>fifo_exists = exist, fifo = [], readers = 0, writers = 0,
     cpc = (\<lambda>_. Access), stdin_of = typed, inputbuf = ib, readbuf = rb, screen = (\<lambda>_. []),
     errors = (\<lambda>_. []), said = (\<lambda>_. []), heard = (\<lambda>_. [])\<rparr>"

section \<open>Steps\<close>

definition goto_c :: "side \<Rightarrow> chat_pc \<Rightarrow> chat \<Rightarrow> chat" where
  "goto_c p pc s = s\<lparr>cpc := (cpc s)(p := pc)\<rparr>"

definition show_on :: "side \<Rightarrow> string \<Rightarrow> chat \<Rightarrow> chat" where
  "show_on p t s = s\<lparr>screen := (screen s)(p := screen s p @ t)\<rparr>"

text \<open>Where the loop starts: the writer types first, the reader reads first.\<close>

definition loop_start :: "side \<Rightarrow> chat_pc" where
  "loop_start p = (case p of Write_Fifo \<Rightarrow> Input | Read_Fifo \<Rightarrow> Open_R)"

definition after_close_w :: "side \<Rightarrow> chat_pc" where
  "after_close_w p = Open_R"

definition wake :: "side \<Rightarrow> chat_pc \<Rightarrow> chat_pc \<Rightarrow> chat \<Rightarrow> chat" where
  "wake p asleep awake s = (if cpc s p = asleep then goto_c p awake s else s)"

definition open_wronly :: "side \<Rightarrow> chat \<Rightarrow> chat" where
  "open_wronly p s = (let s = s\<lparr>writers := writers s + 1\<rparr> in
     if 0 < readers s then wake (other_side p) Wait_R Reading (goto_c p Writing s)
     else goto_c p Wait_W s)"

definition open_rdonly :: "side \<Rightarrow> chat \<Rightarrow> chat" where
  "open_rdonly p s = (let s = s\<lparr>readers := readers s + 1\<rparr> in
     if 0 < writers s then wake (other_side p) Wait_W Writing (goto_c p Reading s)
     else goto_c p Wait_R s)"

text \<open>\<open>printf("input message: "); fgets(inputbuf, sizeof(inputbuf), stdin)\<close>.\<close>

definition input_message :: "side \<Rightarrow> chat \<Rightarrow> chat" where
  "input_message p s = (let s = show_on p ''input message: '' s in
     case fgets 1024 (stdin_of s p) of
       None \<Rightarrow> s
     | Some (line, rest) \<Rightarrow> s\<lparr>stdin_of := (stdin_of s)(p := rest),
         inputbuf := (inputbuf s)(p := store_line (inputbuf s p) line)\<rparr>)"

text \<open>When the last end is closed the kernel discards what has not been read.\<close>

definition discard_unread :: "chat \<Rightarrow> chat" where
  "discard_unread s = (if readers s = 0 \<and> writers s = 0 then s\<lparr>fifo := []\<rparr> else s)"

fun chat_step_at :: "chat_pc \<Rightarrow> side \<Rightarrow> chat \<Rightarrow> chat option" where
  "chat_step_at Access p s = Some (goto_c p (if fifo_exists s then loop_start p else Mkfifo) s)"
| "chat_step_at Mkfifo p s = Some (
     if fifo_exists s
     then goto_c p (Chat_Exited 1) (s\<lparr>errors := (errors s)(p := errors s p @ ''mkfifo error: File exists'' @ [nl])\<rparr>)
     else show_on p (''FIFO file('' @ fifofile @ '') create OK.'' @ [nl])
       (goto_c p (loop_start p) (s\<lparr>fifo_exists := True\<rparr>)))"
| "chat_step_at Input p s = Some (goto_c p Open_W (input_message p s))"
| "chat_step_at Open_W p s = Some (open_wronly p s)"
| "chat_step_at Wait_W p s = None"
| "chat_step_at Writing p s = Some (
     if readers s = 0 then goto_c p Broken_Pipe s
     else goto_c p Close_W (s\<lparr>fifo := fifo s @ cstr (inputbuf s p) @ [NUL],
       said := (said s)(p := said s p @ [cstr (inputbuf s p)])\<rparr>))"
| "chat_step_at Close_W p s = Some (goto_c p (after_close_w p) (discard_unread (s\<lparr>writers := writers s - 1\<rparr>)))"
| "chat_step_at Open_R p s = Some (open_rdonly p s)"
| "chat_step_at Wait_R p s = None"
| "chat_step_at Reading p s =
     (if fifo s = [] \<and> 0 < writers s then None
      else Some (goto_c p Close_R (s\<lparr>fifo := drop 1024 (fifo s),
        readbuf := (readbuf s)(p := overwrite (readbuf s p) 0 (take 1024 (fifo s)))\<rparr>)))"
| "chat_step_at Close_R p s = Some (goto_c p Printing (discard_unread (s\<lparr>readers := readers s - 1\<rparr>)))"
| "chat_step_at Printing p s = Some (goto_c p Input (show_on p (''read: '' @ cstr (readbuf s p))
     (s\<lparr>heard := (heard s)(p := heard s p @ [cstr (readbuf s p)])\<rparr>)))"
| "chat_step_at (Chat_Exited code) p s = None"
| "chat_step_at Broken_Pipe p s = None"

fun chat_step :: "chat_actor \<Rightarrow> chat \<Rightarrow> chat option" where
  "chat_step (Side p) s = chat_step_at (cpc s p) p s"
| "chat_step (Mkfifo_Fails p e) s =
     (if cpc s p = Mkfifo
      then Some (goto_c p (Chat_Exited 1) (s\<lparr>errors := (errors s)(p := errors s p @ ''mkfifo error: '' @ e @ [nl])\<rparr>))
      else None)"

section \<open>The joint control states\<close>

text \<open>
  With the FIFO in place, the pairs of positions and whether a message is in the FIFO. Both
  programs have the same cycle, half a turn apart, so the relation is symmetric.
\<close>

definition half_turn :: "chat_pc \<Rightarrow> chat_pc \<Rightarrow> bool \<Rightarrow> bool" where
  "half_turn a b full \<longleftrightarrow>
     (a \<in> {Input, Open_W, Close_R, Printing} \<and> b \<in> {Close_W, Open_R, Wait_R} \<and> \<not> full) \<or>
     (a = Wait_W \<and> b \<in> {Open_R, Close_W} \<and> \<not> full) \<or>
     (a = Writing \<and> b = Reading \<and> \<not> full) \<or>
     (a \<in> {Close_W, Open_R, Wait_R} \<and> b = Reading \<and> full)"

definition allowed :: "chat_pc \<Rightarrow> chat_pc \<Rightarrow> bool \<Rightarrow> bool" where
  "allowed a b full \<longleftrightarrow> half_turn a b full \<or> half_turn b a full"

definition has_r :: "chat_pc \<Rightarrow> nat" where
  "has_r pc = of_bool (pc \<in> {Wait_R, Reading, Close_R})"

definition has_w :: "chat_pc \<Rightarrow> nat" where
  "has_w pc = of_bool (pc \<in> {Wait_W, Writing, Close_W})"

definition at :: "chat \<Rightarrow> side \<Rightarrow> chat_pc" where
  "at s p = (if cpc s p = Access then loop_start p else cpc s p)"

definition chat_ctl_of :: "side \<Rightarrow> chat \<Rightarrow> bool" where
  "chat_ctl_of p s \<longleftrightarrow> fifo_exists s \<and> allowed (at s p) (at s (other_side p)) (fifo s \<noteq> []) \<and>
     readers s = has_r (at s p) + has_r (at s (other_side p)) \<and>
     writers s = has_w (at s p) + has_w (at s (other_side p))"

lemma other_side_simps [simp]: "other_side (other_side p) = p" "other_side p \<noteq> p" "p \<noteq> other_side p"
  by (cases p; simp)+

lemma side_cases: "q = p \<or> q = other_side p"
  by (cases p; cases q; simp)

lemma allowed_sym: "allowed a b full = allowed b a full"
  unfolding allowed_def by blast

lemma chat_ctl_other: "chat_ctl_of p s \<Longrightarrow> chat_ctl_of (other_side p) s"
  unfolding chat_ctl_of_def other_side_simps using allowed_sym add.commute by metis

text \<open>The relation of the positions, move by move.\<close>

lemma allowed_input: "allowed Input b full \<Longrightarrow> allowed Open_W b full"
  and allowed_open_w: "allowed Open_W b full \<Longrightarrow>
    \<not> full \<and> (b = Wait_R \<or> b \<in> {Close_W, Open_R} \<and> allowed Wait_W b full)"
  and allowed_writing: "allowed Writing b full \<Longrightarrow> b = Reading \<and> \<not> full \<and> allowed Close_W b True"
  and allowed_close_w: "allowed Close_W b full \<Longrightarrow> allowed Open_R b full"
  and allowed_open_r: "allowed Open_R b full \<Longrightarrow>
    b = Wait_W \<and> \<not> full \<or> b \<noteq> Wait_W \<and> b \<noteq> Writing \<and> b \<noteq> Close_W \<and> allowed Wait_R b full"
  and allowed_reading: "allowed Reading b full \<Longrightarrow>
    b = Writing \<and> \<not> full \<or> full \<and> b \<in> {Close_W, Open_R, Wait_R} \<and> allowed Close_R b False"
  and allowed_close_r: "allowed Close_R b full \<Longrightarrow> \<not> full \<and> allowed Printing b full"
  and allowed_printing: "allowed Printing b full \<Longrightarrow> allowed Input b full"
  and allowed_never: "\<not> allowed Access b full" "\<not> allowed Mkfifo b full" "\<not> allowed (Chat_Exited c) b full"
    "\<not> allowed Broken_Pipe b full"
  by (cases b; cases full; simp add: allowed_def half_turn_def)+

lemma has_simps [simp]:
  "has_r Input = 0" "has_r Open_W = 0" "has_r Wait_W = 0" "has_r Writing = 0" "has_r Close_W = 0" "has_r Open_R = 0"
  "has_r Wait_R = 1" "has_r Reading = 1" "has_r Close_R = 1" "has_r Printing = 0"
  "has_w Input = 0" "has_w Open_W = 0" "has_w Wait_W = 1" "has_w Writing = 1" "has_w Close_W = 1" "has_w Open_R = 0"
  "has_w Wait_R = 0" "has_w Reading = 0" "has_w Close_R = 0" "has_w Printing = 0"
  by (simp_all add: has_r_def has_w_def)

lemma has_w_zero: "b \<noteq> Wait_W \<Longrightarrow> b \<noteq> Writing \<Longrightarrow> b \<noteq> Close_W \<Longrightarrow> has_w b = 0"
  by (simp add: has_w_def)

lemma input_message_frame [simp]:
  "cpc (input_message p s) = cpc s" "fifo (input_message p s) = fifo s"
  "fifo_exists (input_message p s) = fifo_exists s" "readers (input_message p s) = readers s"
  "writers (input_message p s) = writers s" "said (input_message p s) = said s"
  "heard (input_message p s) = heard s" "readbuf (input_message p s) = readbuf s"
  by (simp_all add: input_message_def show_on_def Let_def split: option.splits)

lemma input_message_other: "q \<noteq> p \<Longrightarrow> inputbuf (input_message p s) q = inputbuf s q"
  by (simp add: input_message_def show_on_def Let_def split: option.splits)

lemma chat_frame [simp]:
  "fifo (goto_c p pc s) = fifo s" "fifo_exists (goto_c p pc s) = fifo_exists s"
  "readers (goto_c p pc s) = readers s" "writers (goto_c p pc s) = writers s" "cpc (goto_c p pc s) = (cpc s)(p := pc)"
  "said (goto_c p pc s) = said s" "heard (goto_c p pc s) = heard s" "readbuf (goto_c p pc s) = readbuf s"
  "inputbuf (goto_c p pc s) = inputbuf s"
  "fifo (show_on p x s) = fifo s" "fifo_exists (show_on p x s) = fifo_exists s"
  "readers (show_on p x s) = readers s" "writers (show_on p x s) = writers s" "cpc (show_on p x s) = cpc s"
  "said (show_on p x s) = said s" "heard (show_on p x s) = heard s" "readbuf (show_on p x s) = readbuf s"
  "inputbuf (show_on p x s) = inputbuf s"
  by (simp_all add: goto_c_def show_on_def)

lemma loop_start_cases: "loop_start p = Input \<or> loop_start p = Open_R"
  by (cases p) (simp_all add: loop_start_def)

lemma at_is: "pc \<noteq> Input \<Longrightarrow> pc \<noteq> Open_R \<Longrightarrow> pc \<noteq> Access \<Longrightarrow> at s p = pc \<longleftrightarrow> cpc s p = pc"
  using loop_start_cases [of p] by (auto simp: at_def)

lemma at_pc: "cpc s p \<noteq> Access \<Longrightarrow> at s p = cpc s p"
  by (simp add: at_def)

text \<open>
  The effect of a move on the control: the mover's new position, perhaps a sleeper that is woken,
  and what becomes of the FIFO.
\<close>

lemma ctl_move:
  assumes "chat_ctl_of p s" and "cpc s' = (cpc s)(p := pc)" and "pc \<noteq> Access" and "fifo_exists s'"
    and "readers s' = has_r pc + has_r (at s (other_side p))"
    and "writers s' = has_w pc + has_w (at s (other_side p))"
    and "allowed pc (at s (other_side p)) (fifo s' \<noteq> [])"
  shows "chat_ctl_of p s'"
proof -
  have "at s' p = pc" "at s' (other_side p) = at s (other_side p)" using assms(2,3) by (simp_all add: at_def)
  with assms show ?thesis by (simp add: chat_ctl_of_def)
qed

lemma ctl_wake:
  assumes "cpc s' = (cpc s)(p := a, other_side p := b)" and "a \<noteq> Access" "b \<noteq> Access" and "fifo_exists s'"
    and "readers s' = has_r a + has_r b" and "writers s' = has_w a + has_w b" and "allowed a b (fifo s' \<noteq> [])"
  shows "chat_ctl_of p s'"
proof -
  have "at s' p = a" "at s' (other_side p) = b" using assms(1-3) by (simp_all add: at_def)
  with assms show ?thesis by (simp add: chat_ctl_of_def)
qed

lemma ctl_open_w:
  assumes c: "chat_ctl_of p s" and pc: "cpc s p = Open_W" shows "chat_ctl_of p (open_wronly p s)"
proof -
  let ?b = "at s (other_side p)"
  have a: "at s p = Open_W" using pc by (simp add: at_def)
  have al: "allowed Open_W ?b (fifo s \<noteq> [])" and ex: "fifo_exists s"
    and r: "readers s = has_r ?b" and w: "writers s = has_w ?b"
    using c by (simp_all add: chat_ctl_of_def a)
  from allowed_open_w [OF al] have e: "fifo s = []" by simp
  show ?thesis
  proof (cases "?b = Wait_R")
    case True
    then have "cpc s (other_side p) = Wait_R" by (simp add: at_is)
    then have s': "open_wronly p s = goto_c (other_side p) Reading (goto_c p Writing (s\<lparr>writers := writers s + 1\<rparr>))"
      using r True by (simp add: open_wronly_def wake_def Let_def)
    show ?thesis
      by (rule ctl_wake [of _ s p Writing Reading]) (simp_all add: s' ex r w True e allowed_def half_turn_def)
  next
    case False
    then have b: "?b \<in> {Close_W, Open_R}" "allowed Wait_W ?b (fifo s \<noteq> [])"
      using allowed_open_w [OF al] by blast+
    then have "has_r ?b = 0" by auto
    then have s': "open_wronly p s = goto_c p Wait_W (s\<lparr>writers := writers s + 1\<rparr>)"
      using r by (simp add: open_wronly_def Let_def)
    show ?thesis
      by (rule ctl_move [OF c, of _ Wait_W]) (use b in \<open>simp_all add: s' ex r w\<close>)
  qed
qed

lemma ctl_open_r:
  assumes c: "chat_ctl_of p s" and pc: "cpc s p = Open_R" shows "chat_ctl_of p (open_rdonly p s)"
proof -
  let ?b = "at s (other_side p)"
  have a: "at s p = Open_R" using pc by (simp add: at_def)
  have al: "allowed Open_R ?b (fifo s \<noteq> [])" and ex: "fifo_exists s"
    and r: "readers s = has_r ?b" and w: "writers s = has_w ?b"
    using c by (simp_all add: chat_ctl_of_def a)
  show ?thesis
  proof (cases "?b = Wait_W")
    case True
    with allowed_open_r [OF al] have e: "fifo s = []" by simp
    have "cpc s (other_side p) = Wait_W" using True by (simp add: at_is)
    then have s': "open_rdonly p s = goto_c (other_side p) Writing (goto_c p Reading (s\<lparr>readers := readers s + 1\<rparr>))"
      using w True by (simp add: open_rdonly_def wake_def Let_def)
    show ?thesis
      by (rule ctl_wake [of _ s p Reading Writing]) (simp_all add: s' ex r w True e allowed_def half_turn_def)
  next
    case False
    with allowed_open_r [OF al] have b: "?b \<noteq> Writing" "?b \<noteq> Close_W" "allowed Wait_R ?b (fifo s \<noteq> [])" by simp_all
    then have "has_w ?b = 0" using False by (simp add: has_w_zero)
    then have s': "open_rdonly p s = goto_c p Wait_R (s\<lparr>readers := readers s + 1\<rparr>)"
      using w by (simp add: open_rdonly_def Let_def)
    show ?thesis
      by (rule ctl_move [OF c, of _ Wait_R]) (use b in \<open>simp_all add: s' ex r w\<close>)
  qed
qed

text \<open>A message is at most 1024 bytes with its NUL, so one read takes all of it.\<close>

definition buffers_ok :: "chat \<Rightarrow> bool" where
  "buffers_ok s \<longleftrightarrow> (\<forall>p. length (inputbuf s p) = 1024 \<and> NUL \<in> set (inputbuf s p)) \<and>
     (fifo s = [] \<or> (\<exists>m. c_string m \<and> length m < 1024 \<and> fifo s = m @ [NUL]))"

lemma cstr_short: "NUL \<in> set b \<Longrightarrow> length (cstr b) < length b"
proof -
  assume "NUL \<in> set b"
  then obtain rest where "b = cstr b @ NUL # rest" using cstr_split by blast
  then have "length b = length (cstr b @ NUL # rest)" by (rule arg_cong)
  then show ?thesis by simp
qed

lemma store_line_ok:
  assumes "fgets 1024 i = Some (line, rest)" and "length b = 1024"
  shows "length (store_line b line) = 1024" and "NUL \<in> set (store_line b line)"
proof -
  have "length line \<le> 1024 - 1" using fgets_Some [OF assms(1)] by blast
  then show "length (store_line b line) = 1024" using assms(2) by simp
  show "NUL \<in> set (store_line b line)" by (simp add: store_line_def overwrite_start)
qed

lemma input_message_ok:
  assumes "length (inputbuf s p) = 1024" and "NUL \<in> set (inputbuf s p)"
  shows "length (inputbuf (input_message p s) p) = 1024 \<and> NUL \<in> set (inputbuf (input_message p s) p)"
proof (cases "fgets 1024 (stdin_of s p)")
  case None
  then have "inputbuf (input_message p s) = inputbuf s"
    by (simp add: input_message_def show_on_def Let_def del: fgets_None)
  with assms show ?thesis by simp
next
  case (Some lr)
  obtain line rest where lr: "lr = (line, rest)" by (cases lr)
  with Some have "inputbuf (input_message p s) p = store_line (inputbuf s p) line"
    by (simp add: input_message_def show_on_def Let_def)
  with store_line_ok [OF Some [unfolded lr] assms(1)] show ?thesis by simp
qed

lemma fifo_short: "buffers_ok s \<Longrightarrow> drop 1024 (fifo s) = [] \<and> take 1024 (fifo s) = fifo s"
  by (auto simp: buffers_ok_def)

lemma wake_frame [simp]:
  "fifo (wake p a b s) = fifo s" "inputbuf (wake p a b s) = inputbuf s" "readbuf (wake p a b s) = readbuf s"
  "said (wake p a b s) = said s" "heard (wake p a b s) = heard s"
  by (simp_all add: wake_def)

lemma open_frame [simp]:
  "fifo (open_wronly p s) = fifo s" "inputbuf (open_wronly p s) = inputbuf s" "readbuf (open_wronly p s) = readbuf s"
  "said (open_wronly p s) = said s" "heard (open_wronly p s) = heard s"
  "fifo (open_rdonly p s) = fifo s" "inputbuf (open_rdonly p s) = inputbuf s" "readbuf (open_rdonly p s) = readbuf s"
  "said (open_rdonly p s) = said s" "heard (open_rdonly p s) = heard s"
  by (simp_all add: open_wronly_def open_rdonly_def Let_def)

text \<open>Without failing calls no close discards anything: nothing is unread, or the reader is there.\<close>

lemma close_keeps:
  assumes "chat_ctl_of p s"
  shows "cpc s p = Close_W \<Longrightarrow> discard_unread (s\<lparr>writers := writers s - 1\<rparr>) = s\<lparr>writers := writers s - 1\<rparr>"
    and "cpc s p = Close_R \<Longrightarrow> discard_unread (s\<lparr>readers := readers s - 1\<rparr>) = s\<lparr>readers := readers s - 1\<rparr>"
proof -
  let ?b = "at s (other_side p)"
  have al: "allowed (at s p) ?b (fifo s \<noteq> [])" and r: "readers s = has_r (at s p) + has_r ?b"
    using assms by (simp_all add: chat_ctl_of_def)
  show "discard_unread (s\<lparr>writers := writers s - 1\<rparr>) = s\<lparr>writers := writers s - 1\<rparr>" if "cpc s p = Close_W"
  proof -
    from al that have "allowed Close_W ?b (fifo s \<noteq> [])" by (simp add: at_def)
    then have "fifo s = [] \<or> readers s \<noteq> 0" using r by (auto simp: allowed_def half_turn_def)
    then show ?thesis by (auto simp: discard_unread_def)
  qed
  show "discard_unread (s\<lparr>readers := readers s - 1\<rparr>) = s\<lparr>readers := readers s - 1\<rparr>" if "cpc s p = Close_R"
  proof -
    from al that have "allowed Close_R ?b (fifo s \<noteq> [])" by (simp add: at_def)
    then have "fifo s = []" using allowed_close_r by blast
    then show ?thesis by (simp add: discard_unread_def)
  qed
qed

text \<open>A move in a chat whose FIFO is in place.\<close>

lemma writing_move:
  assumes c: "chat_ctl_of p s" and pc: "cpc s p = Writing" and st: "chat_step_at Writing p s = Some s'"
  shows "at s (other_side p) = Reading" and "fifo s = []"
    and "s' = goto_c p Close_W (s\<lparr>fifo := cstr (inputbuf s p) @ [NUL],
      said := (said s)(p := said s p @ [cstr (inputbuf s p)])\<rparr>)"
proof -
  have "allowed Writing (at s (other_side p)) (fifo s \<noteq> [])" using c pc by (simp add: chat_ctl_of_def at_def)
  from allowed_writing [OF this] show b: "at s (other_side p) = Reading" "fifo s = []" by simp_all
  then have "readers s \<noteq> 0" using c by (simp add: chat_ctl_of_def)
  with st b show "s' = goto_c p Close_W (s\<lparr>fifo := cstr (inputbuf s p) @ [NUL],
      said := (said s)(p := said s p @ [cstr (inputbuf s p)])\<rparr>)" by simp
qed

lemma reading_move:
  assumes c: "chat_ctl_of p s" and b: "buffers_ok s" and pc: "cpc s p = Reading" and st: "chat_step_at Reading p s = Some s'"
  shows "fifo s \<noteq> []" and "at s (other_side p) \<in> {Close_W, Open_R, Wait_R}"
    and "s' = goto_c p Close_R (s\<lparr>fifo := [], readbuf := (readbuf s)(p := overwrite (readbuf s p) 0 (fifo s))\<rparr>)"
proof -
  have "allowed Reading (at s (other_side p)) (fifo s \<noteq> [])" using c pc by (simp add: chat_ctl_of_def at_def)
  moreover have "\<not> (at s (other_side p) = Writing \<and> \<not> fifo s \<noteq> [])" using c st by (auto simp: chat_ctl_of_def)
  ultimately show f: "fifo s \<noteq> []" "at s (other_side p) \<in> {Close_W, Open_R, Wait_R}" using allowed_reading by blast+
  show "s' = goto_c p Close_R (s\<lparr>fifo := [], readbuf := (readbuf s)(p := overwrite (readbuf s p) 0 (fifo s))\<rparr>)"
    using st f(1) fifo_short [OF b] by simp
qed

lemma at_moved:
  "pc \<noteq> Access \<Longrightarrow> cpc s' = (cpc s)(p := pc) \<Longrightarrow> at s' p = pc \<and> at s' (other_side p) = at s (other_side p)"
  by (simp add: at_def)

lemma chat_moves:
  assumes c: "chat_ctl_of p s" and b: "buffers_ok s" and st: "chat_step_at (cpc s p) p s = Some s'"
  obtains (enters) "cpc s p = Access" "s' = goto_c p (loop_start p) s"
      "at s' p = at s p" "at s' (other_side p) = at s (other_side p)"
    | (types) "cpc s p = Input" "s' = goto_c p Open_W (input_message p s)"
      "at s p = Input" "at s' p = Open_W" "at s' (other_side p) = at s (other_side p)"
    | (open_w) "cpc s p = Open_W" "s' = open_wronly p s" "at s p = Open_W"
    | (writes) "cpc s p = Writing" "at s (other_side p) = Reading" "fifo s = []"
      "s' = goto_c p Close_W (s\<lparr>fifo := cstr (inputbuf s p) @ [NUL],
         said := (said s)(p := said s p @ [cstr (inputbuf s p)])\<rparr>)"
      "at s p = Writing" "at s' p = Close_W" "at s' (other_side p) = at s (other_side p)"
    | (close_w) "cpc s p = Close_W" "s' = goto_c p Open_R (s\<lparr>writers := writers s - 1\<rparr>)"
      "at s p = Close_W" "at s' p = Open_R" "at s' (other_side p) = at s (other_side p)"
    | (open_r) "cpc s p = Open_R" "s' = open_rdonly p s" "at s p = Open_R"
    | (reads) "cpc s p = Reading" "fifo s \<noteq> []" "at s (other_side p) \<in> {Close_W, Open_R, Wait_R}"
      "s' = goto_c p Close_R (s\<lparr>fifo := [], readbuf := (readbuf s)(p := overwrite (readbuf s p) 0 (fifo s))\<rparr>)"
      "at s p = Reading" "at s' p = Close_R" "at s' (other_side p) = at s (other_side p)"
    | (close_r) "cpc s p = Close_R" "s' = goto_c p Printing (s\<lparr>readers := readers s - 1\<rparr>)"
      "at s p = Close_R" "at s' p = Printing" "at s' (other_side p) = at s (other_side p)"
    | (prints) "cpc s p = Printing" "s' = goto_c p Input (show_on p (''read: '' @ cstr (readbuf s p))
         (s\<lparr>heard := (heard s)(p := heard s p @ [cstr (readbuf s p)])\<rparr>))"
      "at s p = Printing" "at s' p = Input" "at s' (other_side p) = at s (other_side p)"
proof (cases "cpc s p")
  case Access
  with st c have "s' = goto_c p (loop_start p) s" by (simp add: chat_ctl_of_def)
  with Access show thesis using loop_start_cases [of p] by (intro enters) (auto simp: at_def)
next
  case Mkfifo
  with c allowed_never show thesis by (simp add: at_def chat_ctl_of_def)
next
  case Writing
  with st have "chat_step_at Writing p s = Some s'" by simp
  note w = writing_move [OF c Writing this]
  have "at s' p = Close_W \<and> at s' (other_side p) = at s (other_side p)" by (rule at_moved) (simp_all add: w(3))
  with w Writing show thesis by (intro writes) (simp_all add: at_pc)
next
  case Reading
  with st have "chat_step_at Reading p s = Some s'" by simp
  note r = reading_move [OF c b Reading this]
  have "at s' p = Close_R \<and> at s' (other_side p) = at s (other_side p)" by (rule at_moved) (simp_all add: r(3))
  with r Reading show thesis by (intro reads) (simp_all add: at_pc)
next
  case Close_W
  with close_keeps(1) [OF c] st show thesis by (intro close_w) (auto simp: after_close_w_def at_def)
next
  case Close_R
  with close_keeps(2) [OF c] st show thesis by (intro close_r) (auto simp: at_def)
next
  case Input
  with st show thesis by (intro types) (auto simp: at_def)
next
  case Open_W
  with st show thesis by (intro open_w) (simp_all add: at_def)
next
  case Open_R
  with st show thesis by (intro open_r) (simp_all add: at_def)
next
  case Printing
  with st show thesis by (intro prints) (auto simp: at_def)
qed (use st in simp_all)

lemma ctl_step:
  assumes c: "chat_ctl_of p s" and b: "buffers_ok s" and st: "chat_step_at (cpc s p) p s = Some s'"
  shows "chat_ctl_of p s'"
proof -
  let ?b = "at s (other_side p)"
  have al: "allowed (at s p) ?b (fifo s \<noteq> [])" and ex: "fifo_exists s"
    and r: "readers s = has_r (at s p) + has_r ?b" and w: "writers s = has_w (at s p) + has_w ?b"
    using c by (simp_all add: chat_ctl_of_def)
  from c b st show ?thesis
  proof (cases rule: chat_moves)
    case enters
    with c show ?thesis by (simp add: chat_ctl_of_def)
  next
    case types
    with al ex r w show ?thesis by (intro ctl_move [OF c, of _ Open_W]) (simp_all add: allowed_input)
  next
    case open_w
    with ctl_open_w [OF c] show ?thesis by simp
  next
    case writes
    with al have "allowed Close_W ?b True" using allowed_writing by metis
    with writes ex r w show ?thesis by (intro ctl_move [OF c, of _ Close_W]) simp_all
  next
    case close_w
    with al have "allowed Open_R ?b (fifo s \<noteq> [])" using allowed_close_w by metis
    with close_w ex r w show ?thesis by (intro ctl_move [OF c, of _ Open_R]) simp_all
  next
    case open_r
    with ctl_open_r [OF c] show ?thesis by simp
  next
    case reads
    with al have "allowed Close_R ?b False" using allowed_reading by metis
    with reads ex r w show ?thesis by (intro ctl_move [OF c, of _ Close_R]) simp_all
  next
    case close_r
    with al have "allowed Printing ?b (fifo s \<noteq> [])" using allowed_close_r by metis
    with close_r ex r w show ?thesis by (intro ctl_move [OF c, of _ Printing]) simp_all
  next
    case prints
    with al have "allowed Input ?b (fifo s \<noteq> [])" using allowed_printing by metis
    with prints ex r w show ?thesis by (intro ctl_move [OF c, of _ Input]) simp_all
  qed
qed

lemma buffers_step:
  assumes c: "chat_ctl_of p s" and b: "buffers_ok s" and st: "chat_step_at (cpc s p) p s = Some s'"
  shows "buffers_ok s'"
  using c b st
proof (cases rule: chat_moves)
  case types
  have "length (inputbuf s' q) = 1024 \<and> NUL \<in> set (inputbuf s' q)" for q
    using types b input_message_ok [of s p] input_message_other [of q p s]
    by (cases "q = p") (simp_all add: buffers_ok_def)
  with types b show ?thesis by (simp add: buffers_ok_def)
next
  case writes
  have "length (cstr (inputbuf s p)) < 1024" using b cstr_short [of "inputbuf s p"] by (simp add: buffers_ok_def)
  with writes b show ?thesis by (auto simp: buffers_ok_def)
qed (use b in \<open>simp_all add: buffers_ok_def\<close>)

section \<open>The dialogue\<close>

text \<open>What one side has written and the other has not yet printed: at most one message.\<close>

definition in_transit :: "side \<Rightarrow> chat \<Rightarrow> string list" where
  "in_transit p s = (let q = other_side p in
     if at s q = Close_R \<or> at s q = Printing then [cstr (readbuf s q)]
     else if at s q = Reading \<and> fifo s \<noteq> [] then [cstr (fifo s)] else [])"

lemma in_transit_cases: "in_transit p s = [] \<or> (\<exists>m. in_transit p s = [m])"
  by (simp add: in_transit_def Let_def)

definition delivered :: "side \<Rightarrow> chat \<Rightarrow> bool" where
  "delivered p s \<longleftrightarrow> said s p = heard s (other_side p) @ in_transit p s"

text \<open>Whose turn it is to write next.\<close>

definition writes_next :: "side \<Rightarrow> chat \<Rightarrow> bool" where
  "writes_next p s \<longleftrightarrow> at s p \<in> {Input, Open_W, Wait_W, Writing, Close_R, Printing} \<or> at s p = Reading \<and> fifo s \<noteq> []"

definition turns_ok :: "chat \<Rightarrow> bool" where
  "turns_ok s \<longleftrightarrow> length (said s Write_Fifo) = length (said s Read_Fifo) + of_bool (\<not> writes_next Write_Fifo s)"

lemma at_goto:
  "pc \<noteq> Access \<Longrightarrow> at (goto_c p pc t) p = pc" "q \<noteq> p \<Longrightarrow> cpc t = cpc s \<Longrightarrow> at (goto_c p pc t) q = at s q"
  by (simp_all add: at_def)

text \<open>The positions after an open, which may also wake the other side.\<close>

lemma at_open_w:
  assumes c: "chat_ctl_of p s" and pc: "cpc s p = Open_W"
  shows "fifo s = [] \<and> at (open_wronly p s) p \<in> {Wait_W, Writing} \<and> (at (open_wronly p s) (other_side p) = at s (other_side p) \<or>
    at s (other_side p) = Wait_R \<and> at (open_wronly p s) (other_side p) = Reading)"
proof -
  have "at s p = Open_W" using pc by (simp add: at_def)
  with c have "allowed Open_W (at s (other_side p)) (fifo s \<noteq> [])" by (simp add: chat_ctl_of_def)
  from allowed_open_w [OF this] have "fifo s = []" by simp
  moreover have "cpc s (other_side p) = Wait_R \<Longrightarrow> at s (other_side p) = Wait_R" by (simp add: at_def)
  ultimately show ?thesis
    by (simp add: open_wronly_def Let_def wake_def at_def)
qed

lemma at_open_r:
  assumes c: "chat_ctl_of p s" and pc: "cpc s p = Open_R"
  shows "(at (open_rdonly p s) p = Wait_R \<or> at (open_rdonly p s) p = Reading \<and> fifo s = []) \<and>
    (at (open_rdonly p s) (other_side p) = at s (other_side p) \<or>
     at s (other_side p) = Wait_W \<and> at (open_rdonly p s) (other_side p) = Writing)"
proof -
  have "at s p = Open_R" using pc by (simp add: at_def)
  with c have al: "allowed Open_R (at s (other_side p)) (fifo s \<noteq> [])" and w: "writers s = has_w (at s (other_side p))"
    by (simp_all add: chat_ctl_of_def)
  have "0 < writers s \<Longrightarrow> fifo s = []" using allowed_open_r [OF al] w has_w_zero by force
  moreover have "cpc s (other_side p) = Wait_W \<Longrightarrow> at s (other_side p) = Wait_W" by (simp add: at_def)
  ultimately show ?thesis
    by (simp add: open_rdonly_def Let_def wake_def at_def)
qed

lemma dialogue_step:
  assumes c: "chat_ctl_of p s" and b: "buffers_ok s" and st: "chat_step_at (cpc s p) p s = Some s'"
    and d: "delivered p s" "delivered (other_side p) s"
  shows "delivered p s' \<and> delivered (other_side p) s'"
  using c b st
proof (cases rule: chat_moves)
  case enters
  with d show ?thesis by (simp add: delivered_def in_transit_def Let_def)
next
  case types
  with d show ?thesis by (simp add: delivered_def in_transit_def Let_def)
next
  case open_w
  then have "at s p = Open_W" by (simp add: at_def)
  with at_open_w [OF c open_w(1)] open_w d show ?thesis by (auto simp: delivered_def in_transit_def Let_def)
next
  case writes
  have o: "at s' (other_side p) = at s (other_side p)" using writes(4) by (simp add: at_def)
  have "at s p = Writing" "at s' p = Close_W" "cstr (fifo s') = cstr (inputbuf s p)"
    using writes(1,4) by (simp_all add: at_def)
  with writes o d show ?thesis by (simp add: delivered_def in_transit_def Let_def)
next
  case close_w
  with d show ?thesis by (simp add: delivered_def in_transit_def Let_def)
next
  case open_r
  then have "at s p = Open_R" by (simp add: at_def)
  with at_open_r [OF c open_r(1)] open_r d show ?thesis by (auto simp: delivered_def in_transit_def Let_def)
next
  case reads
  note at = reads(5-7)
  obtain m where m: "c_string m" "fifo s = m @ [NUL]" using b reads(2) by (auto simp: buffers_ok_def)
  then have "cstr (readbuf s' p) = cstr (fifo s)" using reads by (simp add: cstr_overwrite)
  with reads at d show ?thesis by (auto simp: delivered_def in_transit_def Let_def)
next
  case close_r
  with d show ?thesis by (simp add: delivered_def in_transit_def Let_def)
next
  case prints
  with d show ?thesis by (simp add: delivered_def in_transit_def Let_def)
qed

text \<open>An open, even where it wakes the other side, leaves the turn where it is.\<close>

lemma turn_open_w:
  assumes c: "chat_ctl_of p s" and pc: "cpc s p = Open_W" and s': "s' = open_wronly p s"
  shows "writes_next p s' = writes_next p s \<and> writes_next (other_side p) s' = writes_next (other_side p) s"
proof -
  have a: "fifo s = []" "at s' p \<in> {Wait_W, Writing}" and
    o: "at s' (other_side p) = at s (other_side p) \<or> at s (other_side p) = Wait_R \<and> at s' (other_side p) = Reading"
    using at_open_w [OF c pc] s' by blast+
  have "fifo s' = []" by (simp add: s' a)
  then have "writes_next (other_side p) s' = writes_next (other_side p) s"
    using o a(1) by (elim disjE) (simp_all add: writes_next_def)
  moreover have "at s p = Open_W" using pc by (simp add: at_def)
  ultimately show ?thesis using a(2) by (auto simp: writes_next_def)
qed

lemma turn_open_r:
  assumes c: "chat_ctl_of p s" and pc: "cpc s p = Open_R" and s': "s' = open_rdonly p s"
  shows "writes_next p s' = writes_next p s \<and> writes_next (other_side p) s' = writes_next (other_side p) s"
proof -
  have a: "at s' p = Wait_R \<or> at s' p = Reading \<and> fifo s = []" and
    o: "at s' (other_side p) = at s (other_side p) \<or> at s (other_side p) = Wait_W \<and> at s' (other_side p) = Writing"
    using at_open_r [OF c pc] s' by blast+
  have f: "fifo s' = fifo s" by (simp add: s')
  have "writes_next (other_side p) s' = writes_next (other_side p) s"
    using o f by (elim disjE) (simp_all add: writes_next_def)
  moreover have "at s p = Open_R" using pc by (simp add: at_def)
  moreover have "\<not> writes_next p s'" using a f by (elim disjE) (simp_all add: writes_next_def)
  ultimately show ?thesis by (simp add: writes_next_def)
qed

text \<open>A turn passes on with a write and only then.\<close>

lemma turn_step:
  assumes c: "chat_ctl_of p s" and b: "buffers_ok s" and st: "chat_step_at (cpc s p) p s = Some s'"
  shows "(said s' = said s \<and> writes_next p s' = writes_next p s \<and>
      writes_next (other_side p) s' = writes_next (other_side p) s) \<or>
    (\<exists>m. said s' = (said s)(p := said s p @ [m]) \<and> writes_next p s \<and> \<not> writes_next p s' \<and>
      \<not> writes_next (other_side p) s \<and> writes_next (other_side p) s')"
  using c b st
proof (cases rule: chat_moves)
  case enters
  then show ?thesis by (simp add: writes_next_def)
next
  case types
  then show ?thesis by (simp add: writes_next_def)
next
  case open_w
  with turn_open_w [OF c open_w(1)] show ?thesis by simp
next
  case writes
  have o: "at s' (other_side p) = at s (other_side p)" using writes(4) by (simp add: at_def)
  have "at s p = Writing" "at s' p = Close_W" "fifo s' \<noteq> []"
    using writes(1,4) by (simp_all add: at_def)
  then have "writes_next p s" "\<not> writes_next p s'" "\<not> writes_next (other_side p) s" "writes_next (other_side p) s'"
    using writes(2,3) o by (simp_all add: writes_next_def)
  moreover have "said s' = (said s)(p := said s p @ [cstr (inputbuf s p)])" using writes(4) by simp
  ultimately show ?thesis by blast
next
  case close_w
  then show ?thesis by (simp add: writes_next_def)
next
  case open_r
  with turn_open_r [OF c open_r(1)] show ?thesis by simp
next
  case reads
  note at = reads(5-7)
  with reads show ?thesis by (auto simp: writes_next_def)
next
  case close_r
  then show ?thesis by (simp add: writes_next_def)
next
  case prints
  then show ?thesis by (simp add: writes_next_def)
qed

definition chat_inv :: "chat \<Rightarrow> bool" where
  "chat_inv s \<longleftrightarrow> (\<forall>p. chat_ctl_of p s) \<and> buffers_ok s \<and> (\<forall>p. delivered p s) \<and> turns_ok s"

lemma side_all: "(\<forall>p. P p) \<longleftrightarrow> P Write_Fifo \<and> P Read_Fifo"
  by (metis side.exhaust)

lemma chat_step_side:
  assumes i: "chat_inv s" and st: "chat_step a s = Some s'"
  obtains p where "chat_step_at (cpc s p) p s = Some s'"
proof -
  have "cpc s p \<noteq> Mkfifo" for p
  proof
    assume "cpc s p = Mkfifo"
    then have "at s p = Mkfifo" by (simp add: at_def)
    moreover have "chat_ctl_of p s" using i by (simp add: chat_inv_def)
    ultimately show False using allowed_never by (simp add: chat_ctl_of_def)
  qed
  then show thesis using st that by (cases a) (simp_all split: if_splits)
qed

lemma chat_inv_step:
  assumes i: "chat_inv s" and st: "chat_step a s = Some s'" shows "chat_inv s'"
proof -
  obtain p where m: "chat_step_at (cpc s p) p s = Some s'" using chat_step_side [OF i st] .
  have c: "chat_ctl_of p s" and b: "buffers_ok s" and d: "delivered p s" "delivered (other_side p) s" and t: "turns_ok s"
    using i by (simp_all add: chat_inv_def)
  have "chat_ctl_of q s'" for q
    using ctl_step [OF c b m] chat_ctl_other side_cases by metis
  moreover have "delivered q s'" for q using dialogue_step [OF c b m d] side_cases by metis
  moreover have "turns_ok s'"
    using turn_step [OF c b m] t by (cases p) (auto simp: turns_ok_def)
  ultimately show ?thesis using buffers_step [OF c b m] by (simp add: chat_inv_def)
qed

lemma chat_inv_init:
  assumes "\<forall>p. length (ib p) = 1024 \<and> NUL \<in> set (ib p)"
  shows "chat_inv (chat_init True typed ib rb)"
  using assms
  by (simp add: chat_inv_def chat_init_def chat_ctl_of_def buffers_ok_def delivered_def in_transit_def turns_ok_def
      writes_next_def at_def loop_start_def side_all allowed_def half_turn_def)

lemma chat_can_move:
  assumes "chat_inv s" shows "\<exists>p. chat_step (Side p) s \<noteq> None"
proof (rule ccontr)
  assume "\<nexists>p. chat_step (Side p) s \<noteq> None"
  then have stuck: "chat_step_at (cpc s p) p s = None" for p by simp
  have b: "at s p = Wait_W \<or> at s p = Wait_R \<or> at s p = Reading \<and> fifo s = []" for p
  proof -
    have "chat_ctl_of p s" using assms by (simp add: chat_inv_def)
    then have "allowed (at s p) (at s (other_side p)) (fifo s \<noteq> [])" by (simp add: chat_ctl_of_def)
    then have "at s p \<noteq> Broken_Pipe" "\<And>c. at s p \<noteq> Chat_Exited c" using allowed_never by metis+
    then show ?thesis using stuck [of p] by (cases "cpc s p") (auto simp: at_def split: if_splits)
  qed
  have "allowed (at s Write_Fifo) (at s Read_Fifo) (fifo s \<noteq> [])"
    using assms by (simp add: chat_inv_def chat_ctl_of_def side_all)
  with b [of Write_Fifo] b [of Read_Fifo] show False by (auto simp: allowed_def half_turn_def)
qed

section \<open>From the keyboard to the other screen\<close>

text \<open>
  How many times a side has asked for a line: once for each message written, and once more between
  the question and the write. The messages are the typed lines in order; behind the end of the
  input they are whatever the buffer holds.
\<close>

definition asked :: "side \<Rightarrow> chat \<Rightarrow> nat" where
  "asked p s = length (said s p) + of_bool (at s p = Open_W \<or> at s p = Wait_W \<or> at s p = Writing)"

definition typed_ok :: "(side \<Rightarrow> bytes) \<Rightarrow> side \<Rightarrow> chat \<Rightarrow> bool" where
  "typed_ok typed p s \<longleftrightarrow>
     file_lines (stdin_of s p) = drop (asked p s) (file_lines (typed p)) \<and>
     (\<forall>j. asked p s = Suc j \<longrightarrow> j < length (file_lines (typed p)) \<longrightarrow>
        cstr (inputbuf s p) = cstr (file_lines (typed p) ! j)) \<and>
     (\<forall>j<length (said s p). j < length (file_lines (typed p)) \<longrightarrow> said s p ! j = cstr (file_lines (typed p) ! j))"

text \<open>What a side's screen shows for the messages it has heard.\<close>

fun transcript :: "side \<Rightarrow> string list \<Rightarrow> string" where
  "transcript Write_Fifo ms = concat (map (\<lambda>m. ''input message: '' @ ''read: '' @ m) ms)"
| "transcript Read_Fifo ms = concat (map (\<lambda>m. ''read: '' @ m @ ''input message: '') ms)"

fun screen_ok :: "side \<Rightarrow> chat \<Rightarrow> bool" where
  "screen_ok Write_Fifo s \<longleftrightarrow> screen s Write_Fifo =
     transcript Write_Fifo (heard s Write_Fifo) @ (if at s Write_Fifo = Input then [] else ''input message: '')"
| "screen_ok Read_Fifo s \<longleftrightarrow> screen s Read_Fifo @ (if at s Read_Fifo = Input then ''input message: '' else []) =
     transcript Read_Fifo (heard s Read_Fifo)"

lemma cstr_store_line_any: "cstr (store_line b l) = cstr l"
proof (cases "c_string l")
  case True
  then show ?thesis by (simp add: cstr_store_line cstr_plain)
next
  case False
  then have "NUL \<in> set l" by (simp add: c_string_def)
  then show ?thesis by (simp add: store_line_def overwrite_start cstr_def takeWhile_append1 [where x = NUL])
qed

lemma io_frame [simp]:
  "stdin_of (goto_c p pc s) = stdin_of s" "screen (goto_c p pc s) = screen s"
  "stdin_of (wake p a b s) = stdin_of s" "screen (wake p a b s) = screen s"
  "stdin_of (open_wronly p s) = stdin_of s" "screen (open_wronly p s) = screen s"
  "stdin_of (open_rdonly p s) = stdin_of s" "screen (open_rdonly p s) = screen s"
  "stdin_of (show_on p t s) = stdin_of s" "screen (show_on p t s) = (screen s)(p := screen s p @ t)"
  by (simp_all add: goto_c_def wake_def open_wronly_def open_rdonly_def show_on_def Let_def)

lemma input_io:
  "q \<noteq> p \<Longrightarrow> stdin_of (input_message p s) q = stdin_of s q"
  "screen (input_message p s) = (screen s)(p := screen s p @ ''input message: '')"
  by (simp_all add: input_message_def Let_def split: option.splits)

text \<open>A move leaves the other side alone, except that it may wake it.\<close>

lemma other_untouched:
  assumes c: "chat_ctl_of p s" and b: "buffers_ok s" and st: "chat_step_at (cpc s p) p s = Some s'" and q: "q = other_side p"
  shows "stdin_of s' q = stdin_of s q \<and> inputbuf s' q = inputbuf s q \<and> said s' q = said s q \<and> heard s' q = heard s q \<and>
    screen s' q = screen s q \<and>
    (at s' q = at s q \<or> at s q = Wait_R \<and> at s' q = Reading \<or> at s q = Wait_W \<and> at s' q = Writing)"
  using c b st
proof (cases rule: chat_moves)
  case open_w
  with at_open_w [OF c open_w(1)] show ?thesis unfolding q by (simp only: open_frame io_frame) blast
next
  case open_r
  with at_open_r [OF c open_r(1)] show ?thesis unfolding q by (simp only: open_frame io_frame) blast
next
  case types
  then show ?thesis unfolding q by (simp add: input_io input_message_other at_def)
next
  case writes
  show ?thesis unfolding q using writes(4) by (simp add: at_def)
qed (simp_all add: q at_def)

text \<open>The moves of a side itself.\<close>

lemma quiet_move:
  assumes "typed_ok typed p s" and "screen_ok p s" and "asked p s' = asked p s" and "(at s' p = Input) = (at s p = Input)"
    and "stdin_of s' p = stdin_of s p" "inputbuf s' p = inputbuf s p" "said s' p = said s p" "heard s' p = heard s p"
      "screen s' p = screen s p"
  shows "typed_ok typed p s' \<and> screen_ok p s'"
proof
  show "typed_ok typed p s'" using assms unfolding typed_ok_def by simp
  show "screen_ok p s'" using assms by (cases p) simp_all
qed

lemma partner_kept:
  assumes c: "chat_ctl_of p s" and b: "buffers_ok s" and st: "chat_step_at (cpc s p) p s = Some s'"
    and ok: "typed_ok typed (other_side p) s" "screen_ok (other_side p) s"
  shows "typed_ok typed (other_side p) s' \<and> screen_ok (other_side p) s'"
  using other_untouched [OF c b st refl] by (intro quiet_move [OF ok]) (auto simp: asked_def)

lemma typed_input:
  assumes t: "typed_ok typed p s" and pc: "at s p = Input" and s': "s' = goto_c p Open_W (input_message p s)"
  shows "typed_ok typed p s'"
proof -
  let ?ls = "file_lines (typed p)"
  have k: "asked p s = length (said s p)" using pc by (simp add: asked_def)
  have k': "asked p s' = Suc (length (said s p))" by (simp add: asked_def s' at_def)
  have f: "file_lines (stdin_of s p) = drop (length (said s p)) ?ls" using t by (simp add: typed_ok_def k)
  have said: "said s' p = said s p" by (simp add: s')
  show ?thesis
  proof (cases "fgets 1024 (stdin_of s p)")
    case None
    then have e: "stdin_of s p = []" by simp
    have "input_message p s = show_on p ''input message: '' s"
      using None by (simp add: input_message_def Let_def del: fgets_None)
    then have "stdin_of s' p = []" unfolding s' by (simp add: e)
    moreover have "length ?ls \<le> length (said s p)" using f e by simp
    ultimately show ?thesis using t k' said by (simp add: typed_ok_def)
  next
    case (Some lr)
    obtain l rest where g: "fgets 1024 (stdin_of s p) = Some (l, rest)" using Some by (cases lr) simp
    have s'p: "stdin_of s' p = rest" "inputbuf s' p = store_line (inputbuf s p) l"
      unfolding s' by (simp_all add: input_message_def Let_def g)
    have d: "drop (length (said s p)) ?ls = l # file_lines rest" using f file_lines_step [OF g] by simp
    then have n: "length (said s p) < length ?ls" by (metis drop_all leI list.distinct(1))
    have "?ls ! length (said s p) = l" "file_lines rest = drop (Suc (length (said s p))) ?ls"
      using Cons_nth_drop_Suc [OF n] d by simp_all
    then show ?thesis using t k' said s'p by (simp add: typed_ok_def cstr_store_line_any)
  qed
qed

lemma typed_write:
  assumes t: "typed_ok typed p s" and pc: "at s p = Writing" and at': "at s' p = Close_W"
    and s': "stdin_of s' p = stdin_of s p" "inputbuf s' p = inputbuf s p" "said s' p = said s p @ [cstr (inputbuf s p)]"
  shows "typed_ok typed p s'"
proof -
  have k: "asked p s = Suc (length (said s p))" "asked p s' = Suc (length (said s p))"
    using pc at' s'(3) by (simp_all add: asked_def)
  show ?thesis using t unfolding typed_ok_def k s' by (auto simp: nth_append less_Suc_eq)
qed

lemma mover_kept:
  assumes c: "chat_ctl_of p s" and b: "buffers_ok s" and st: "chat_step_at (cpc s p) p s = Some s'"
    and t: "typed_ok typed p s" and sc: "screen_ok p s"
  shows "typed_ok typed p s' \<and> screen_ok p s'"
  using c b st
proof (cases rule: chat_moves)
  case enters
  show ?thesis by (intro quiet_move [OF t sc]) (simp_all add: asked_def enters(3), simp_all add: enters(2))
next
  case types
  have "screen_ok p s'" using sc types(2-4) by (cases p) (simp_all add: input_io)
  with typed_input [OF t types(3,2)] show ?thesis by blast
next
  case open_w
  with at_open_w [OF c open_w(1)] have "at s' p = Wait_W \<or> at s' p = Writing" by auto
  then show ?thesis by (intro quiet_move [OF t sc]) (auto simp: asked_def open_w(2,3))
next
  case writes
  have "typed_ok typed p s'" by (rule typed_write [OF t writes(5,6)]) (simp_all add: writes(4))
  moreover have "screen_ok p s'" using sc writes(4-6) by (cases p) simp_all
  ultimately show ?thesis by blast
next
  case close_w
  show ?thesis by (intro quiet_move [OF t sc]) (simp_all add: asked_def close_w(3,4), simp_all add: close_w(2))
next
  case open_r
  with at_open_r [OF c open_r(1)] have "at s' p = Wait_R \<or> at s' p = Reading" by auto
  then show ?thesis by (intro quiet_move [OF t sc]) (auto simp: asked_def open_r(2,3))
next
  case reads
  show ?thesis by (intro quiet_move [OF t sc]) (simp_all add: asked_def reads(5,6), simp_all add: reads(4))
next
  case close_r
  show ?thesis by (intro quiet_move [OF t sc]) (simp_all add: asked_def close_r(3,4), simp_all add: close_r(2))
next
  case prints
  have "typed_ok typed p s'" using t prints(3,4) unfolding typed_ok_def by (simp add: asked_def prints(2))
  moreover have "screen_ok p s'" using sc prints(2-4) by (cases p) simp_all
  ultimately show ?thesis by blast
qed

text \<open>All of it is an invariant of the chat that starts with the FIFO in place.\<close>

definition given_buffers :: "(side \<Rightarrow> bytes) \<Rightarrow> bool" where
  "given_buffers ib \<longleftrightarrow> (\<forall>p. length (ib p) = 1024 \<and> NUL \<in> set (ib p))"

definition chat_all :: "(side \<Rightarrow> bytes) \<Rightarrow> chat \<Rightarrow> bool" where
  "chat_all typed s \<longleftrightarrow> chat_inv s \<and> (\<forall>p. typed_ok typed p s \<and> screen_ok p s)"

lemma chat_all_init:
  assumes "given_buffers ib" shows "chat_all typed (chat_init True typed ib rb)"
proof -
  let ?s = "chat_init True typed ib rb"
  have a: "at ?s p = loop_start p" for p by (simp add: at_def chat_init_def)
  have "asked p ?s = 0" for p using loop_start_cases [of p] by (auto simp: asked_def a) (simp_all add: chat_init_def)
  then have "typed_ok typed p ?s" for p by (simp add: typed_ok_def) (simp add: chat_init_def)
  moreover have "screen_ok p ?s" for p
    by (cases p) (simp_all add: a loop_start_def, simp_all add: chat_init_def)
  ultimately show ?thesis using chat_inv_init assms unfolding chat_all_def given_buffers_def by blast
qed

lemma chat_all_step:
  assumes i: "chat_all typed s" and st: "chat_step a s = Some s'" shows "chat_all typed s'"
proof -
  have inv: "chat_inv s" using i by (simp add: chat_all_def)
  obtain p where m: "chat_step_at (cpc s p) p s = Some s'" using chat_step_side [OF inv st] .
  have c: "chat_ctl_of p s" "buffers_ok s" using inv by (simp_all add: chat_inv_def)
  have k: "typed_ok typed q s" "screen_ok q s" for q using i by (simp_all add: chat_all_def)
  have "typed_ok typed q s' \<and> screen_ok q s'" for q
    using mover_kept [OF c m k] partner_kept [OF c m k] side_cases [of q p] by metis
  then show ?thesis using chat_inv_step [OF inv st] by (simp add: chat_all_def)
qed

interpretation chat_run: inductive_invariant chat_step "chat_init True typed ib rb"
  "\<lambda>s. given_buffers ib \<longrightarrow> chat_all typed s" for typed ib rb
  by unfold_locales (blast intro: chat_all_init chat_all_step)+

lemma heard_nth:
  assumes "chat_all typed s" and "j < length (heard s p)" and "j < length (file_lines (typed (other_side p)))"
  shows "heard s p ! j = cstr (file_lines (typed (other_side p)) ! j)"
proof -
  have "delivered (other_side p) s" "typed_ok typed (other_side p) s"
    using assms(1) by (simp_all add: chat_all_def chat_inv_def)
  then have "said s (other_side p) = heard s p @ in_transit (other_side p) s"
    and t: "\<forall>j<length (said s (other_side p)). j < length (file_lines (typed (other_side p))) \<longrightarrow>
      said s (other_side p) ! j = cstr (file_lines (typed (other_side p)) ! j)"
    by (simp_all add: delivered_def typed_ok_def)
  then have "said s (other_side p) ! j = heard s p ! j" "j < length (said s (other_side p))"
    using assms(2) by (simp_all add: nth_append)
  then show ?thesis using t assms(3) by simp
qed

lemma heard_typed:
  assumes "chat_all typed s" and "length (heard s p) \<le> length (file_lines (typed (other_side p)))"
  shows "heard s p = map cstr (take (length (heard s p)) (file_lines (typed (other_side p))))"
  by (rule nth_equalityI) (use assms heard_nth [OF assms(1)] in simp_all)

section \<open>The chat goes on\<close>

text \<open>
  How far a side has come: ten points for each message it has printed, and its place in the turn.
  Every move of either side brings somebody on, and nobody back.
\<close>

fun turn_pos :: "chat_pc \<Rightarrow> nat" where
  "turn_pos Open_W = 1" | "turn_pos Wait_W = 2" | "turn_pos Writing = 3" | "turn_pos Close_W = 4"
| "turn_pos Open_R = 5" | "turn_pos Wait_R = 6" | "turn_pos Reading = 7" | "turn_pos Close_R = 8"
| "turn_pos Printing = 9" | "turn_pos _ = 0"

definition progress :: "side \<Rightarrow> chat \<Rightarrow> nat" where
  "progress p s = 10 * length (heard s p) + turn_pos (at s p) + of_bool (cpc s p \<noteq> Access)"

lemma not_back: "chat_step_at (cpc s p) p s = Some s' \<Longrightarrow> cpc s q \<noteq> Access \<Longrightarrow> cpc s' q \<noteq> Access"
  using loop_start_cases [of p]
  by (cases "cpc s p")
    (auto simp: open_wronly_def open_rdonly_def wake_def after_close_w_def discard_unread_def Let_def split: if_splits)

lemma other_advances:
  assumes c: "chat_ctl_of p s" and b: "buffers_ok s" and st: "chat_step_at (cpc s p) p s = Some s'"
  shows "progress (other_side p) s \<le> progress (other_side p) s'"
proof -
  let ?q = "other_side p"
  have "turn_pos (at s ?q) \<le> turn_pos (at s' ?q)" "heard s' ?q = heard s ?q"
    using other_untouched [OF c b st refl] by auto
  moreover have "of_bool (cpc s ?q \<noteq> Access) \<le> (of_bool (cpc s' ?q \<noteq> Access) :: nat)"
    using not_back [OF st, of ?q] by simp
  ultimately show ?thesis by (simp add: progress_def)
qed

lemma advanced:
  assumes "cpc s p \<noteq> Access" and "chat_step_at (cpc s p) p s = Some s'" and "turn_pos (cpc s p) < turn_pos (at s' p)"
    and "heard s' p = heard s p"
  shows "progress p s < progress p s'"
  using assms(1,3,4) not_back [OF assms(2,1)] by (simp add: progress_def at_pc)

lemma mover_advances:
  assumes c: "chat_ctl_of p s" and b: "buffers_ok s" and st: "chat_step_at (cpc s p) p s = Some s'"
  shows "progress p s < progress p s'"
  using c b st
proof (cases rule: chat_moves)
  case enters
  then have "at s' p = at s p" "cpc s' p \<noteq> Access" using loop_start_cases [of p] by (auto simp: at_def)
  with enters show ?thesis by (simp add: progress_def)
next
  case open_w
  have "turn_pos (at s' p) = 2 \<or> turn_pos (at s' p) = 3" using at_open_w [OF c open_w(1)] open_w(2) by auto
  then show ?thesis by (intro advanced [OF _ st]) (use open_w in auto)
next
  case open_r
  have "turn_pos (at s' p) = 6 \<or> turn_pos (at s' p) = 7" using at_open_r [OF c open_r(1)] open_r(2) by auto
  then show ?thesis by (intro advanced [OF _ st]) (use open_r in auto)
next
  case prints
  then have "at s p = Printing" "at s' p = Input" by (simp_all add: at_pc)
  with prints show ?thesis by (simp add: progress_def)
next
  case types
  show ?thesis by (intro advanced [OF _ st]) (simp_all add: types at_pc)
next
  case writes
  show ?thesis by (intro advanced [OF _ st]) (simp_all only: writes(1,4), simp_all add: at_pc)
next
  case close_w
  show ?thesis by (intro advanced [OF _ st]) (simp_all add: close_w at_pc)
next
  case reads
  show ?thesis by (intro advanced [OF _ st]) (simp_all only: reads(1,4), simp_all add: at_pc)
next
  case close_r
  show ?thesis by (intro advanced [OF _ st]) (simp_all add: close_r at_pc)
qed

lemma progress_step:
  assumes i: "chat_inv s" and st: "chat_step a s = Some s'"
  shows "progress Write_Fifo s + progress Read_Fifo s < progress Write_Fifo s' + progress Read_Fifo s'"
    and "length (heard s p) \<le> length (heard s' p)"
proof -
  obtain q where m: "chat_step_at (cpc s q) q s = Some s'" using chat_step_side [OF i st] .
  have c: "chat_ctl_of q s" "buffers_ok s" using i by (simp_all add: chat_inv_def)
  from mover_advances [OF c m] other_advances [OF c m]
  show "progress Write_Fifo s + progress Read_Fifo s < progress Write_Fifo s' + progress Read_Fifo s'"
    by (cases q) simp_all
  show "length (heard s p) \<le> length (heard s' p)"
    using c m by (cases rule: chat_moves) (auto simp: fun_upd_def)
qed

text \<open>The sides are at most one message apart, which bounds the sum until both have heard enough.\<close>

definition both_heard :: "nat \<Rightarrow> chat \<Rightarrow> bool" where
  "both_heard n s \<longleftrightarrow> (\<forall>p. n \<le> length (heard s p))"

definition chat_left :: "nat \<Rightarrow> chat \<Rightarrow> nat" where
  "chat_left n s = 20 * n + 30 - (progress Write_Fifo s + progress Read_Fifo s)"

lemma turn_pos_le: "turn_pos pc \<le> 9"
  by (cases pc) simp_all

lemma heard_close:
  assumes "chat_inv s" shows "length (heard s p) \<le> length (heard s (other_side p)) + 2"
proof -
  have "delivered Write_Fifo s" "delivered Read_Fifo s" "turns_ok s" using assms by (simp_all add: chat_inv_def)
  then have "length (said s Write_Fifo) = length (heard s Read_Fifo) + length (in_transit Write_Fifo s)"
    "length (said s Read_Fifo) = length (heard s Write_Fifo) + length (in_transit Read_Fifo s)"
    "length (said s Write_Fifo) = length (said s Read_Fifo) + of_bool (\<not> writes_next Write_Fifo s)"
    by (simp_all add: delivered_def turns_ok_def)
  moreover have "length (in_transit Write_Fifo s) \<le> 1" "length (in_transit Read_Fifo s) \<le> 1"
    using in_transit_cases [of Write_Fifo s] in_transit_cases [of Read_Fifo s] by auto
  moreover have "of_bool (\<not> writes_next Write_Fifo s) \<le> (1 :: nat)" by simp
  ultimately have "length (heard s Read_Fifo) \<le> length (heard s Write_Fifo) + 2"
    "length (heard s Write_Fifo) \<le> length (heard s Read_Fifo) + 2" by linarith+
  then show ?thesis by (cases p) simp_all
qed

lemma progress_bounded:
  assumes "chat_inv s" and "\<not> both_heard n s" shows "progress Write_Fifo s + progress Read_Fifo s < 20 * n + 30"
proof -
  obtain p where "length (heard s p) < n" using assms(2) by (auto simp: both_heard_def not_le)
  moreover from this have "length (heard s (other_side p)) \<le> n + 1"
    using heard_close [OF assms(1), of "other_side p"] by simp
  moreover have "progress q s \<le> 10 * length (heard s q) + 10" for q
    using turn_pos_le [of "at s q"] by (simp add: progress_def)
  from this [of p] this [of "other_side p"] have
    "progress p s + progress (other_side p) s \<le> 10 * length (heard s p) + 10 * length (heard s (other_side p)) + 20"
    by linarith
  ultimately have "progress p s + progress (other_side p) s < 20 * n + 30" by linarith
  then show ?thesis by (cases p) (simp_all add: add.commute)
qed

lemma heard_first:
  assumes a: "chat_all typed s" and n: "n \<le> length (heard s p)" "n \<le> length (file_lines (typed (other_side p)))"
  shows "take n (heard s p) = map cstr (take n (file_lines (typed (other_side p))))"
proof (rule nth_equalityI)
  fix j assume "j < length (take n (heard s p))"
  then show "take n (heard s p) ! j = map cstr (take n (file_lines (typed (other_side p)))) ! j"
    using heard_nth [OF a] n by simp
qed (use n in simp)

definition chatters :: "chat_actor set" where
  "chatters = {Side Write_Fifo, Side Read_Fifo}"

lemma chat_left_down:
  assumes "chat_inv s" and "chat_step a s = Some t" and "\<not> both_heard n s" shows "chat_left n t < chat_left n s"
  using progress_step(1) [OF assms(1,2)] progress_bounded [OF assms(1,3)] by (simp add: chat_left_def)

text \<open>Every move lowers what is left until both sides have heard \<open>n\<close> messages.\<close>

lemma chat_fair:
  assumes "given_buffers ib"
  shows "fair_termination chat_step (chat_init True typed ib rb) chatters (chat_left n) (both_heard n)"
proof -
  have inv: "chat_inv s" if "reach chat_step (chat_init True typed ib rb) s" for s
    using chat_run.inv_reach [OF that] assms by (simp add: chat_all_def)
  show ?thesis
  proof (unfold_locales, goal_cases)
    case (1 s a t)
    then show ?case using progress_step(2) [OF inv] unfolding both_heard_def by (metis le_trans)
  next
    case (2 s a t)
    then show ?case using chat_left_down [OF inv] less_imp_le by blast
  next
    case (3 s)
    then obtain p t where p: "chat_step (Side p) s = Some t" using chat_can_move [OF inv] by blast
    moreover have "Side p \<in> chatters" by (cases p) (simp_all add: chatters_def)
    ultimately show ?case using chat_left_down [OF inv p] 3 by blast
  next
    case (4 s a t b u)
    then show ?case using chat_left_down [OF inv] by (metis less_irrefl)
  qed
qed

section \<open>Properties\<close>

text \<open>
  C5: with the FIFO in place, in every reachable state of the two programs: the messages a side
  has printed are the lines typed on the other side, in order, as long as there are any; its
  screen is the transcript of these messages with the questions in between; what it has printed
  is all that the other has written, but for at most one message under way; the writing
  alternates, \<open>write_fifo\<close> first; and the chat is never stuck, some process can always move.
\<close>
theorem fifo_dialogue:
  assumes "given_buffers ib" and "reach chat_step (chat_init True typed ib rb) s"
  shows "(\<forall>p. length (heard s p) \<le> length (file_lines (typed (other_side p))) \<longrightarrow>
      heard s p = map cstr (take (length (heard s p)) (file_lines (typed (other_side p))))) \<and>
    (\<forall>p. screen_ok p s) \<and>
    (\<forall>p. said s p = heard s (other_side p) \<or> (\<exists>m. said s p = heard s (other_side p) @ [m])) \<and>
    (length (said s Write_Fifo) = length (said s Read_Fifo) \<or> length (said s Write_Fifo) = length (said s Read_Fifo) + 1) \<and>
    (\<exists>p. chat_step (Side p) s \<noteq> None)"
proof -
  have a: "chat_all typed s" using chat_run.inv_reach [OF assms(2)] assms(1) by blast
  then have i: "chat_inv s" and sc: "\<forall>p. screen_ok p s" by (simp_all add: chat_all_def)
  have "said s p = heard s (other_side p) \<or> (\<exists>m. said s p = heard s (other_side p) @ [m])" for p
    using i in_transit_cases [of p s] unfolding chat_inv_def delivered_def by (metis append_Nil2)
  moreover have "length (said s Write_Fifo) = length (said s Read_Fifo) \<or>
      length (said s Write_Fifo) = length (said s Read_Fifo) + 1"
    using i by (cases "writes_next Write_Fifo s") (simp_all add: chat_inv_def turns_ok_def)
  ultimately show ?thesis using heard_typed [OF a] sc chat_can_move [OF i] by blast
qed

definition chat_example :: chat where
  "chat_example = run_schedule chat_step (concat (replicate 8 [Side Read_Fifo, Side Write_Fifo]))
     (chat_init True (\<lambda>p. ''hi'' @ [nl]) (\<lambda>p. replicate 1024 NUL) (\<lambda>p. replicate 1024 NUL))"

theorem fifo_dialogue_witness:
  "heard chat_example Read_Fifo = [''hi'' @ [nl]] \<and> screen_ok Read_Fifo chat_example \<and>
   (\<exists>p. chat_step (Side p) chat_example \<noteq> None)"
proof -
  have h: "heard chat_example Read_Fifo = [''hi'' @ [nl]]" by code_simp
  have r: "reach chat_step (chat_init True (\<lambda>p. ''hi'' @ [nl]) (\<lambda>p. replicate 1024 NUL) (\<lambda>p. replicate 1024 NUL)) chat_example"
    unfolding chat_example_def by (rule reach_run_schedule [OF reach_init])
  have "given_buffers (\<lambda>p. replicate 1024 NUL)" by code_simp
  from fifo_dialogue [OF this r] h show ?thesis by blast
qed



definition chat_race :: "chat_actor list" where
  "chat_race = [Side Write_Fifo, Side Read_Fifo, Side Read_Fifo, Side Write_Fifo, Side Read_Fifo]"

text \<open>
  C39: without the FIFO both programs may find it missing before one of them creates it; then the
  other one ends with status 1, and the first one waits for ever in its first open.
\<close>
theorem fifo_race:
  "let s = run_schedule chat_step (chat_race @ as) (chat_init False typed ib rb) in
   cpc s Write_Fifo = Chat_Exited 1 \<and> cpc s Read_Fifo = Wait_R \<and>
   errors s Write_Fifo = ''mkfifo error: File exists'' @ [nl]"
proof -
  let ?s = "run_schedule chat_step chat_race (chat_init False typed ib rb)"
  have h: "cpc ?s Write_Fifo = Chat_Exited 1" "cpc ?s Read_Fifo = Wait_R"
    "errors ?s Write_Fifo = ''mkfifo error: File exists'' @ [nl]"
    by (simp_all add: chat_race_def chat_init_def goto_c_def show_on_def loop_start_def open_rdonly_def Let_def)
  have stuck: "run_schedule chat_step as t = t" if "cpc t Write_Fifo = Chat_Exited 1" "cpc t Read_Fifo = Wait_R" for t
  proof (induction as)
    case (Cons a as)
    have "chat_step a t = None"
    proof (cases a)
      case (Side p)
      with that show ?thesis by (cases p) simp_all
    next
      case (Mkfifo_Fails p e)
      with that show ?thesis by (cases p) simp_all
    qed
    with Cons show ?case by simp
  qed simp
  show ?thesis unfolding run_schedule_append Let_def stuck [OF h(1,2)] using h by simp
qed

end
