(* ===== verification/Chat_Channel.thy ===== *)
theory Chat_Channel
  imports Fifo_Chat
begin

text \<open>
  The specification of the chat of \<open>fifo/write_fifo.c\<close> and \<open>fifo/read_fifo.c\<close> without FIFO, descriptors
  and buffers: a channel that holds one message at most, on which the two sides say their lines in
  turn. The two programs refine it.
\<close>

section \<open>Specification\<close>

record dialogue =
  spoken :: "side \<Rightarrow> string list"
  received :: "side \<Rightarrow> string list"

definition silence :: dialogue where
  "silence = \<lparr>spoken = (\<lambda>_. []), received = (\<lambda>_. [])\<rparr>"

text \<open>
  A side may speak when everything has been received and it is its turn, \<open>Write_Fifo\<close> begins. It says
  its next line, or anything when it has no line left. What was said can be received once.
\<close>

definition quiet :: "dialogue \<Rightarrow> bool" where
  "quiet d \<longleftrightarrow> (\<forall>p. spoken d p = received d (other_side p))"

definition turn_of :: "dialogue \<Rightarrow> side" where
  "turn_of d = (if length (spoken d Write_Fifo) = length (spoken d Read_Fifo) then Write_Fifo else Read_Fifo)"

inductive channel :: "(side \<Rightarrow> string list) \<Rightarrow> dialogue \<Rightarrow> dialogue \<Rightarrow> bool" for ls where
  speaks: "quiet d \<Longrightarrow> turn_of d = p \<Longrightarrow>
    (length (spoken d p) < length (ls p) \<Longrightarrow> m = cstr (ls p ! length (spoken d p))) \<Longrightarrow>
    channel ls d (d\<lparr>spoken := (spoken d)(p := spoken d p @ [m])\<rparr>)"
| receives: "spoken d (other_side p) = received d p @ [m] \<Longrightarrow>
    channel ls d (d\<lparr>received := (received d)(p := received d p @ [m])\<rparr>)"

section \<open>The programs refine it\<close>

definition chat_view :: "chat \<Rightarrow> dialogue" where
  "chat_view s = \<lparr>spoken = said s, received = heard s\<rparr>"

definition typed_lines :: "(side \<Rightarrow> bytes) \<Rightarrow> side \<Rightarrow> string list" where
  "typed_lines typed p = file_lines (typed p)"

text \<open>A write finds the channel quiet and the writer's turn come.\<close>

lemma write_speaks:
  assumes a: "chat_all typed s" and pc: "cpc s p = Writing" and o: "at s (other_side p) = Reading" and e: "fifo s = []"
    and s': "said s' = (said s)(p := said s p @ [cstr (inputbuf s p)])" "heard s' = heard s"
  shows "channel (typed_lines typed) (chat_view s) (chat_view s')"
proof -
  have i: "delivered q s" "turns_ok s" for q using a by (simp_all add: chat_all_def chat_inv_def)
  have at: "at s p = Writing" using pc by (simp add: at_def)
  have n: "in_transit p s = []" "in_transit (other_side p) s = []" using o e at by (simp_all add: in_transit_def Let_def)
  have "said s q = heard s (other_side q)" for q
    using i(1) [of q] n side_cases [of q p] by (auto simp: delivered_def)
  then have q: "quiet (chat_view s)" by (simp add: quiet_def chat_view_def)
  have "writes_next p s" "\<not> writes_next (other_side p) s" using at o e by (simp_all add: writes_next_def)
  then have t: "turn_of (chat_view s) = p"
    using i(2) by (cases p) (simp_all add: turns_ok_def turn_of_def chat_view_def)
  have "asked p s = Suc (length (said s p))" using at by (simp add: asked_def)
  moreover have "typed_ok typed p s" using a by (simp add: chat_all_def)
  ultimately have m: "cstr (inputbuf s p) = cstr (typed_lines typed p ! length (said s p))"
    if "length (said s p) < length (typed_lines typed p)"
    using that by (simp add: typed_ok_def typed_lines_def)
  have "channel (typed_lines typed) (chat_view s)
      ((chat_view s)\<lparr>spoken := (spoken (chat_view s))(p := spoken (chat_view s) p @ [cstr (inputbuf s p)])\<rparr>)"
    by (rule speaks [OF q t]) (use m in \<open>simp add: chat_view_def\<close>)
  then show ?thesis by (simp add: chat_view_def s')
qed

lemma print_receives:
  assumes a: "chat_all typed s" and pc: "cpc s p = Printing"
    and s': "said s' = said s" "heard s' = (heard s)(p := heard s p @ [cstr (readbuf s p)])"
  shows "channel ls (chat_view s) (chat_view s')"
proof -
  have "delivered (other_side p) s" using a by (simp add: chat_all_def chat_inv_def)
  moreover have "at s p = Printing" using pc by (simp add: at_def)
  ultimately have "spoken (chat_view s) (other_side p) = received (chat_view s) p @ [cstr (readbuf s p)]"
    by (simp add: delivered_def in_transit_def Let_def chat_view_def)
  from receives [OF this] show ?thesis by (simp add: chat_view_def s')
qed

lemma chat_simulated:
  assumes a: "chat_all typed s" and st: "chat_step x s = Some s'"
  shows "chat_view s' = chat_view s \<or> channel (typed_lines typed) (chat_view s) (chat_view s')"
proof -
  have inv: "chat_inv s" using a by (simp add: chat_all_def)
  obtain p where m: "chat_step_at (cpc s p) p s = Some s'" using chat_step_side [OF inv st] .
  have c: "chat_ctl_of p s" "buffers_ok s" using inv by (simp_all add: chat_inv_def)
  from c m show ?thesis
  proof (cases rule: chat_moves)
    case writes
    then show ?thesis using write_speaks [OF a writes(1,2,3), of s'] by simp
  next
    case prints
    then show ?thesis using print_receives [OF a prints(1), of s'] by simp
  qed (simp_all add: chat_view_def)
qed

lemma chat_simulation:
  assumes "given_buffers ib"
  shows "simulation chat_step (chat_init True typed ib rb) (chat_all typed) (channel (typed_lines typed)) chat_view"
proof unfold_locales
  show "chat_all typed (chat_init True typed ib rb)" by (rule chat_all_init [OF assms])
qed (rule chat_all_step chat_simulated; assumption)+

section \<open>Properties\<close>

text \<open>
  C15: with the FIFO in place every run of the two programs, under any schedule and with any lines
  typed, is a run of the channel when only what was said and received is seen, the rest of the
  calls being invisible: one message at most is under way, the sides speak in turn, each message
  is received once and in order, and it is the next typed line.
\<close>
theorem fifo_refines:
  assumes "given_buffers ib"
  shows "spec_run (channel (typed_lines typed)) silence
    (abstract_run chat_view (run_states chat_step as (chat_init True typed ib rb)))"
proof -
  have "chat_view (chat_init True typed ib rb) = silence"
    by (simp add: chat_view_def chat_init_def silence_def)
  then show ?thesis using simulation.run_refines [OF chat_simulation [OF assms]] by metis
qed

definition channel_example :: "dialogue list" where
  "channel_example = abstract_run chat_view (run_states chat_step (concat (replicate 8 [Side Read_Fifo, Side Write_Fifo]))
     (chat_init True (\<lambda>p. ''hi'' @ [nl]) (\<lambda>p. replicate 1024 NUL) (\<lambda>p. replicate 1024 NUL)))"

theorem fifo_refines_witness:
  "spec_run (channel (typed_lines (\<lambda>p. ''hi'' @ [nl]))) silence channel_example \<and> length channel_example = 3 \<and>
   received (last channel_example) Read_Fifo = [''hi'' @ [nl]]"
proof -
  have "given_buffers (\<lambda>p. replicate 1024 NUL)" by code_simp
  from fifo_refines [OF this] have "spec_run (channel (typed_lines (\<lambda>p. ''hi'' @ [nl]))) silence channel_example"
    by (simp only: channel_example_def)
  moreover have "length channel_example = 3 \<and> received (last channel_example) Read_Fifo = [''hi'' @ [nl]]" by code_simp
  ultimately show ?thesis by blast
qed

end
