(* ===== verification/Chat_Failures.thy ===== *)
theory Chat_Failures
  imports Fifo_Chat
begin

text \<open>
  The failing calls of \<open>fifo/write_fifo.c\<close> and \<open>fifo/read_fifo.c\<close>, whose results neither program looks
  at. After a failed open the descriptor is -1, on which the following read or write and the close
  fail as well and do nothing, so that a whole half turn is lost; a failed read leaves the old
  message in \<open>readbuf\<close>, a failed write drops the message.
\<close>

section \<open>Steps\<close>

fun chat_call_fails :: "chat_pc \<Rightarrow> side \<Rightarrow> chat \<Rightarrow> chat option" where
  "chat_call_fails Open_W p s = Some (goto_c p (after_close_w p) s)"
| "chat_call_fails Writing p s = Some (goto_c p Close_W s)"
| "chat_call_fails Open_R p s = Some (goto_c p Printing s)"
| "chat_call_fails Reading p s = Some (goto_c p Close_R s)"
| "chat_call_fails _ p s = None"

datatype chat_event = Runs chat_actor | Call_Fails side

fun chat_faulty :: "chat_event \<Rightarrow> chat \<Rightarrow> chat option" where
  "chat_faulty (Runs a) s = chat_step a s"
| "chat_faulty (Call_Fails p) s = chat_call_fails (cpc s p) p s"

lemma faulty_reach: "reach chat_step i s \<Longrightarrow> reach chat_faulty i s"
proof (induction rule: reach.induct)
  case (reach_step s a t)
  then have "chat_faulty (Runs a) s = Some t" by simp
  with reach_step.IH show ?case by (rule reach.reach_step)
qed (rule reach_init)

section \<open>Both wait to read\<close>

text \<open>Nobody writes, and both are on their way into an open for reading, or in it.\<close>

fun read_place :: "chat_pc \<Rightarrow> nat" where
  "read_place Access = 0" | "read_place Open_R = 1" | "read_place Wait_R = 2" | "read_place _ = 3"

definition both_read :: "chat \<Rightarrow> bool" where
  "both_read s \<longleftrightarrow> fifo_exists s \<and> writers s = 0 \<and> (\<forall>q. read_place (cpc s q) \<le> 2) \<and> cpc s Write_Fifo \<noteq> Access"

lemma read_places: "read_place c \<le> 2 \<longleftrightarrow> c = Access \<or> c = Open_R \<or> c = Wait_R"
  by (cases c) simp_all

lemma open_rdonly_waits:
  "writers s = 0 \<Longrightarrow> open_rdonly q s = goto_c q Wait_R (s\<lparr>readers := readers s + 1\<rparr>)"
  by (simp add: open_rdonly_def Let_def)

lemma both_read_step:
  assumes b: "both_read s" and st: "chat_step a s = Some t"
  obtains q where "a = Side q" "both_read t" "said t = said s" "heard t = heard s"
    "read_place (cpc t q) = Suc (read_place (cpc s q))" "\<And>p. p \<noteq> q \<Longrightarrow> cpc t p = cpc s p"
proof -
  have pl: "cpc s q = Access \<or> cpc s q = Open_R \<or> cpc s q = Wait_R" for q
    using b read_places by (simp add: both_read_def)
  obtain q where a: "a = Side q"
  proof (cases a)
    case (Mkfifo_Fails p e)
    with st pl [of p] show thesis by (auto split: if_splits)
  qed (rule that)
  have w: "writers s = 0" "fifo_exists s" using b by (simp_all add: both_read_def)
  have "(cpc s q = Access \<and> q = Read_Fifo \<and> t = goto_c q Open_R s) \<or>
      (cpc s q = Open_R \<and> t = goto_c q Wait_R (s\<lparr>readers := readers s + 1\<rparr>))"
  proof (cases "cpc s q")
    case Access
    then have "q = Read_Fifo" using b by (cases q) (simp_all add: both_read_def)
    with Access st a w show ?thesis by (simp add: loop_start_def)
  next
    case Open_R
    with st a open_rdonly_waits [OF w(1)] show ?thesis by simp
  qed (use pl [of q] st a in simp_all)
  then show thesis
  proof (elim disjE conjE)
    assume "cpc s q = Access" "q = Read_Fifo" "t = goto_c q Open_R s"
    with a b show thesis by (intro that [of q]) (simp_all add: both_read_def)
  next
    assume "cpc s q = Open_R" "t = goto_c q Wait_R (s\<lparr>readers := readers s + 1\<rparr>)"
    with a b show thesis by (intro that [of q]) (simp_all add: both_read_def)
  qed
qed

lemma both_read_run:
  assumes "both_read s"
  shows "both_read (run_schedule chat_step as s) \<and> said (run_schedule chat_step as s) = said s \<and>
    heard (run_schedule chat_step as s) = heard s \<and>
    min 2 (read_place (cpc s q) + count_list as (Side q)) \<le> read_place (cpc (run_schedule chat_step as s) q)"
  using assms
proof (induction as arbitrary: s)
  case (Cons a as)
  show ?case
  proof (cases "chat_step a s")
    case None
    have "read_place (cpc s q) = 2" if "a = Side q"
    proof -
      have "read_place (cpc s q) \<le> 2" using Cons.prems by (simp add: both_read_def)
      then show ?thesis using None that by (cases "cpc s q") simp_all
    qed
    with Cons.IH [OF Cons.prems] None show ?thesis by (cases "a = Side q") (auto simp: min_def split: if_splits)
  next
    case (Some t)
    obtain p where p: "a = Side p" "both_read t" "said t = said s" "heard t = heard s"
      "read_place (cpc t p) = Suc (read_place (cpc s p))" "\<And>r. r \<noteq> p \<Longrightarrow> cpc t r = cpc s r"
      using both_read_step [OF Cons.prems Some] by metis
    have "read_place (cpc s q) + count_list (a # as) (Side q) = read_place (cpc t q) + count_list as (Side q)"
      using p(1,5) p(6) [of q] by (cases "q = p") simp_all
    with Cons.IH [OF p(2)] p(3,4) Some show ?thesis by simp
  qed
qed (simp add: both_read_def)

text \<open>In the end both are asleep, and no call is left that could even fail.\<close>

lemma both_asleep: "(\<And>q. cpc s q = Wait_R) \<Longrightarrow> chat_faulty e s = None"
proof -
  assume w: "\<And>q. cpc s q = Wait_R"
  show ?thesis
  proof (cases e)
    case (Runs a)
    with w show ?thesis by (cases a) simp_all
  qed (simp add: w)
qed

lemma open_fails_both_read:
  assumes "chat_all typed s" and "cpc s p = Open_W" and "at s (other_side p) = Open_R \<or> at s (other_side p) = Wait_R"
    and "chat_faulty (Call_Fails p) s = Some t"
  shows "both_read t \<and> said t = said s \<and> heard t = heard s"
proof -
  let ?q = "other_side p"
  have t: "t = goto_c p Open_R s" using assms(2,4) by (simp add: after_close_w_def)
  have c: "chat_ctl_of p s" using assms(1) by (simp add: chat_all_def chat_inv_def)
  have "at s p = Open_W" using assms(2) by (simp add: at_def)
  then have w: "writers s = 0" "fifo_exists s" using c assms(3) by (auto simp: chat_ctl_of_def)
  have o: "cpc s ?q = Access \<and> ?q = Read_Fifo \<or> cpc s ?q = Open_R \<or> cpc s ?q = Wait_R"
    using assms(3) by (cases "?q") (auto simp: at_def loop_start_def split: if_splits)
  have "read_place (cpc t q) \<le> 2" for q using o side_cases [of q p] by (auto simp: t)
  moreover have "cpc t Write_Fifo \<noteq> Access" using o by (cases p) (auto simp: t)
  ultimately show ?thesis using w by (simp add: both_read_def t)
qed

section \<open>Properties\<close>

text \<open>
  C38: when the open for writing of one side fails while the other one is about to open for reading
  or waits in that open, then the message is lost and the chat is over: both processes wait for ever
  to read, as soon as each of them has been scheduled twice, and nothing more is said or heard.
\<close>
theorem fifo_open_error:
  assumes "given_buffers ib" and "reach chat_step (chat_init True typed ib rb) s"
    and "cpc s p = Open_W" and "at s (other_side p) \<in> {Open_R, Wait_R}" and "chat_faulty (Call_Fails p) s = Some t"
    and "\<forall>q. 2 \<le> count_list as (Side q)" and "u = run_schedule chat_step as t"
  shows "(\<forall>q. cpc u q = Wait_R) \<and> (\<forall>e. chat_faulty e u = None) \<and> said u = said s \<and> heard u = heard s"
proof -
  have a: "chat_all typed s" using chat_run.inv_reach [OF assms(2)] assms(1) by blast
  have b: "both_read t" "said t = said s" "heard t = heard s"
    using open_fails_both_read [OF a assms(3) _ assms(5)] assms(4) by auto
  have "cpc u q = Wait_R" for q
  proof -
    have "2 \<le> read_place (cpc u q)" "both_read u"
      using both_read_run [OF b(1), of as q] assms(6) [rule_format, of q] by (simp_all add: assms(7))
    moreover from this(2) have "read_place (cpc u q) \<le> 2" by (simp add: both_read_def)
    ultimately show ?thesis by (cases "cpc u q") simp_all
  qed
  then show ?thesis using both_asleep both_read_run [OF b(1)] b assms(7) by metis
qed

definition open_error_start :: chat where
  "open_error_start = run_schedule chat_step [Side Write_Fifo, Side Write_Fifo]
     (chat_init True (\<lambda>p. ''hi'' @ [nl]) (\<lambda>p. replicate 1024 NUL) (\<lambda>p. replicate 1024 NUL))"

theorem fifo_open_error_witness:
  "\<exists>t. chat_faulty (Call_Fails Write_Fifo) open_error_start = Some t \<and>
    (\<forall>q. cpc (run_schedule chat_step (concat (replicate 2 [Side Read_Fifo, Side Write_Fifo])) t) q = Wait_R)"
proof -
  let ?as = "concat (replicate 2 [Side Read_Fifo, Side Write_Fifo])"
  have g: "given_buffers (\<lambda>p. replicate 1024 NUL)" by (simp add: given_buffers_def)
  have r: "reach chat_step (chat_init True (\<lambda>p. ''hi'' @ [nl]) (\<lambda>p. replicate 1024 NUL) (\<lambda>p. replicate 1024 NUL)) open_error_start"
    unfolding open_error_start_def by (rule reach_run_schedule [OF reach_init])
  have pc: "cpc open_error_start Write_Fifo = Open_W" "cpc open_error_start Read_Fifo = Access" by code_simp+
  then obtain t where t: "chat_faulty (Call_Fails Write_Fifo) open_error_start = Some t" by simp
  have "at open_error_start (other_side Write_Fifo) \<in> {Open_R, Wait_R}" using pc(2) by (simp add: at_def loop_start_def)
  moreover have "\<forall>q. 2 \<le> count_list ?as (Side q)" by (simp add: side_all numeral_2_eq_2)
  ultimately have "\<forall>q. cpc (run_schedule chat_step ?as t) q = Wait_R"
    using fifo_open_error [OF g r pc(1) _ t _ refl, of ?as] by blast
  with t show ?thesis by blast
qed

end
