(* ===== verification/Spec2Isabelle.thy ===== *)
theory Spec2Isabelle
  imports Atomic_Account Sysv_Semaphore Record_Lock Semaphore_Visits Address_Book Shared_Memory Sysv_Queue Posix_Queue File_Programs Stdio_Programs Pipe_Talk Signal_Programs Socket_Hello Stream_Sections Child_Status Calendar_Time Small_Programs Chat_Channel Chat_Failures
begin

text \<open>
  A verification of the example programs of the repository LinuxSystemProgrammingStudy: small C
  programs for Linux, each of which shows one facility of the system (threads, mutexes,
  semaphores, record locks, pipes, FIFOs, message queues, shared memory, signals, sockets, stdio,
  file attributes, processes, time). Every C program of the repository is modelled.

  \<^bold>\<open>The parts.\<close> The programs do not call each other. They interact through the system: two threads
  through the variables of one process, or two programs through a file, a queue, a segment, a
  FIFO, a socket or a signal. Where two programs are meant to be used together they are modelled
  together.

  \<^item> \<open>Prelude\<close>, \<open>C_Library\<close>, \<open>Console\<close>, \<open>Files\<close>: bytes, buffers and C strings; printf's \<open>%d\<close>,
    atoi, toupper, fgets and the bytes of an int; standard streams and scanf; a file system with
    permissions and a script of failures.
  \<^item> \<open>Interleaving\<close>: the semantics of several threads or processes and its interfaces, the locales
    \<open>inductive_invariant\<close>, \<open>lock_protocol\<close>, \<open>fair_termination\<close>, \<open>strict_termination\<close>, \<open>simulation\<close>,
    \<open>forward_simulation\<close> and \<open>serial_sections\<close> (critical sections that take effect one after the
    other). They are interpreted on the programs' own step functions, in the theory of the program.
  \<^item> \<open>Bank_Account\<close> (\<open>pthread_example.c\<close>): \<open>withdrawal\<close> and \<open>account_main\<close> are the threads.
    \<open>Atomic_Account\<close>: the account with atomic withdrawals that the program refines.
  \<^item> \<open>Sysv_Semaphore\<close> (\<open>SysV/sem_example.c\<close>): \<open>print_one\<close>, \<open>sem_main\<close>, the macros \<open>SEM_P\<close> and \<open>SEM_V\<close> as
    \<open>semop_p\<close> and \<open>semop_v\<close> with the adjustment that SEM_UNDO keeps.
  \<^item> \<open>Posix_Semaphore\<close> (\<open>POSIX/sem_posix_example.c\<close>): \<open>thread_t1\<close>, \<open>thread_t2\<close> with its retry loop.
    \<open>Semaphore_Visits\<close>: the list of whole visits of the critical section that the program refines.
  \<^item> \<open>Record_Lock\<close> (\<open>record_lock_test.c\<close>): \<open>rec_main\<close> for any number of processes on one file and the
    kernel's table of record locks.
  \<^item> \<open>Stream_Lock\<close> (\<open>flock_example.c\<close>): \<open>mod_file_thread\<close>, two threads on one stream.
    \<open>Stream_Sections\<close>: the stream with whole sections that the program refines.
  \<^item> \<open>Pipe_Talk\<close> (\<open>pipe_example.c\<close>), \<open>Fifo_Chat\<close> (\<open>fifo/write_fifo.c\<close>, \<open>fifo/read_fifo.c\<close>), \<open>Socket_Hello\<close>
    (\<open>socket/tcp_server.c\<close>, \<open>socket/tcp_client.c\<close>): two processes and the channel between them, with
    its counts of open ends, or with the pieces in which the network delivers. \<open>Chat_Channel\<close>: the
    channel for one message at a time that the chat refines; \<open>Chat_Failures\<close>: its failing calls.
  \<^item> \<open>Signal_Programs\<close> (\<open>signal_example.c\<close>, \<open>kill_example.c\<close>): dispositions, mask, pending signals.
  \<^item> \<open>Sysv_Queue\<close> (\<open>SysV/sysv_mq_example.c\<close>), \<open>Posix_Queue\<close> (\<open>POSIX/posix_mq_receiver.c\<close>,
    \<open>POSIX/posix_mq_sender.c\<close>), \<open>Shared_Memory\<close> (\<open>SysV/shm_write.c\<close>, \<open>SysV/shm_read.c\<close>,
    \<open>POSIX/posix_shm_write.c\<close>, \<open>POSIX/posix_shm_read.c\<close>): programs that meet at an object of the
    kernel, with the locales \<open>typed_queue\<close> and \<open>text_exchange\<close> for what they promise each other.
  \<^item> \<open>Address_Book\<close> (\<open>malloc_example.c\<close>): entries as the 228 bytes of \<open>struct information\<close>.
  \<^item> \<open>Stdio_Programs\<close> (\<open>stdio_example.c\<close>, \<open>stdio_example2.c\<close>, \<open>stdio_example3.c\<close>), \<open>File_Programs\<close>
    (\<open>access_example.c\<close>, \<open>chmod_example.c\<close>, \<open>creat_example.c\<close>, \<open>stat_example.c\<close>, \<open>mmap_example.c\<close>,
    \<open>directory_example.c\<close>): sequential programs on the file system.
  \<^item> \<open>Child_Status\<close> (\<open>parent_child_example.c\<close>, \<open>wait_example.c\<close>): the status word of 32 bits.
  \<^item> \<open>Calendar_Time\<close> (\<open>gmtime_localtime.c\<close>), \<open>Small_Programs\<close> (\<open>pthread_create_example.c\<close>,
    \<open>pthread_cancel_example.c\<close>, \<open>popen_example.c\<close>, \<open>daemon_example.c\<close>).

  \<^bold>\<open>How code becomes definitions.\<close> A sequential program is a function from its input, a script of
  failures and the contents of uninitialised memory to its exit status, its output and the files
  or objects it leaves. A concurrent program is a partial step function on a record: each thread
  or process has a control point, and a move is one system call or one access to shared memory
  with the local computation up to the next one. \<open>None\<close> means that the thread is blocked or has
  ended. The scheduler is arbitrary (\<open>reach\<close>, \<open>run_schedule\<close>). A call that can fail has a second
  move, or takes its outcome from the script; errno's text is a parameter. An int is an \<open>int\<close>
  with the wrap-around or the range written out where it matters, a status word is a \<open>32 word\<close>, a
  buffer is a list of bytes of its size. Where the C standard leaves the behaviour undefined the
  run has no result, or the old contents of the memory are a parameter of the model. Texts in
  Korean are constructors with the printed values as arguments.

  \<^bold>\<open>What the lemmas show.\<close> For the concurrent programs: a control invariant and an invariant of the
  data for each thread, from them mutual exclusion (\<open>account_exclusion\<close>, \<open>sem_exclusion\<close>,
  \<open>posix_exclusion\<close>, \<open>record_locks_exclusive\<close>, \<open>flock_exclusion\<close>), the output of every complete run,
  and termination, progress (\<open>fifo_progress\<close>) or their absence (\<open>flock_deadlock\<close>, \<open>fifo_race\<close>, \<open>fifo_open_error\<close>, \<open>mq_message_before_notify\<close>).
  Refinement is stated for whole runs: the states of a run, seen through a view and without the
  repetitions, are a run of a specification, which is an inductive relation (\<open>account_refines\<close>,
  \<open>fifo_refines\<close>), or related to it state by state (\<open>flock_refines\<close>, \<open>posix_visits\<close>); \<open>record_update_atomic\<close>
  refines the locked update of a record to one atomic step. What a specification keeps, the program
  keeps: \<open>account_result\<close>, \<open>flock_result\<close> and \<open>posix_visits\<close> are proved in this way. For the
  sequential programs: the output and the files left on every branch, round trips through files,
  queues and segments, the exact effect of a run that fails half-way (\<open>stdio2_filters\<close>), the
  well-formedness of the memory (\<open>book_well_formed\<close>), and three programs in a row on one file
  (\<open>file_pipeline\<close>, below).

  \<^bold>\<open>Bounds.\<close> A round is any list of picks that contains every thread that the theorem names. The
  numbers of rounds that are enough are the initial values of measures: 28 for \<open>pthread_example.c\<close>,
  312 for \<open>SysV/sem_example.c\<close> (14 characters, the sleeps and the waits of two threads), 61 for
  \<open>POSIX/sem_posix_example.c\<close>, 21 for \<open>pipe_example.c\<close>, 202 for the TCP client (a slow network delivers
  the greeting byte by byte), 33 and two for each byte of the file for \<open>flock_example.c\<close>, 10 with
  the clock for \<open>pthread_cancel_example.c\<close>, \<open>20 * n + 31\<close> for \<open>n\<close> messages on each side of the FIFO
  chat, which never ends. Each bound holds with any failing calls mixed in, unless
  the theorem excludes them. No definition uses fuel: recursive functions terminate by structure
  or by the measure given with them.

  \<^bold>\<open>Abstractions.\<close> A printf appends to the output at once, in one piece, except where the buffer of
  stdout is the point (\<open>stdio_example3.c\<close>, \<open>daemon_example.c\<close>); handlers of signals run between the
  calls of \<open>main\<close>; memory is sequentially consistent; a call is not interrupted half-way by a
  signal. The kernel's objects (lock table, queues, segments, semaphores, pipes, FIFO, signals)
  are modelled as the manual pages describe them, as far as the programs use them.

  \<^bold>\<open>Undefined joins.\<close> Three programs ignore the result of \<open>pthread_create\<close> (\<open>pthread_example.c\<close>,
  \<open>flock_example.c\<close>, \<open>POSIX/sem_posix_example.c\<close>). A failing creation is a move of its own there, after
  which \<open>main\<close> joins through an uninitialised variable: the run stands still in a state of its own
  (\<open>A_Undefined\<close>, \<open>L_Undefined\<close>, \<open>M_Undefined\<close>), which the theorems on termination name.

  \<^bold>\<open>Not modelled.\<close> The notes (\<open>README.md\<close>, \<open>library.txt\<close> and the comments behind each program), the
  data file \<open>test.txt\<close> and the compiled programs in the subdirectories. Of the modelled programs: a
  buffered write of \<open>stdio_example2.c\<close> or \<open>stdio_example3.c\<close> that fails later than its call, a file
  that shrinks while it is mapped, reads and writes that a signal cuts short.
\<close>

section \<open>Programs on one file\<close>

text \<open>
  C30: \<open>stdio_example2.c\<close>, \<open>mmap_example.c\<close> and \<open>stat_example.c\<close> run one after the other on a regular file
  that may be read and written, without a failing call: the filter succeeds, the second program
  prints the filtered contents, the third one reports the size, which is the old one, and filtering
  once more changes nothing.
\<close>

theorem file_pipeline:
  assumes "faults w = []" and "fs w path = Some f" and "kind f = Regular" and "content f \<noteq> []" and "length (content f) < 2 ^ 31"
    and "grants (class_bits (who w) (perm f)) (R_OK + W_OK)" and "stdio2_main [p1, path] w = (r, w1)"
  shows "r = 0 \<and> mmap_main [p2, path] w1 = Some (0, print (map Stdio_Programs.blank (content f)) w1) \<and>
    stat_main [p3, path] w1 = (0, print (''file('' @ path @ '') is '' @ dec (int (length (content f))) @ '' bytes'' @ [nl]) w1) \<and>
    stdio2_main [p1, path] w1 = (0, w1)"
proof -
  let ?g = "f\<lparr>content := map Stdio_Programs.blank (content f)\<rparr>"
  have w1: "r = 0" "w1 = write_content path (map Stdio_Programs.blank (content f)) w"
    using assms(7) stdio2_calm [OF assms(1,2) is_dir_Regular [OF assms(3)] assms(6)] by simp_all
  have "fs w1 = (fs w)(path \<mapsto> ?g)" "faults w1 = []" "who w1 = who w"
    using assms(1,2) by (simp_all add: w1(2) write_content_def)
  then have f1: "fs w1 path = Some ?g" "faults w1 = []" "grants (class_bits (who w1) (perm ?g)) (R_OK + W_OK)"
    using assms(6) by simp_all
  have gr: "grants b (R_OK + W_OK) \<Longrightarrow> grants b R_OK" for b
    by (simp add: grants_def R_OK_def W_OK_def)
  have "mmap_main [p2, path] w1 = Some (0, print (map Stdio_Programs.blank (content f)) w1)"
    using mmap_calm [OF f1(2,1) _ gr [OF f1(3)]] assms(3,4,5) by simp
  moreover have "stat_main [p3, path] w1 = (0, print (''file('' @ path @ '') is '' @ dec (int (length (content f))) @ '' bytes'' @ [nl]) w1)"
    using f1 by (simp add: stat_main_def attempt_def stat_file_def)
  moreover have "stdio2_main [p1, path] w1 = (0, write_content path (content ?g) w1)"
    using stdio2_calm [OF f1(2,1) _ f1(3)] assms(3) by (simp add: comp_def)
  moreover have "write_content path (content ?g) w1 = w1" using f1(1) by (simp add: write_content_def fun_upd_idem)
  ultimately show ?thesis using w1(1) by simp
qed

theorem file_pipeline_witness:
  "out (snd (the (mmap_main [''m'', ''f''] (snd (stdio2_main [''a'', ''f''] (one_file ''hello world!'')))))) = ''hello world ''"
proof -
  have g: "grants (class_bits Owner 420) (R_OK + W_OK)" by code_simp
  have m: "map Stdio_Programs.blank ''hello world!'' = ''hello world ''" by code_simp
  let ?f = "\<lparr>content = ''hello world!'', perm = 420, kind = Regular\<rparr>"
  have o: "out (snd (stdio2_main [''a'', ''f''] (one_file ''hello world!''))) = []"
    using g by (simp add: stdio2_calm one_file_def write_content_def is_dir_def)
  have "mmap_main [''m'', ''f''] (snd (stdio2_main [''a'', ''f''] (one_file ''hello world!''))) =
      Some (0, print (map Stdio_Programs.blank (content ?f)) (snd (stdio2_main [''a'', ''f''] (one_file ''hello world!''))))"
    using file_pipeline [of "one_file ''hello world!''" "''f''" ?f "''a''", OF _ _ _ _ _ _ surjective_pairing] g
    by (simp add: one_file_def)
  then show ?thesis using o m by simp
qed

end
